(* ===== verification/Prelude.thy ===== *)
theory Prelude
  imports Main "HOL-Library.Word"
begin

text \<open>
  Vocabulary shared by every component: the machine integer types of the C
  sources, the values that stand for undefined behaviour, and the generic facts
  on words, masks and lists that the component proofs rest on.

  Conventions of the whole development.
  \<^item> \<open>uintN_t\<close>, \<open>size_t\<close> and \<open>uintptr_t\<close> are words of their width
    (64 bits for the last two); \<open>int\<close> and \<open>int64_t\<close> are \<open>int\<close> with
    the range check of signed arithmetic written out, or a word where the code
    only tests its value.
  \<^item> A step that C leaves undefined is the value \<open>Inl\<close> of a \<open>ub\<close>, so a
    theorem that a function returns \<open>Inr\<close> says that no undefined step is made.
  \<^item> A possibly null pointer is an \<open>option\<close>; the pointed-to object is passed
    in and the updated object is part of the result.
\<close>

unbundle bit_operations_syntax

section \<open>Types of the C sources\<close>

type_synonym u8 = "8 word"
type_synonym u16 = "16 word"
type_synonym u32 = "32 word"
type_synonym u64 = "64 word"

datatype ub =
    Out_Of_Bounds
  | Null_Deref
  | Shift_Width
  | Signed_Overflow
  | Missing_Return
  | Uninit_Read
  | Use_After_Free
  | Vla_Size
  | Misaligned

type_synonym 'a cres = "ub + 'a"

text \<open>\<open>c_model\<close> collects the equations that unfold the model's small helpers.\<close>

named_theorems c_model
named_theorems word_mod

section \<open>Bounds-checked array access\<close>

definition arr_get :: "'a list \<Rightarrow> nat \<Rightarrow> 'a cres" where
  "arr_get xs i = (if i < length xs then Inr (xs ! i) else Inl Out_Of_Bounds)"

definition arr_set :: "'a list \<Rightarrow> nat \<Rightarrow> 'a \<Rightarrow> 'a list cres" where
  "arr_set xs i v = (if i < length xs then Inr (xs[i := v]) else Inl Out_Of_Bounds)"

lemma arr_get_ok [simp]: "i < length xs \<Longrightarrow> arr_get xs i = Inr (xs ! i)"
  by (simp add: arr_get_def)

lemma arr_set_ok [simp]: "i < length xs \<Longrightarrow> arr_set xs i v = Inr (xs[i := v])"
  by (simp add: arr_set_def)

lemma arr_set_oob [simp]: "length xs \<le> i \<Longrightarrow> arr_set xs i v = Inl Out_Of_Bounds"
  by (simp add: arr_set_def)

lemma arr_get_oob [simp]: "length xs \<le> i \<Longrightarrow> arr_get xs i = Inl Out_Of_Bounds"
  by (simp add: arr_get_def)

text \<open>An index of type \<open>int\<close> may be negative.\<close>

definition iget :: "'a list \<Rightarrow> int \<Rightarrow> 'a cres" where
  "iget xs i = (if 0 \<le> i then arr_get xs (nat i) else Inl Out_Of_Bounds)"

definition iset :: "'a list \<Rightarrow> int \<Rightarrow> 'a \<Rightarrow> 'a list cres" where
  "iset xs i v = (if 0 \<le> i then arr_set xs (nat i) v else Inl Out_Of_Bounds)"

lemma iget_ok [simp]: "0 \<le> i \<Longrightarrow> i < int (length xs) \<Longrightarrow> iget xs i = Inr (xs ! nat i)"
  by (simp add: iget_def nat_less_iff)

lemma iset_ok [simp]: "0 \<le> i \<Longrightarrow> i < int (length xs) \<Longrightarrow> iset xs i v = Inr (xs[nat i := v])"
  by (simp add: iset_def nat_less_iff)

lemma iget_oob [simp]: "i < 0 \<or> int (length xs) \<le> i \<Longrightarrow> iget xs i = Inl Out_Of_Bounds"
  by (auto simp: iget_def arr_get_def)

lemma iset_oob [simp]: "i < 0 \<or> int (length xs) \<le> i \<Longrightarrow> iset xs i v = Inl Out_Of_Bounds"
  by (auto simp: iset_def arr_set_def)

section \<open>Sequencing of steps that may be undefined\<close>

fun cbind :: "'a cres \<Rightarrow> ('a \<Rightarrow> 'b cres) \<Rightarrow> 'b cres" where
  "cbind (Inl e) f = Inl e"
| "cbind (Inr x) f = f x"

lemma cbind_eq_Inr [simp]: "cbind m f = Inr y \<longleftrightarrow> (\<exists>x. m = Inr x \<and> f x = Inr y)"
  by (cases m) simp_all

lemma cbind_assoc: "cbind (cbind m f) g = cbind m (\<lambda>x. cbind (f x) g)"
  by (cases m) simp_all

text \<open>The range of \<open>int\<close>.\<close>

definition INT_MAX :: int where
  "INT_MAX = 2147483647"

definition INT_MIN :: int where
  "INT_MIN = - 2147483648"

definition int_range :: "int \<Rightarrow> bool" where
  "int_range i \<longleftrightarrow> INT_MIN \<le> i \<and> i \<le> INT_MAX"

text \<open>A result of signed 32-bit arithmetic; out of range is undefined.\<close>

definition c_int :: "int \<Rightarrow> int cres" where
  "c_int i = (if int_range i then Inr i else Inl Signed_Overflow)"

lemma c_int_ok [simp]: "int_range i \<Longrightarrow> c_int i = Inr i"
  by (simp add: c_int_def)

section \<open>Critical sections\<close>

text \<open>
  The outcome of code that runs with a mutex held, from its acquisition or from a
  wake-up on: it goes to wait on its condition variable, or returns a value with the
  updated state; the flag says whether it signals the other condition variable.
\<close>

datatype ('r, 's) attempt = Wait | Ret 'r 's bool

section \<open>Words\<close>

text \<open>Masking with a power of two minus one is reduction modulo that power.\<close>

lemma unat_and_mask: "unat (x AND mask n :: 'a::len word) = unat x mod 2 ^ n"
  by (simp add: take_bit_eq_mask [symmetric] take_bit_eq_mod [symmetric] unsigned_take_bit_eq)

text \<open>
  A counter that runs freely over \<open>LENGTH('a)\<close> bits and is only ever read modulo
  a divisor of \<open>2 ^ LENGTH('a)\<close> behaves like an unbounded one.
\<close>

lemma unat_diff_sum:
  "unat (t :: 'a::len word) = (unat h + unat (t - h)) mod 2 ^ LENGTH('a)"
  by (metis add.commute diff_add_cancel unat_word_ariths(1))

lemma unat_free_running_mod [word_mod]:
  "k dvd 2 ^ LENGTH('a) \<Longrightarrow> unat (t :: 'a::len word) mod k = (unat h + unat (t - h)) mod k"
  by (metis unat_diff_sum mod_mod_cancel)

lemma unat_Suc_mod [word_mod]:
  "k dvd 2 ^ LENGTH('a) \<Longrightarrow> unat (h + 1 :: 'a::len word) mod k = Suc (unat h) mod k"
  by (simp add: mod_mod_cancel unat_word_ariths(1))

text \<open>The distance between two counters grows and shrinks by one with no wrap.\<close>

lemma unat_bound: "unat (x :: 'a::len word) < 2 ^ LENGTH('a)"
  by (rule unsigned_less)

lemma unat_plus_one:
  "Suc (unat x) < 2 ^ LENGTH('a) \<Longrightarrow> unat (x + 1 :: 'a::len word) = Suc (unat x)"
  by (simp add: unat_word_ariths(1))

lemma less_plus_one:
  assumes "c < (m :: 'a::len word)"
  shows "i < c + 1 \<longleftrightarrow> i < c \<or> i = c"
proof -
  have "Suc (unat c) < 2 ^ LENGTH('a)"
    using assms unat_bound [of m] unfolding word_less_nat_alt by linarith
  from unat_plus_one [OF this] show ?thesis
    by (auto simp: word_less_nat_alt less_Suc_eq word_unat_eq_iff)
qed

lemma unat_pred: "0 < (c :: 'a::len word) \<Longrightarrow> unat (c - 1) = unat c - 1"
  by (rule unat_minus_one) auto

lemma less_minus_one: "0 < (c :: 'a::len word) \<Longrightarrow> i < c - 1 \<longleftrightarrow> i < c \<and> i \<noteq> c - 1"
  by (auto simp: word_less_nat_alt word_unat_eq_iff unat_pred)

lemma unat_dist_push:
  fixes t h :: "'a::len word"
  assumes "unat (t - h) < n" "n < 2 ^ LENGTH('a)"
  shows "unat (t + 1 - h) = Suc (unat (t - h))"
proof -
  have "Suc (unat (t - h)) < 2 ^ LENGTH('a)" using assms by linarith
  from unat_plus_one [OF this] show ?thesis by (simp only: diff_add_eq)
qed

lemma unat_dist_pop:
  fixes t h :: "'a::len word"
  assumes "t \<noteq> h"
  shows "unat (t - (h + 1)) = unat (t - h) - 1"
proof -
  have "t - h \<noteq> 0" using assms by simp
  from unat_minus_one [OF this] show ?thesis by (simp only: diff_diff_eq)
qed

lemma unat_dist_0_iff [simp]: "unat (t - h :: 'a::len word) = 0 \<longleftrightarrow> t = h"
  by (simp add: unat_eq_0)

section \<open>Transition systems\<close>

lemma decreasing_stepI: "R s t \<Longrightarrow> f t < (f s :: nat) \<Longrightarrow> \<exists>t. R s t \<and> f t < f s"
  by blast

lemma steps_bounded_inv:
  assumes "(R ^^ n) s t" "I s" and "\<And>u v. R u v \<Longrightarrow> I u \<Longrightarrow> I v \<and> f v < (f u :: nat)"
  shows "n + f t \<le> f s \<and> I t"
  using assms(1)
proof (induction n arbitrary: t)
  case (Suc n)
  then obtain u where "(R ^^ n) s u" "R u t" by auto
  with Suc.IH [of u] assms(3) [of u t] show ?case by linarith
qed (simp add: assms(2))

lemma steps_bounded:
  assumes "(R ^^ n) s t" and "\<And>u v. R u v \<Longrightarrow> f v < (f u :: nat)"
  shows "n + f t \<le> f s"
  using steps_bounded_inv [OF assms(1), of "\<lambda>_. True" f] assms(2) by blast

text \<open>
  If from every state with the invariant either the goal holds or some step decreases
  a measure and keeps the invariant, then the goal can be reached.
\<close>

lemma reach_goal:
  assumes prog: "\<And>s. I s \<Longrightarrow> \<not> G s \<Longrightarrow> \<exists>t. R s t \<and> f t < (f s :: nat)"
    and keep: "\<And>s t. R s t \<Longrightarrow> I s \<Longrightarrow> I t"
  shows "I s \<Longrightarrow> \<exists>t. R\<^sup>*\<^sup>* s t \<and> I t \<and> G t"
proof (induction "f s" arbitrary: s rule: less_induct)
  case less
  show ?case
  proof (cases "G s")
    case True
    with less.prems show ?thesis by blast
  next
    case False
    with less.prems prog obtain t where t: "R s t" "f t < f s" by blast
    from less.hyps [OF t(2) keep [OF t(1) less.prems]] t(1) show ?thesis
      by (meson converse_rtranclp_into_rtranclp)
  qed
qed

end
