(* ===== verification/Circular.thy ===== *)
theory Circular
  imports Prelude
begin

text \<open>
  The list held by a circular array: \<open>slots xs h n\<close> reads \<open>n\<close> entries of
  \<open>xs\<close> from position \<open>h\<close> on, positions taken modulo the length of \<open>xs\<close>.
  Every ring of the sources (the power-of-two ring, the ISR event queue, the
  bounded queue, the worker queue, the SPSC ring and the two rings of the packet
  processor) stores its contents this way, and differs only in how it keeps
  its positions; their proofs share the three laws below.
\<close>

definition slots :: "'a list \<Rightarrow> nat \<Rightarrow> nat \<Rightarrow> 'a list" where
  "slots xs h n = map (\<lambda>i. xs ! ((h + i) mod length xs)) [0..<n]"

lemma slots_0 [simp]: "slots xs h 0 = []"
  by (simp add: slots_def)

lemma length_slots [simp]: "length (slots xs h n) = n"
  by (simp add: slots_def)

lemma slots_Nil_iff [simp]: "slots xs h n = [] \<longleftrightarrow> n = 0"
  by (simp add: slots_def)

lemma nth_slots: "i < n \<Longrightarrow> slots xs h n ! i = xs ! ((h + i) mod length xs)"
  by (simp add: slots_def)

text \<open>The start position matters modulo the length only.\<close>

lemma slots_cong_mod:
  "h mod length xs = h' mod length xs \<Longrightarrow> slots xs h n = slots xs h' n"
  unfolding slots_def by (rule map_cong [OF refl]) (metis mod_add_left_eq)

text \<open>Two offsets below the length never meet.\<close>

lemma mod_offset_neq:
  fixes h i n k :: nat
  assumes "i < n" "n < k"
  shows "(h + i) mod k \<noteq> (h + n) mod k"
proof
  assume "(h + i) mod k = (h + n) mod k"
  then have "k dvd (h + n) - (h + i)"
    by (metis mod_eq_dvd_iff_nat add_le_cancel_left assms(1) less_imp_le)
  then have "k dvd n - i" by simp
  with assms show False by (auto dest: dvd_imp_le)
qed

lemma mod_eq_window:
  fixes a b k :: nat
  assumes "a \<le> b" "b < a + k" "a mod k = b mod k"
  shows "a = b"
proof (rule ccontr)
  assume "a \<noteq> b"
  with assms have "0 < b - a" "b - a < k" by linarith+
  from mod_offset_neq [OF this, of a] assms show False by simp
qed

text \<open>Writing the first free entry appends to the list.\<close>

lemma slots_push:
  assumes "n < length xs"
  shows "slots (xs[(h + n) mod length xs := v]) h (Suc n) = slots xs h n @ [v]"
proof (rule nth_equalityI)
  fix i assume i: "i < length (slots (xs[(h + n) mod length xs := v]) h (Suc n))"
  have pos: "(h + n) mod length xs < length xs" by (rule mod_less_divisor) (use assms in linarith)
  show "slots (xs[(h + n) mod length xs := v]) h (Suc n) ! i = (slots xs h n @ [v]) ! i"
  proof (cases "i = n")
    case True
    with pos show ?thesis by (simp add: nth_slots nth_append)
  next
    case False
    with i have "i < n" by simp
    with mod_offset_neq [OF this assms, of h] i show ?thesis
      by (simp add: nth_slots nth_append)
  qed
qed simp

text \<open>Dropping the oldest entry moves the start by one.\<close>

lemma slots_Suc: "slots xs h (Suc n) = xs ! (h mod length xs) # slots xs (Suc h) n"
  by (rule nth_equalityI) (auto simp: nth_slots nth_Cons split: nat.split)

text \<open>A write outside the occupied part is not seen.\<close>

lemma slots_update_other:
  "(\<And>i. i < n \<Longrightarrow> (h + i) mod length xs \<noteq> j) \<Longrightarrow> slots (xs[j := v]) h n = slots xs h n"
  by (rule nth_equalityI) (simp_all add: nth_slots, metis nth_list_update_neq)

text \<open>
  One push and one pop of a ring whose length \<open>k\<close> divides the range of its
  counters: \<open>w\<close> is the counter that writes, \<open>rd\<close> the one that reads.
\<close>

lemma free_running_push:
  fixes w rd :: "'a::len word"
  assumes "length xs = k" "k dvd 2 ^ LENGTH('a)" "k < 2 ^ LENGTH('a)" "unat (w - rd) < k"
  shows "slots (xs[unat w mod k := v]) (unat rd) (unat (w + 1 - rd))
       = slots xs (unat rd) (unat (w - rd)) @ [v]"
proof -
  have "unat w mod k = (unat rd + unat (w - rd)) mod k"
    using assms(2) by (rule unat_free_running_mod)
  moreover have "unat (w + 1 - rd) = Suc (unat (w - rd))"
    using assms by (intro unat_dist_push) auto
  ultimately show ?thesis
    using slots_push [of "unat (w - rd)" xs "unat rd" v] assms(1,4) by simp
qed

lemma free_running_pop:
  fixes w rd :: "'a::len word"
  assumes "length xs = k" "k dvd 2 ^ LENGTH('a)" "w \<noteq> rd"
  shows "slots xs (unat rd) (unat (w - rd))
       = xs ! (unat rd mod k) # slots xs (unat (rd + 1)) (unat (w - (rd + 1)))"
proof -
  have "unat (rd + 1) mod k = Suc (unat rd) mod k"
    using assms(2) by (rule unat_Suc_mod)
  with assms(1) have "slots xs (unat (rd + 1)) n = slots xs (Suc (unat rd)) n" for n
    by (intro slots_cong_mod) simp
  moreover have "unat (w - rd) = Suc (unat (w - (rd + 1)))"
    using assms(3) unat_dist_pop [of w rd] unat_dist_0_iff [of w rd]
    by (metis One_nat_def Suc_pred gr0I)
  ultimately show ?thesis using assms(1) slots_Suc by metis
qed

text \<open>
  One push and one pop of a ring that keeps its positions below the length \<open>k\<close> and
  counts its entries: \<open>w\<close> is the position to write, \<open>rd\<close> the one to read.
\<close>

lemma unat_mod_step:
  fixes w m :: "'a::len word"
  assumes "unat m = k" "unat w < k"
  shows "unat ((w + 1) mod m) = Suc (unat w) mod k"
proof -
  have "Suc (unat w) < 2 ^ LENGTH('a) \<or> Suc (unat w) = 2 ^ LENGTH('a)"
    using unat_bound [of w] by linarith
  moreover have "k < 2 ^ LENGTH('a)" using assms(1) unat_bound [of m] by simp
  ultimately show ?thesis using assms by (auto simp: unat_mod unat_plus_one)
qed

lemma mod_ring_push:
  fixes w rd c m :: "'a::len word"
  assumes "length xs = k" "unat m = k" "unat c < k" "unat w = (unat rd + unat c) mod k"
  shows "slots (xs[unat w := v]) (unat rd) (unat (c + 1)) = slots xs (unat rd) (unat c) @ [v]"
    and "unat ((w + 1) mod m) = (unat rd + unat (c + 1)) mod k"
    and "unat (c + 1) = Suc (unat c)"
proof -
  show c: "unat (c + 1) = Suc (unat c)"
    using assms(2,3) unat_bound [of m] by (intro unat_plus_one) linarith
  have w: "unat w < k" using assms(3,4) by simp
  show "slots (xs[unat w := v]) (unat rd) (unat (c + 1)) = slots xs (unat rd) (unat c) @ [v]"
    using slots_push [of "unat c" xs "unat rd" v] assms c by simp
  show "unat ((w + 1) mod m) = (unat rd + unat (c + 1)) mod k"
    using assms(4) c by (simp add: unat_mod_step [OF assms(2) w] mod_Suc_eq)
qed

lemma mod_ring_pop:
  fixes w rd c m :: "'a::len word"
  assumes "length xs = k" "unat m = k" "c \<noteq> 0" "unat rd < k" "unat w = (unat rd + unat c) mod k"
  shows "slots xs (unat rd) (unat c) = xs ! unat rd # slots xs (unat ((rd + 1) mod m)) (unat (c - 1))"
    and "unat w = (unat ((rd + 1) mod m) + unat (c - 1)) mod k"
    and "unat ((rd + 1) mod m) < k" "unat c = Suc (unat (c - 1))"
proof -
  note step = unat_mod_step [OF assms(2,4)]
  show c: "unat c = Suc (unat (c - 1))" using assms(3) by (simp add: unat_minus_one unat_gt_0)
  show "unat ((rd + 1) mod m) < k" using assms(4) by (simp add: step)
  have "slots xs (unat ((rd + 1) mod m)) n = slots xs (Suc (unat rd)) n" for n
    using assms(1) by (intro slots_cong_mod) (simp add: step)
  with c assms(1,4) show "slots xs (unat rd) (unat c)
      = xs ! unat rd # slots xs (unat ((rd + 1) mod m)) (unat (c - 1))" by (simp add: slots_Suc)
  show "unat w = (unat ((rd + 1) mod m) + unat (c - 1)) mod k"
    using assms(5) c by (simp add: step mod_add_left_eq)
qed

end
