(* ===== verification/Bounded_Fifo.thy ===== *)
theory Bounded_Fifo
  imports Main
begin

text \<open>
  The contract of a bounded first-in first-out queue with the calling convention
  of the C sources: \<open>push\<close> returns whether the value was taken, \<open>pop\<close>
  returns whether a value was delivered and, through its out parameter, which.
  A rejected call changes nothing, the out parameter included.

  \<open>fifo_run\<close> drives an implementation with a sequence of calls; the locale
  proves once that its answers are those of the list specification
  \<open>spec_run\<close>, for every implementation that satisfies the contract.
\<close>

datatype 'a fifo_call = Push 'a | Pop

datatype 'a fifo_reply = Pushed | Full | Popped 'a | Empty

fun spec_run :: "nat \<Rightarrow> 'a list \<Rightarrow> 'a fifo_call list \<Rightarrow> 'a fifo_reply list" where
  "spec_run k q [] = []"
| "spec_run k q (Push x # cs) =
     (if length q < k then Pushed # spec_run k (q @ [x]) cs else Full # spec_run k q cs)"
| "spec_run k [] (Pop # cs) = Empty # spec_run k [] cs"
| "spec_run k (x # q) (Pop # cs) = Popped x # spec_run k q cs"

fun fifo_run :: "('s \<Rightarrow> 'a \<Rightarrow> bool \<times> 's) \<Rightarrow> ('s \<Rightarrow> 'a \<Rightarrow> bool \<times> 'a \<times> 's) \<Rightarrow> 'a
    \<Rightarrow> 's \<Rightarrow> 'a fifo_call list \<Rightarrow> 'a fifo_reply list" where
  "fifo_run push pop out s [] = []"
| "fifo_run push pop out s (Push x # cs) =
     (case push s x of (ok, s') \<Rightarrow> (if ok then Pushed else Full) # fifo_run push pop out s' cs)"
| "fifo_run push pop out s (Pop # cs) =
     (case pop s out of (ok, out', s') \<Rightarrow>
        (if ok then Popped out' else Empty) # fifo_run push pop out' s' cs)"

locale bounded_fifo =
  fixes push :: "'s \<Rightarrow> 'a \<Rightarrow> bool \<times> 's"
    and pop :: "'s \<Rightarrow> 'a \<Rightarrow> bool \<times> 'a \<times> 's"
    and contents :: "'s \<Rightarrow> 'a list"
    and inv :: "'s \<Rightarrow> bool"
    and cap :: nat
  assumes contents_le: "inv s \<Longrightarrow> length (contents s) \<le> cap"
    and push_full: "inv s \<Longrightarrow> length (contents s) = cap \<Longrightarrow> push s x = (False, s)"
    and push_room: "inv s \<Longrightarrow> length (contents s) < cap \<Longrightarrow>
      \<exists>s'. push s x = (True, s') \<and> inv s' \<and> contents s' = contents s @ [x]"
    and pop_empty: "inv s \<Longrightarrow> contents s = [] \<Longrightarrow> pop s out = (False, out, s)"
    and pop_some: "inv s \<Longrightarrow> contents s = x # xs \<Longrightarrow>
      \<exists>s'. pop s out = (True, x, s') \<and> inv s' \<and> contents s' = xs"
begin

lemma inv_push: "inv s \<Longrightarrow> inv (snd (push s x))"
  using push_full [of s x] push_room [of s x] contents_le [of s]
  by (cases "length (contents s) = cap") auto

lemma inv_pop: "inv s \<Longrightarrow> inv (snd (snd (pop s out)))"
  using pop_empty [of s out] pop_some [of s _ _ out]
  by (cases "contents s") fastforce+

lemma push_accepts_iff: "inv s \<Longrightarrow> fst (push s x) \<longleftrightarrow> length (contents s) < cap"
  using push_full [of s x] push_room [of s x] contents_le [of s]
  by (cases "length (contents s) = cap") auto

text \<open>Any sequence of calls gets the replies of the list specification.\<close>

lemma run_refines: "inv s \<Longrightarrow> fifo_run push pop out s cs = spec_run cap (contents s) cs"
proof (induction cs arbitrary: s out)
  case Nil
  then show ?case by simp
next
  case (Cons c cs)
  show ?case
  proof (cases c)
    case (Push x)
    show ?thesis
    proof (cases "length (contents s) < cap")
      case True
      with Cons.prems push_room obtain s' where
        "push s x = (True, s')" "inv s'" "contents s' = contents s @ [x]" by blast
      with True Cons.IH [of s'] Push show ?thesis by simp
    next
      case False
      with contents_le [OF Cons.prems] have "length (contents s) = cap" by simp
      with push_full [OF Cons.prems] False Cons.IH [OF Cons.prems] Push show ?thesis by simp
    qed
  next
    case Pop
    show ?thesis
    proof (cases "contents s")
      case Nil
      with pop_empty [OF Cons.prems] Cons.IH [OF Cons.prems] Pop show ?thesis by simp
    next
      case (Cons y ys)
      with pop_some [OF Cons.prems] obtain s' where
        "pop s out = (True, y, s')" "inv s'" "contents s' = ys" by blast
      with Cons Cons.IH [of s'] Pop show ?thesis by simp
    qed
  qed
qed

end

text \<open>What the specification itself promises: a batch that fits comes back in order.\<close>

lemma spec_run_append_Push:
  "length q + length xs \<le> k \<Longrightarrow>
   spec_run k q (map Push xs @ cs) = replicate (length xs) Pushed @ spec_run k (q @ xs) cs"
  by (induction xs arbitrary: q) auto

lemma spec_run_Pops: "spec_run k q (replicate (length q) Pop) = map Popped q"
  by (induction q) auto

lemma spec_run_batch:
  "length xs \<le> k \<Longrightarrow>
   spec_run k [] (map Push xs @ replicate (length xs) Pop) = map (\<lambda>_. Pushed) xs @ map Popped xs"
  using spec_run_append_Push [of "[]" xs k] spec_run_Pops [of k xs]
  by (simp add: map_replicate_const)

end
