(* ===== verification/Ring_Buffers.thy ===== *)
theory Ring_Buffers
  imports Circular Bounded_Fifo
begin

text \<open>
  The two single-threaded power-of-two rings of the sources:
  \<open>power_of_two_ring_buffer.c\<close> (1024 \<open>uint32_t\<close> entries, pushes at
  \<open>tail\<close>, pops at \<open>head\<close>) and \<open>isr_to_task_event_queue.c\<close> (64 events,
  the ISR pushes at \<open>head\<close>, the task pops at \<open>tail\<close>). Both keep two
  32-bit counters that run freely and wrap at \<open>2 ^ 32\<close>; both are shown to be
  bounded FIFO queues that use every entry, across the wrap of the counters.
\<close>

section \<open>power\_of\_two\_ring\_buffer.c\<close>

definition RING_CAP :: u32 where
  "RING_CAP = 1024"

definition RING_MASK :: u32 where
  "RING_MASK = RING_CAP - 1"

record ring =
  head :: u32
  tail :: u32
  entries :: "u32 list"

definition ring_empty :: "ring \<Rightarrow> bool" where
  "ring_empty r = (head r = tail r)"

definition ring_full :: "ring \<Rightarrow> bool" where
  "ring_full r = (tail r - head r = RING_CAP)"

definition ring_size :: "ring \<Rightarrow> u32" where
  "ring_size r = tail r - head r"

definition ring_push :: "ring \<Rightarrow> u32 \<Rightarrow> bool \<times> ring" where
  "ring_push r value =
     (if ring_full r then (False, r)
      else (True, r\<lparr>entries := (entries r)[unat (tail r AND RING_MASK) := value],
                    tail := tail r + 1\<rparr>))"

definition ring_pop :: "ring \<Rightarrow> u32 \<Rightarrow> bool \<times> u32 \<times> ring" where
  "ring_pop r value =
     (if ring_empty r then (False, value, r)
      else (True, entries r ! unat (head r AND RING_MASK), r\<lparr>head := head r + 1\<rparr>))"

text \<open>The array has its declared length and the counters are at most a ring apart.\<close>

definition ring_inv :: "ring \<Rightarrow> bool" where
  "ring_inv r \<longleftrightarrow> length (entries r) = unat RING_CAP \<and> unat (tail r - head r) \<le> unat RING_CAP"

definition ring_contents :: "ring \<Rightarrow> u32 list" where
  "ring_contents r = slots (entries r) (unat (head r)) (unat (tail r - head r))"

section \<open>isr\_to\_task\_event\_queue.c\<close>

definition EVT_Q_CAP :: u32 where
  "EVT_Q_CAP = 64"

definition EVT_Q_MASK :: u32 where
  "EVT_Q_MASK = EVT_Q_CAP - 1"

datatype event_type = EVT_LINK_UP | EVT_LINK_DOWN | EVT_CMD_DONE | EVT_ERROR

record event =
  evt_type :: event_type
  evt_data :: u32

record event_q =
  q_head :: u32
  q_tail :: u32
  q_entries :: "event list"

definition event_q_push_from_isr :: "event_q \<Rightarrow> event \<Rightarrow> bool \<times> event_q" where
  "event_q_push_from_isr q e =
     (if q_head q - q_tail q = EVT_Q_CAP then (False, q)
      else (True, q\<lparr>q_entries := (q_entries q)[unat (q_head q AND EVT_Q_MASK) := e],
                    q_head := q_head q + 1\<rparr>))"

definition event_q_pop_from_task :: "event_q \<Rightarrow> event \<Rightarrow> bool \<times> event \<times> event_q" where
  "event_q_pop_from_task q out =
     (if q_head q = q_tail q then (False, out, q)
      else (True, q_entries q ! unat (q_tail q AND EVT_Q_MASK), q\<lparr>q_tail := q_tail q + 1\<rparr>))"

definition event_q_inv :: "event_q \<Rightarrow> bool" where
  "event_q_inv q \<longleftrightarrow>
     length (q_entries q) = unat EVT_Q_CAP \<and> unat (q_head q - q_tail q) \<le> unat EVT_Q_CAP"

definition event_q_contents :: "event_q \<Rightarrow> event list" where
  "event_q_contents q = slots (q_entries q) (unat (q_tail q)) (unat (q_head q - q_tail q))"

section \<open>The indexing of a free-running ring\<close>

lemma mask_index:
  "unat (x AND RING_MASK) = unat x mod 1024" "unat (y AND EVT_Q_MASK) = unat y mod 64"
  using unat_and_mask [of x 10] unat_and_mask [of y 6]
  by (simp_all add: RING_MASK_def RING_CAP_def EVT_Q_MASK_def EVT_Q_CAP_def mask_eq_exp_minus_1)

section \<open>Both rings are bounded FIFO queues\<close>

lemma unat_cap: "unat RING_CAP = 1024" "unat EVT_Q_CAP = 64"
  by (simp_all add: RING_CAP_def EVT_Q_CAP_def)

lemma cap_iff: "(x = RING_CAP) = (unat x = 1024)" "(y = EVT_Q_CAP) = (unat y = 64)"
  by (metis unat_cap word_unat_eq_iff)+

lemmas ring_unfold = ring_inv_def ring_contents_def ring_push_def ring_pop_def
  ring_full_def ring_empty_def ring_size_def mask_index cap_iff unat_cap

lemmas event_q_unfold = event_q_inv_def event_q_contents_def event_q_push_from_isr_def
  event_q_pop_from_task_def mask_index cap_iff unat_cap

interpretation ring_fifo: bounded_fifo ring_push ring_pop ring_contents ring_inv 1024
proof unfold_locales
  fix r :: ring and x :: u32
  assume inv: "ring_inv r"
  then show "length (ring_contents r) \<le> 1024"
    by (simp add: ring_unfold)
  show "length (ring_contents r) = 1024 \<Longrightarrow> ring_push r x = (False, r)"
    by (simp add: ring_unfold)
  show "\<exists>r'. ring_push r x = (True, r') \<and> ring_inv r' \<and> ring_contents r' = ring_contents r @ [x]"
    if room: "length (ring_contents r) < 1024"
  proof -
    from room inv have len: "length (entries r) = 1024" and lt: "unat (tail r - head r) < 1024"
      by (simp_all add: ring_unfold)
    moreover from lt have "unat (tail r + 1 - head r) = Suc (unat (tail r - head r))"
      by (rule unat_dist_push) simp
    ultimately show ?thesis
      using free_running_push [of "entries r" 1024 "tail r" "head r" x]
      by (simp add: ring_unfold)
  qed
next
  fix r :: ring and out :: u32
  assume inv: "ring_inv r"
  show "ring_contents r = [] \<Longrightarrow> ring_pop r out = (False, out, r)"
    by (simp add: ring_unfold)
  fix x xs assume c: "ring_contents r = x # xs"
  then have ne: "tail r \<noteq> head r" by (auto simp: ring_unfold)
  from inv have "unat (tail r - (head r + 1)) \<le> 1024"
    unfolding unat_dist_pop [OF ne] by (auto simp: ring_unfold)
  then show "\<exists>r'. ring_pop r out = (True, x, r') \<and> ring_inv r' \<and> ring_contents r' = xs"
    using inv c ne free_running_pop [of "entries r" 1024 "tail r" "head r"]
    by (auto simp: ring_unfold)
qed

interpretation event_fifo: bounded_fifo event_q_push_from_isr event_q_pop_from_task
  event_q_contents event_q_inv 64
proof unfold_locales
  fix q :: event_q and x :: event
  assume inv: "event_q_inv q"
  then show "length (event_q_contents q) \<le> 64"
    by (simp add: event_q_unfold)
  show "length (event_q_contents q) = 64 \<Longrightarrow> event_q_push_from_isr q x = (False, q)"
    by (simp add: event_q_unfold)
  show "\<exists>q'. event_q_push_from_isr q x = (True, q') \<and> event_q_inv q'
      \<and> event_q_contents q' = event_q_contents q @ [x]"
    if room: "length (event_q_contents q) < 64"
  proof -
    from room inv have len: "length (q_entries q) = 64" and lt: "unat (q_head q - q_tail q) < 64"
      by (simp_all add: event_q_unfold)
    moreover from lt have "unat (q_head q + 1 - q_tail q) = Suc (unat (q_head q - q_tail q))"
      by (rule unat_dist_push) simp
    ultimately show ?thesis
      using free_running_push [of "q_entries q" 64 "q_head q" "q_tail q" x]
      by (simp add: event_q_unfold)
  qed
next
  fix q :: event_q and out :: event
  assume inv: "event_q_inv q"
  show "event_q_contents q = [] \<Longrightarrow> event_q_pop_from_task q out = (False, out, q)"
    by (simp add: event_q_unfold)
  fix x xs assume c: "event_q_contents q = x # xs"
  then have ne: "q_head q \<noteq> q_tail q" by (auto simp: event_q_unfold)
  from inv have "unat (q_head q - (q_tail q + 1)) \<le> 64"
    unfolding unat_dist_pop [OF ne] by (auto simp: event_q_unfold)
  then show "\<exists>q'. event_q_pop_from_task q out = (True, x, q') \<and> event_q_inv q'
      \<and> event_q_contents q' = xs"
    using inv c ne free_running_pop [of "q_entries q" 64 "q_head q" "q_tail q"]
    by (auto simp: event_q_unfold)
qed

text \<open>
  C20. Driven by any sequence of \<open>ring_push\<close> and \<open>ring_pop\<close> calls, the
  power-of-two ring answers exactly as a FIFO queue of 1024 elements would: no
  slot is left unused, nothing is lost or reordered, and a refused call changes
  nothing. The counters may start anywhere, so the wrap at \<open>2 ^ 32\<close> is covered.
\<close>

theorem ring_refines_fifo:
  assumes "ring_inv r"
  shows "fifo_run ring_push ring_pop out r calls = spec_run 1024 (ring_contents r) calls"
  using assms by (rule ring_fifo.run_refines)

definition ring_at_wrap :: ring where
  "ring_at_wrap = \<lparr>head = - 1, tail = - 1, entries = replicate 1024 0\<rparr>"

theorem ring_refines_fifo_witness:
  "ring_inv ring_at_wrap
   \<and> fifo_run ring_push ring_pop 0 ring_at_wrap [Push 7, Push 8, Pop, Pop, Pop]
     = [Pushed, Pushed, Popped 7, Popped 8, Empty]"
proof
  show inv: "ring_inv ring_at_wrap"
    by (simp add: ring_at_wrap_def ring_inv_def unat_cap)
  have "ring_contents ring_at_wrap = []"
    by (simp add: ring_at_wrap_def ring_contents_def)
  with ring_refines_fifo [OF inv, of 0 "[Push 7, Push 8, Pop, Pop, Pop]"]
  show "fifo_run ring_push ring_pop 0 ring_at_wrap [Push 7, Push 8, Pop, Pop, Pop]
     = [Pushed, Pushed, Popped 7, Popped 8, Empty]" by simp
qed

text \<open>
  The ISR event queue is a FIFO queue of 64 events for any sequence of
  pushes from the interrupt handler and pops from the task: an event that was
  accepted is delivered once, in order, and a push into a full queue is refused
  without disturbing the queued events.
\<close>

theorem event_q_refines_fifo:
  assumes "event_q_inv q"
  shows "fifo_run event_q_push_from_isr event_q_pop_from_task out q calls
       = spec_run 64 (event_q_contents q) calls"
  using assms by (rule event_fifo.run_refines)

definition link_up :: event where
  "link_up = \<lparr>evt_type = EVT_LINK_UP, evt_data = 3\<rparr>"

definition event_q_fresh :: event_q where
  "event_q_fresh = \<lparr>q_head = 4294967295, q_tail = 4294967295, q_entries = replicate 64 link_up\<rparr>"

theorem event_q_refines_fifo_witness:
  "event_q_inv event_q_fresh
   \<and> fifo_run event_q_push_from_isr event_q_pop_from_task link_up event_q_fresh
       [Pop, Push link_up, Pop] = [Empty, Pushed, Popped link_up]"
proof
  show inv: "event_q_inv event_q_fresh"
    by (simp add: event_q_fresh_def event_q_inv_def unat_cap)
  have "event_q_contents event_q_fresh = []"
    by (simp add: event_q_fresh_def event_q_contents_def)
  with event_q_refines_fifo [OF inv, of link_up "[Pop, Push link_up, Pop]"]
  show "fifo_run event_q_push_from_isr event_q_pop_from_task link_up event_q_fresh
       [Pop, Push link_up, Pop] = [Empty, Pushed, Popped link_up]" by simp
qed

end
