(* ===== verification/Spsc.thy ===== *)
theory Spsc
  imports Circular
begin

text \<open>
  \<open>spsc_040426/spsc.c\<close>: a parent process writes \<open>0, 1, 2, \<dots>\<close> into a
  ring of ten \<open>int\<close>s in shared memory and a forked child adds up what it reads.
  The two processes only share the ring; each step below is one access to it (an
  acquire load with the test it feeds, the plain access of the buffer, a release
  store), and the step relation interleaves the two processes freely. The private
  \<open>int\<close> counters and indices are \<open>nat\<close>: they start at 0, only grow up to
  \<open>max_count\<close> (ten million) or stay below \<open>RB_LEN\<close>, so no conversion or
  overflow of the source is lost.
\<close>

definition RB_LEN :: nat where
  "RB_LEN = 10"

record rb =
  buff :: "int list"
  rb_head :: nat
  rb_tail :: nat

datatype parent_pc = P_Check | P_Write | P_Publish
datatype child_pc = C_Check | C_Read | C_Release

text \<open>The shared ring, then the locals of the child and of the parent.\<close>

record spsc = rb +
  child_counter :: nat
  local_tail :: nat
  entry_sum :: u64
  c_pc :: child_pc
  parent_counter :: nat
  local_head :: nat
  p_pc :: parent_pc

text \<open>\<open>mmap\<close> returns zeroed memory; both processes start at the head of their loop.\<close>

definition spsc_init :: spsc where
  "spsc_init =
     \<lparr>buff = replicate RB_LEN 0, rb_head = 0, rb_tail = 0,
      child_counter = 0, local_tail = 0, entry_sum = 0, c_pc = C_Check,
      parent_counter = 0, local_head = 0, p_pc = P_Check\<rparr>"

definition max_count :: nat where
  "max_count = 10000000"

text \<open>\<open>n\<close> is the bound of both loops, \<open>max_count\<close> in the source.\<close>

inductive spsc_step :: "nat \<Rightarrow> spsc \<Rightarrow> spsc \<Rightarrow> bool" for n where
  parent_room:
    "p_pc s = P_Check \<Longrightarrow> parent_counter s < n \<Longrightarrow>
     (local_head s + 1) mod RB_LEN \<noteq> rb_tail s \<Longrightarrow>
     spsc_step n s (s\<lparr>p_pc := P_Write\<rparr>)"
| parent_spin:
    "p_pc s = P_Check \<Longrightarrow> parent_counter s < n \<Longrightarrow>
     (local_head s + 1) mod RB_LEN = rb_tail s \<Longrightarrow>
     spsc_step n s s"
| parent_write:
    "p_pc s = P_Write \<Longrightarrow>
     spsc_step n s (s\<lparr>buff := (buff s)[local_head s := int (parent_counter s)],
                        parent_counter := parent_counter s + 1,
                        local_head := (local_head s + 1) mod RB_LEN,
                        p_pc := P_Publish\<rparr>)"
| parent_publish:
    "p_pc s = P_Publish \<Longrightarrow>
     spsc_step n s (s\<lparr>rb_head := local_head s, p_pc := P_Check\<rparr>)"
| child_ready:
    "c_pc s = C_Check \<Longrightarrow> child_counter s < n \<Longrightarrow> local_tail s \<noteq> rb_head s \<Longrightarrow>
     spsc_step n s (s\<lparr>c_pc := C_Read\<rparr>)"
| child_spin:
    "c_pc s = C_Check \<Longrightarrow> child_counter s < n \<Longrightarrow> local_tail s = rb_head s \<Longrightarrow>
     spsc_step n s s"
| child_read:
    "c_pc s = C_Read \<Longrightarrow>
     spsc_step n s (s\<lparr>entry_sum := entry_sum s + of_int (buff s ! local_tail s),
                        child_counter := child_counter s + 1,
                        local_tail := (local_tail s + 1) mod RB_LEN,
                        c_pc := C_Release\<rparr>)"
| child_release:
    "c_pc s = C_Release \<Longrightarrow>
     spsc_step n s (s\<lparr>rb_tail := local_tail s, c_pc := C_Check\<rparr>)"

inductive spsc_reach :: "nat \<Rightarrow> spsc \<Rightarrow> bool" for n where
  start: "spsc_reach n spsc_init"
| step: "spsc_reach n s \<Longrightarrow> spsc_step n s t \<Longrightarrow> spsc_reach n t"

text \<open>Both loops have ended.\<close>

definition spsc_done :: "nat \<Rightarrow> spsc \<Rightarrow> bool" where
  "spsc_done n s \<longleftrightarrow>
     p_pc s = P_Check \<and> n \<le> parent_counter s \<and> c_pc s = C_Check \<and> n \<le> child_counter s"

text \<open>The value the child prints beside its sum, in \<open>uint64_t\<close> arithmetic.\<close>

definition expected_sum :: "nat \<Rightarrow> u64" where
  "expected_sum n = ((of_nat n - 1) * ((of_nat n - 1) + 1)) div 2"

section \<open>The invariant\<close>

text \<open>
  How many entries the parent has published and the child has given back: one less
  than its counter between the buffer access and the store that follows it.
\<close>

definition published :: "spsc \<Rightarrow> nat" where
  "published s = (if p_pc s = P_Publish then parent_counter s - 1 else parent_counter s)"

definition released :: "spsc \<Rightarrow> nat" where
  "released s = (if c_pc s = C_Release then child_counter s - 1 else child_counter s)"

definition spsc_inv :: "nat \<Rightarrow> spsc \<Rightarrow> bool" where
  "spsc_inv n s \<longleftrightarrow>
     length (buff s) = RB_LEN
   \<and> local_head s = parent_counter s mod RB_LEN \<and> local_tail s = child_counter s mod RB_LEN
   \<and> rb_head s = published s mod RB_LEN \<and> rb_tail s = released s mod RB_LEN
   \<and> (p_pc s = P_Publish \<longrightarrow> 0 < parent_counter s)
   \<and> (c_pc s = C_Release \<longrightarrow> 0 < child_counter s)
   \<and> child_counter s \<le> published s \<and> (c_pc s = C_Read \<longrightarrow> child_counter s < published s)
   \<and> parent_counter s \<le> released s + 9 \<and> (p_pc s = P_Write \<longrightarrow> parent_counter s < released s + 9)
   \<and> parent_counter s \<le> n \<and> (p_pc s = P_Write \<longrightarrow> parent_counter s < n)
   \<and> (\<forall>k. released s \<le> k \<and> k < parent_counter s \<longrightarrow> buff s ! (k mod RB_LEN) = int k)
   \<and> entry_sum s = (\<Sum>k<child_counter s. of_nat k)"

lemma spsc_inv_init: "spsc_inv n spsc_init"
  by (simp add: spsc_inv_def spsc_init_def published_def released_def RB_LEN_def)

text \<open>Within nine of each other, equal residues modulo ten mean equal numbers.\<close>

lemma mod_RB_eq: "a \<le> b \<Longrightarrow> b \<le> a + 9 \<Longrightarrow> a mod RB_LEN = b mod RB_LEN \<Longrightarrow> a = b"
  by (rule mod_eq_window [of a b RB_LEN]) (simp_all add: RB_LEN_def)

lemma mod_RB_full: "p \<le> f + 9 \<Longrightarrow> Suc p mod RB_LEN \<noteq> f mod RB_LEN \<Longrightarrow> p < f + 9"
  by (rule ccontr) (auto simp: RB_LEN_def not_less dest!: le_antisym)

lemma mod_RB_free:
  assumes "f \<le> p" "p < f + 9"
  shows "Suc p mod RB_LEN \<noteq> f mod RB_LEN"
  using mod_eq_window [of f "Suc p" RB_LEN] assms by (auto simp: RB_LEN_def)

lemma mod_RB_less [simp]: "a mod RB_LEN < RB_LEN"
  by (simp add: RB_LEN_def)

lemmas spsc_unfold = spsc_inv_def published_def released_def

lemma inv_parent_room:
  assumes "spsc_inv n s" "p_pc s = P_Check" "parent_counter s < n"
    and "(local_head s + 1) mod RB_LEN \<noteq> rb_tail s"
  shows "spsc_inv n (s\<lparr>p_pc := P_Write\<rparr>)"
proof -
  have "Suc (parent_counter s) mod RB_LEN \<noteq> released s mod RB_LEN"
    using assms by (simp add: spsc_inv_def mod_Suc_eq)
  then have "parent_counter s < released s + 9"
    using assms(1) by (intro mod_RB_full) (simp_all add: spsc_inv_def)
  with assms show ?thesis by (auto simp: spsc_unfold split: if_splits)
qed

lemma inv_parent_write:
  assumes "spsc_inv n s" "p_pc s = P_Write"
  shows "spsc_inv n (s\<lparr>buff := (buff s)[local_head s := int (parent_counter s)],
           parent_counter := parent_counter s + 1,
           local_head := (local_head s + 1) mod RB_LEN, p_pc := P_Publish\<rparr>)"
proof -
  have "(buff s)[parent_counter s mod RB_LEN := int (parent_counter s)] ! (k mod RB_LEN) = int k"
    if k: "released s \<le> k" "k < Suc (parent_counter s)" for k
  proof (cases "k = parent_counter s")
    case True
    with assms show ?thesis by (simp add: spsc_inv_def)
  next
    case False
    moreover have "k \<le> parent_counter s" "parent_counter s \<le> k + 9"
      using k assms by (auto simp: spsc_inv_def)
    ultimately have "k mod RB_LEN \<noteq> parent_counter s mod RB_LEN"
      using mod_RB_eq by blast
    with False k assms show ?thesis by (simp add: spsc_inv_def)
  qed
  with assms show ?thesis by (auto simp: spsc_unfold mod_Suc_eq split: if_splits)
qed

lemma inv_child_ready:
  assumes "spsc_inv n s" "c_pc s = C_Check" "local_tail s \<noteq> rb_head s"
  shows "spsc_inv n (s\<lparr>c_pc := C_Read\<rparr>)"
proof -
  have "child_counter s \<noteq> published s" using assms by (auto simp: spsc_inv_def)
  with assms show ?thesis by (auto simp: spsc_unfold split: if_splits)
qed

lemma inv_child_read:
  assumes "spsc_inv n s" "c_pc s = C_Read"
  shows "spsc_inv n (s\<lparr>entry_sum := entry_sum s + of_int (buff s ! local_tail s),
           child_counter := child_counter s + 1,
           local_tail := (local_tail s + 1) mod RB_LEN, c_pc := C_Release\<rparr>)"
proof -
  have "child_counter s < parent_counter s"
    using assms by (auto simp: spsc_unfold split: if_splits)
  with assms have "buff s ! (child_counter s mod RB_LEN) = int (child_counter s)"
    by (simp add: spsc_inv_def released_def)
  with assms show ?thesis by (auto simp: spsc_unfold mod_Suc_eq split: if_splits)
qed

lemma inv_stores:
  "spsc_inv n s \<Longrightarrow> p_pc s = P_Publish \<Longrightarrow> spsc_inv n (s\<lparr>rb_head := local_head s, p_pc := P_Check\<rparr>)"
  "spsc_inv n s \<Longrightarrow> c_pc s = C_Release \<Longrightarrow> spsc_inv n (s\<lparr>rb_tail := local_tail s, c_pc := C_Check\<rparr>)"
  by (auto simp: spsc_unfold split: if_splits)

lemma spsc_inv_step: "spsc_step n s t \<Longrightarrow> spsc_inv n s \<Longrightarrow> spsc_inv n t"
  by (induction rule: spsc_step.induct)
    (blast intro: inv_parent_room inv_parent_write inv_child_ready inv_child_read inv_stores)+

lemma spsc_reach_inv: "spsc_reach n s \<Longrightarrow> spsc_inv n s"
  by (induction rule: spsc_reach.induct) (auto intro: spsc_inv_init spsc_inv_step)

section \<open>Progress\<close>

text \<open>Steps each process still has to make; every step but a spin makes one of them.\<close>

definition parent_left :: "nat \<Rightarrow> spsc \<Rightarrow> nat" where
  "parent_left n s = (case p_pc s of
     P_Check \<Rightarrow> 3 * (n - parent_counter s)
   | P_Write \<Rightarrow> 3 * (n - parent_counter s) - 1
   | P_Publish \<Rightarrow> 3 * (n - parent_counter s) + 1)"

definition child_left :: "nat \<Rightarrow> spsc \<Rightarrow> nat" where
  "child_left n s = (case c_pc s of
     C_Check \<Rightarrow> 3 * (n - child_counter s)
   | C_Read \<Rightarrow> 3 * (n - child_counter s) - 1
   | C_Release \<Rightarrow> 3 * (n - child_counter s) + 1)"

lemmas left_unfold = parent_left_def child_left_def

text \<open>In a state with both processes at their test, one of the tests succeeds.\<close>

lemma spsc_not_stuck:
  assumes inv: "spsc_inv n s" and pc: "p_pc s = P_Check" "c_pc s = C_Check"
    and "parent_counter s < n \<or> child_counter s < n"
  shows "parent_counter s < n \<and> (local_head s + 1) mod RB_LEN \<noteq> rb_tail s
       \<or> child_counter s < n \<and> local_tail s \<noteq> rb_head s"
proof (cases "parent_counter s < n \<and> parent_counter s < child_counter s + 9")
  case True
  with inv pc mod_RB_free [of "child_counter s" "parent_counter s"] show ?thesis
    by (auto simp: spsc_unfold mod_Suc_eq)
next
  case False
  with inv pc assms(4) have "child_counter s < parent_counter s" "child_counter s < n"
    "parent_counter s \<le> child_counter s + 9"
    by (auto simp: spsc_unfold)
  with inv pc mod_RB_eq [of "child_counter s" "parent_counter s"] show ?thesis
    by (auto simp: spsc_unfold)
qed

lemma spsc_progress:
  assumes inv: "spsc_inv n s" and nd: "\<not> spsc_done n s"
  shows "\<exists>t. spsc_step n s t \<and> parent_left n t + child_left n t < parent_left n s + child_left n s"
proof (cases "p_pc s = P_Check \<and> c_pc s = C_Check")
  case True
  with nd have "parent_counter s < n \<or> child_counter s < n" by (auto simp: spsc_done_def)
  with inv True consider
      "parent_counter s < n" "(local_head s + 1) mod RB_LEN \<noteq> rb_tail s"
    | "child_counter s < n" "local_tail s \<noteq> rb_head s"
    using spsc_not_stuck by blast
  then show ?thesis
  proof cases
    case 1
    with True show ?thesis
      by (intro exI [of _ "s\<lparr>p_pc := P_Write\<rparr>"]) (auto simp: left_unfold intro: parent_room split: child_pc.split)
  next
    case 2
    with True show ?thesis
      by (intro exI [of _ "s\<lparr>c_pc := C_Read\<rparr>"]) (auto simp: left_unfold intro: child_ready split: parent_pc.split)
  qed
next
  case False
  then consider "p_pc s = P_Write" | "p_pc s = P_Publish" | "c_pc s = C_Read" | "c_pc s = C_Release"
    by (cases "p_pc s"; cases "c_pc s") auto
  then show ?thesis
  proof cases
    case 1
    with inv have lt: "parent_counter s < n" by (simp add: spsc_inv_def)
    show ?thesis by (rule decreasing_stepI, rule parent_write [OF 1]) (use 1 lt in \<open>auto simp: left_unfold split: child_pc.split\<close>)
  next
    case 2
    show ?thesis by (rule decreasing_stepI, rule parent_publish [OF 2]) (use 2 in \<open>auto simp: left_unfold split: child_pc.split\<close>)
  next
    case 3
    with inv have lt: "child_counter s < n" by (auto simp: spsc_unfold split: if_splits)
    show ?thesis by (rule decreasing_stepI, rule child_read [OF 3]) (use 3 lt in \<open>auto simp: left_unfold split: parent_pc.split\<close>)
  next
    case 4
    show ?thesis by (rule decreasing_stepI, rule child_release [OF 4]) (use 4 in \<open>auto simp: left_unfold split: parent_pc.split\<close>)
  qed
qed

lemma spsc_reaches_done:
  "spsc_inv n s \<Longrightarrow> \<exists>t. (spsc_step n)\<^sup>*\<^sup>* s t \<and> spsc_inv n t \<and> spsc_done n t"
  using spsc_progress spsc_inv_step
  by (rule reach_goal [where f = "\<lambda>s. parent_left n s + child_left n s"])

lemma of_nat_div2: "a < 2 ^ 64 \<Longrightarrow> (of_nat a :: u64) div 2 = of_nat (a div 2)"
  by (rule word_unat_eq_iff [THEN iffD2]) (simp add: unat_div unat_of_nat)

text \<open>The sum of the numbers below \<open>n\<close> does not overflow \<open>uint64_t\<close> here.\<close>

lemma expected_sum_eq:
  assumes "n \<le> max_count"
  shows "(\<Sum>k<n. of_nat k :: u64) = expected_sum n"
proof (cases n)
  case 0
  then show ?thesis by (simp add: expected_sum_def)
next
  case (Suc m)
  have m: "m * n < 2 ^ 64"
    using assms mult_le_mono [of m "10 ^ 7" n "10 ^ 7"] Suc by (simp add: max_count_def)
  have "(\<Sum>k<n. of_nat k :: u64) = of_nat (m * n div 2)"
    using Suc gauss_sum_nat [of m] by (simp add: lessThan_Suc_atMost atMost_atLeast0 of_nat_sum [symmetric] mult.commute)
  also have "\<dots> = of_nat (m * n) div 2"
    using of_nat_div2 [OF m] by simp
  finally show ?thesis using Suc by (simp add: expected_sum_def distrib_left add.commute)
qed

text \<open>
  C5. The child reads the parent's numbers in order: whenever it is about to read, its
  index is inside the ring and the entry there is the number the parent wrote in the
  same round, \<open>child_counter\<close>. The parent never overwrites an entry that is not yet
  read: the slot it is about to write holds no published number.
\<close>

theorem spsc_reads_in_order:
  assumes "spsc_reach n s"
  shows "(c_pc s = C_Read \<longrightarrow>
            local_tail s < length (buff s) \<and> buff s ! local_tail s = int (child_counter s))
       \<and> (p_pc s = P_Write \<longrightarrow> local_head s < length (buff s)
            \<and> (\<forall>k. child_counter s \<le> k \<and> k < parent_counter s \<longrightarrow> k mod RB_LEN \<noteq> local_head s))"
proof -
  from assms have inv: "spsc_inv n s" by (rule spsc_reach_inv)
  have "k mod RB_LEN \<noteq> parent_counter s mod RB_LEN"
    if "child_counter s \<le> k" "k < parent_counter s" for k
  proof -
    have "parent_counter s \<le> k + 9" using inv that by (auto simp: spsc_unfold split: if_splits)
    with that mod_RB_eq [of k "parent_counter s"] show ?thesis by auto
  qed
  with inv show ?thesis by (auto simp: spsc_unfold split: if_splits)
qed

text \<open>The first number is published and the child has seen it.\<close>

definition spsc_one_published :: spsc where
  "spsc_one_published =
     spsc_init\<lparr>parent_counter := 1, local_head := 1, rb_head := 1, c_pc := C_Read\<rparr>"

lemma spsc_one_published_reach: "spsc_reach 1 spsc_one_published"
proof -
  let ?s1 = "spsc_init\<lparr>p_pc := P_Write\<rparr>"
  let ?s2 = "spsc_init\<lparr>parent_counter := 1, local_head := 1, p_pc := P_Publish\<rparr>"
  let ?s3 = "spsc_init\<lparr>parent_counter := 1, local_head := 1, rb_head := 1\<rparr>"
  have same: "(replicate 10 (0::int))[0 := 0] = replicate 10 0"
    by (simp add: list_update_same_conv)
  have "spsc_step 1 spsc_init ?s1"
    by (rule parent_room) (simp_all add: spsc_init_def RB_LEN_def)
  moreover have "spsc_step 1 ?s1 ?s2"
    using parent_write [of ?s1 1] same by (simp add: spsc_init_def RB_LEN_def)
  moreover have "spsc_step 1 ?s2 ?s3"
    using parent_publish [of ?s2 1] by (simp add: spsc_init_def)
  moreover have "spsc_step 1 ?s3 spsc_one_published"
    using child_ready [of ?s3 1] by (simp add: spsc_one_published_def spsc_init_def)
  ultimately show ?thesis by (meson spsc_reach.intros)
qed

theorem spsc_reads_in_order_witness:
  "spsc_reach 1 spsc_one_published \<and> c_pc spsc_one_published = C_Read
   \<and> buff spsc_one_published ! local_tail spsc_one_published = 0"
  using spsc_reads_in_order [OF spsc_one_published_reach] spsc_one_published_reach
  by (simp add: spsc_one_published_def spsc_init_def)

text \<open>
  C21. From every state the two processes can get into, however they were interleaved,
  they can run to the end of both loops, and at the end the child's sum is the value
  it prints as expected, \<open>(max_count - 1) * max_count / 2\<close> in \<open>uint64_t\<close>:
  nobody is stuck spinning for good, and no number is lost, doubled or torn.
\<close>

theorem spsc_finishes_with_sum:
  assumes "n \<le> max_count" "spsc_reach n s"
  shows "\<exists>t. (spsc_step n)\<^sup>*\<^sup>* s t \<and> spsc_done n t \<and> child_counter t = n
           \<and> entry_sum t = expected_sum n"
proof -
  from spsc_reach_inv [OF assms(2)] spsc_reaches_done obtain t where
    t: "(spsc_step n)\<^sup>*\<^sup>* s t" "spsc_inv n t" "spsc_done n t" by blast
  then have "child_counter t = n" by (auto simp: spsc_inv_def spsc_done_def published_def)
  with t expected_sum_eq [OF assms(1)] show ?thesis by (auto simp: spsc_inv_def)
qed

theorem spsc_finishes_with_sum_witness:
  "\<exists>t. (spsc_step max_count)\<^sup>*\<^sup>* spsc_init t \<and> spsc_done max_count t
     \<and> child_counter t = max_count \<and> entry_sum t = 49999995000000"
proof -
  have "expected_sum max_count = 49999995000000"
    by (simp add: expected_sum_def max_count_def)
  with spsc_finishes_with_sum [of max_count spsc_init] spsc_reach.start show ?thesis by simp
qed

end
