(* ===== verification/Packet_Processor.thy ===== *)
theory Packet_Processor
  imports Circular "HOL-Library.Multiset"
begin

text \<open>
  \<open>zerocopy_packet_processor_042926/packet_proc.c\<close>: a producer process takes
  free buffer indices from \<open>free_ring\<close>, copies the next packet of the mapped
  traffic file into that buffer and passes the index on through \<open>ready_ring\<close>;
  the consumer process adds up the payload bytes in place and gives the index
  back. Both rings are arrays of 128 indices with free-running 32-bit counters.

  A step of \<open>pp_step\<close> is one access of a process to the shared memory, and the
  relation interleaves the processes freely. The file is a byte list; the clock is
  an arbitrary value. \<open>packet_count\<close> (\<open>uint32_t\<close>) and the read offset
  (a pointer difference) never exceed the size of the file and are \<open>nat\<close>.
\<close>

section \<open>Data\<close>

definition PAYLOAD_HEADER_SIZE :: nat where
  "PAYLOAD_HEADER_SIZE = 16"

definition MAX_PAYLOAD_DATA_SIZE :: nat where
  "MAX_PAYLOAD_DATA_SIZE = 48"

definition BUFFER_SIZE :: u32 where
  "BUFFER_SIZE = 128"

definition HIGH_PRIORITY :: u32 where
  "HIGH_PRIORITY = 0"

definition EXPECTED_PACKET_COUNT :: nat where
  "EXPECTED_PACKET_COUNT = 1000000"

definition DUMMY_DATA :: u64 where
  "DUMMY_DATA = 0xDEADBEEFBABA"

text \<open>\<open>MAX_PAYLOAD_DATA_SIZE / 8\<close>, the declared length of both payload arrays.\<close>

abbreviation payload_num_bytes :: nat where
  "payload_num_bytes \<equiv> MAX_PAYLOAD_DATA_SIZE div 8"

record packet =
  timestamp :: u64
  packet_length :: u32
  priority :: u32
  payload :: "u8 list"

record ringbuf =
  head :: u32
  tail :: u32
  mask :: u32
  buffer :: "u32 list"

definition ring_is_full :: "ringbuf \<Rightarrow> bool" where
  "ring_is_full rb = (head rb = (tail rb XOR BUFFER_SIZE))"

definition ring_is_empty :: "ringbuf \<Rightarrow> bool" where
  "ring_is_empty rb = (head rb = tail rb)"

section \<open>Checksums\<close>

text \<open>The loop of \<open>process_packet\<close> from index \<open>i\<close> with \<open>k\<close> rounds left.\<close>

fun process_loop :: "u8 list \<Rightarrow> nat \<Rightarrow> nat \<Rightarrow> u64 \<Rightarrow> u64 cres" where
  "process_loop bs i 0 checksum = Inr checksum"
| "process_loop bs i (Suc k) checksum =
     (case arr_get bs i of Inl e \<Rightarrow> Inl e
      | Inr b \<Rightarrow> process_loop bs (Suc i) k (checksum + ucast b))"

definition process_packet :: "packet \<Rightarrow> u64 \<Rightarrow> u64 cres" where
  "process_packet pkt checksum = process_loop (payload pkt) 0 payload_num_bytes checksum"

fun dummy_loop :: "nat \<Rightarrow> u64 \<Rightarrow> u64 \<Rightarrow> u64" where
  "dummy_loop 0 dummy_val acc = acc"
| "dummy_loop (Suc k) dummy_val acc =
     dummy_loop k (drop_bit 8 dummy_val) (acc + (dummy_val AND 0xFF))"

definition calc_expected_checksum :: u64 where
  "calc_expected_checksum =
     dummy_loop payload_num_bytes DUMMY_DATA 0 * of_nat EXPECTED_PACKET_COUNT"

section \<open>The traffic file\<close>

text \<open>
  A record of the file is \<open>packet_payload_t\<close>, packed: four bytes of length
  (little endian), then six bytes of data.
\<close>

definition payload_rec_size :: nat where
  "payload_rec_size = 4 + payload_num_bytes"

definition le32 :: "u8 list \<Rightarrow> u32" where
  "le32 bs = ucast (bs ! 0) OR push_bit 8 (ucast (bs ! 1))
           OR push_bit 16 (ucast (bs ! 2)) OR push_bit 24 (ucast (bs ! 3))"

text \<open>
  \<open>off\<close> is the offset of the record. The \<open>memcpy\<close> reads \<open>payload_len\<close>
  bytes of the file and writes as many of the packet's payload array.
\<close>

definition read_next_packet_from_file :: "u8 list \<Rightarrow> nat \<Rightarrow> packet \<Rightarrow> (u32 \<times> packet) cres" where
  "read_next_packet_from_file traffic off pkt =
     (if length traffic < off + 4 then Inl Out_Of_Bounds
      else let payload_len = le32 (take 4 (drop off traffic)); n = unat payload_len in
        if length traffic < off + 4 + n \<or> length (payload pkt) < n then Inl Out_Of_Bounds
        else Inr (payload_len,
          pkt\<lparr>payload := take n (drop (off + 4) traffic) @ drop n (payload pkt)\<rparr>))"

text \<open>
  The inner loop of \<open>create_packet_file\<close> that fills one record, from \<open>j\<close> on:
  the loop runs while \<open>j \<le> len\<close>, and a shift by a negative amount is undefined.
\<close>

function fill_data :: "u32 \<Rightarrow> nat \<Rightarrow> u8 list \<Rightarrow> u8 list cres" where
  "fill_data len j data =
     (if j \<le> unat len then
        if 5 < j then Inl Shift_Width
        else (case arr_set data j (ucast (drop_bit ((5 - j) * 8) DUMMY_DATA AND 0xFF)) of
                Inl e \<Rightarrow> Inl e
              | Inr data' \<Rightarrow> fill_data len (j + 1) data')
      else Inr data)"
  by pat_completeness auto
termination
  by (relation "measure (\<lambda>(len, j, data). Suc (unat len) - j)") auto

definition fill_record :: "u8 list \<Rightarrow> u8 list cres" where
  "fill_record data = fill_data (of_nat payload_num_bytes) 0 data"

section \<open>The two processes\<close>

datatype producer_pc =
  PR_CheckFree | PR_CheckReady | PR_ReadIdx | PR_BumpFree | PR_Fill | PR_PutIdx | PR_Publish

datatype consumer_pc =
  CO_CheckReady | CO_CheckFree | CO_ReadIdx | CO_BumpReady | CO_Process | CO_PutIdx | CO_Publish

record pp_state =
  packet_buf :: "packet list"
  ready_ring :: ringbuf
  free_ring :: ringbuf
  curr_off :: nat
  p_idx :: u32
  p_pc :: producer_pc
  packet_count :: nat
  checksum :: u64
  c_idx :: u32
  c_pc :: consumer_pc

definition fresh_packet :: packet where
  "fresh_packet = \<lparr>timestamp = 0, packet_length = 0, priority = 0,
                   payload = replicate payload_num_bytes 0\<rparr>"

definition pp_init :: pp_state where
  "pp_init = \<lparr>
     packet_buf = replicate (unat BUFFER_SIZE) fresh_packet,
     ready_ring = \<lparr>head = 0, tail = 0, mask = BUFFER_SIZE - 1,
                   buffer = replicate (unat BUFFER_SIZE) 0\<rparr>,
     free_ring = \<lparr>head = BUFFER_SIZE, tail = 0, mask = BUFFER_SIZE - 1,
                  buffer = map of_nat [0..<unat BUFFER_SIZE]\<rparr>,
     curr_off = 0, p_idx = 0, p_pc = PR_CheckFree,
     packet_count = 0, checksum = 0, c_idx = 0, c_pc = CO_CheckReady\<rparr>"

text \<open>One round of the producer's loop; \<open>now\<close> is what the clock returns.\<close>

inductive producer_step :: "u8 list \<Rightarrow> pp_state \<Rightarrow> pp_state \<Rightarrow> bool" for traffic where
  pr_check_free:
    "p_pc s = PR_CheckFree \<Longrightarrow> curr_off s < length traffic \<Longrightarrow> \<not> ring_is_empty (free_ring s) \<Longrightarrow>
     producer_step traffic s (s\<lparr>p_pc := PR_CheckReady\<rparr>)"
| pr_wait_free:
    "p_pc s = PR_CheckFree \<Longrightarrow> curr_off s < length traffic \<Longrightarrow> ring_is_empty (free_ring s) \<Longrightarrow>
     producer_step traffic s s"
| pr_check_ready:
    "p_pc s = PR_CheckReady \<Longrightarrow> \<not> ring_is_full (ready_ring s) \<Longrightarrow>
     producer_step traffic s (s\<lparr>p_pc := PR_ReadIdx\<rparr>)"
| pr_wait_ready:
    "p_pc s = PR_CheckReady \<Longrightarrow> ring_is_full (ready_ring s) \<Longrightarrow>
     producer_step traffic s (s\<lparr>p_pc := PR_CheckFree\<rparr>)"
| pr_read_idx:
    "p_pc s = PR_ReadIdx \<Longrightarrow>
     producer_step traffic s
       (s\<lparr>p_idx := buffer (free_ring s) ! unat (tail (free_ring s) AND mask (free_ring s)),
          p_pc := PR_BumpFree\<rparr>)"
| pr_bump_free:
    "p_pc s = PR_BumpFree \<Longrightarrow>
     producer_step traffic s
       (s\<lparr>free_ring := (free_ring s)\<lparr>tail := tail (free_ring s) + 1\<rparr>, p_pc := PR_Fill\<rparr>)"
| pr_fill:
    "p_pc s = PR_Fill \<Longrightarrow>
     read_next_packet_from_file traffic (curr_off s) (packet_buf s ! unat (p_idx s)) = Inr (sz, pkt) \<Longrightarrow>
     producer_step traffic s
       (s\<lparr>packet_buf := (packet_buf s)[unat (p_idx s) :=
            pkt\<lparr>packet_length := sz, timestamp := now, priority := HIGH_PRIORITY\<rparr>],
          curr_off := curr_off s + payload_rec_size, p_pc := PR_PutIdx\<rparr>)"
| pr_put_idx:
    "p_pc s = PR_PutIdx \<Longrightarrow>
     producer_step traffic s
       (s\<lparr>ready_ring := (ready_ring s)\<lparr>buffer := (buffer (ready_ring s))
            [unat (head (ready_ring s) AND mask (ready_ring s)) := p_idx s]\<rparr>,
          p_pc := PR_Publish\<rparr>)"
| pr_publish:
    "p_pc s = PR_Publish \<Longrightarrow>
     producer_step traffic s
       (s\<lparr>ready_ring := (ready_ring s)\<lparr>head := head (ready_ring s) + 1\<rparr>,
          p_pc := PR_CheckFree\<rparr>)"

text \<open>One round of the consumer's loop; \<open>n\<close> is \<open>EXPECTED_PACKET_COUNT\<close>.\<close>

inductive consumer_step :: "nat \<Rightarrow> pp_state \<Rightarrow> pp_state \<Rightarrow> bool" for n where
  co_check_ready:
    "c_pc s = CO_CheckReady \<Longrightarrow> packet_count s < n \<Longrightarrow> \<not> ring_is_empty (ready_ring s) \<Longrightarrow>
     consumer_step n s (s\<lparr>c_pc := CO_CheckFree\<rparr>)"
| co_wait_ready:
    "c_pc s = CO_CheckReady \<Longrightarrow> packet_count s < n \<Longrightarrow> ring_is_empty (ready_ring s) \<Longrightarrow>
     consumer_step n s s"
| co_check_free:
    "c_pc s = CO_CheckFree \<Longrightarrow> \<not> ring_is_full (free_ring s) \<Longrightarrow>
     consumer_step n s (s\<lparr>c_pc := CO_ReadIdx\<rparr>)"
| co_wait_free:
    "c_pc s = CO_CheckFree \<Longrightarrow> ring_is_full (free_ring s) \<Longrightarrow>
     consumer_step n s (s\<lparr>c_pc := CO_CheckReady\<rparr>)"
| co_read_idx:
    "c_pc s = CO_ReadIdx \<Longrightarrow>
     consumer_step n s
       (s\<lparr>c_idx := buffer (ready_ring s) ! unat (tail (ready_ring s) AND mask (ready_ring s)),
          c_pc := CO_BumpReady\<rparr>)"
| co_bump_ready:
    "c_pc s = CO_BumpReady \<Longrightarrow>
     consumer_step n s
       (s\<lparr>ready_ring := (ready_ring s)\<lparr>tail := tail (ready_ring s) + 1\<rparr>, c_pc := CO_Process\<rparr>)"
| co_process:
    "c_pc s = CO_Process \<Longrightarrow>
     process_packet (packet_buf s ! unat (c_idx s)) (checksum s) = Inr acc \<Longrightarrow>
     consumer_step n s
       (s\<lparr>checksum := acc, packet_count := packet_count s + 1, c_pc := CO_PutIdx\<rparr>)"
| co_put_idx:
    "c_pc s = CO_PutIdx \<Longrightarrow>
     consumer_step n s
       (s\<lparr>free_ring := (free_ring s)\<lparr>buffer := (buffer (free_ring s))
            [unat (head (free_ring s) AND mask (free_ring s)) := c_idx s]\<rparr>,
          c_pc := CO_Publish\<rparr>)"
| co_publish:
    "c_pc s = CO_Publish \<Longrightarrow>
     consumer_step n s
       (s\<lparr>free_ring := (free_ring s)\<lparr>head := head (free_ring s) + 1\<rparr>,
          c_pc := CO_CheckReady\<rparr>)"

definition pp_step :: "u8 list \<Rightarrow> nat \<Rightarrow> pp_state \<Rightarrow> pp_state \<Rightarrow> bool" where
  "pp_step traffic n s t \<longleftrightarrow> producer_step traffic s t \<or> consumer_step n s t"

inductive pp_reach :: "u8 list \<Rightarrow> nat \<Rightarrow> pp_state \<Rightarrow> bool" for traffic n where
  start: "pp_reach traffic n pp_init"
| step: "pp_reach traffic n s \<Longrightarrow> pp_step traffic n s t \<Longrightarrow> pp_reach traffic n t"

definition pp_done :: "u8 list \<Rightarrow> nat \<Rightarrow> pp_state \<Rightarrow> bool" where
  "pp_done traffic n s \<longleftrightarrow>
     p_pc s = PR_CheckFree \<and> length traffic \<le> curr_off s \<and> c_pc s = CO_CheckReady \<and> n \<le> packet_count s"

section \<open>One ring\<close>

definition rb_ok :: "ringbuf \<Rightarrow> bool" where
  "rb_ok rb \<longleftrightarrow> length (buffer rb) = 128 \<and> mask rb = 127 \<and> unat (head rb - tail rb) \<le> 128"

definition rb_list :: "ringbuf \<Rightarrow> u32 list" where
  "rb_list rb = slots (buffer rb) (unat (tail rb)) (unat (head rb - tail rb))"

lemma and_127: "unat ((x::u32) AND 127) = unat x mod 128"
  using unat_and_mask [of x 7] by (simp add: mask_eq_exp_minus_1)

lemma rb_empty_iff: "ring_is_empty rb \<longleftrightarrow> rb_list rb = []"
  by (auto simp: ring_is_empty_def rb_list_def)

text \<open>The mirror test flips bit 7 of \<open>tail\<close>, which adds 128 only if that bit is clear.\<close>

lemma xor_128: "(t::u32) XOR 128 = (if bit t 7 then t - 128 else t + 128)"
proof -
  have "t XOR 128 = flip_bit 7 t" by (simp add: flip_bit_eq_xor)
  then show ?thesis by (simp add: flip_bit_eq_if set_bit_eq unset_bit_eq)
qed

lemma rb_full_iff:
  assumes "rb_ok rb"
  shows "ring_is_full rb \<longleftrightarrow> length (rb_list rb) = 128 \<and> \<not> bit (tail rb) 7"
proof -
  have "(head rb = tail rb - 128) = (head rb - tail rb = - 128)"
    "(head rb = tail rb + 128) = (head rb - tail rb = 128)"
    by (auto simp: algebra_simps)
  moreover have "head rb - tail rb \<noteq> - 128" using assms by (auto simp: rb_ok_def)
  moreover have "(head rb - tail rb = 128) = (unat (head rb - tail rb) = 128)"
    by (simp add: word_unat_eq_iff)
  ultimately show ?thesis
    by (simp add: ring_is_full_def BUFFER_SIZE_def xor_128 rb_list_def)
qed

lemma rb_first:
  assumes "rb_ok rb" "rb_list rb \<noteq> []"
  shows "buffer rb ! unat (tail rb AND mask rb) = hd (rb_list rb)"
proof -
  have "head rb \<noteq> tail rb" using assms(2) by (auto simp: rb_list_def)
  with free_running_pop [of "buffer rb" 128 "head rb" "tail rb"] assms(1)
  show ?thesis by (simp add: rb_ok_def rb_list_def and_127)
qed

lemma rb_bump:
  assumes "rb_ok rb" "rb_list rb \<noteq> []"
  shows "rb_ok (rb\<lparr>tail := tail rb + 1\<rparr>) \<and> rb_list (rb\<lparr>tail := tail rb + 1\<rparr>) = tl (rb_list rb)"
proof -
  have ne: "head rb \<noteq> tail rb" using assms(2) by (auto simp: rb_list_def)
  from assms(1) have "unat (head rb - (tail rb + 1)) \<le> 128"
    unfolding unat_dist_pop [OF ne] by (auto simp: rb_ok_def)
  with free_running_pop [of "buffer rb" 128 "head rb" "tail rb"] assms(1) ne
  show ?thesis by (simp add: rb_ok_def rb_list_def)
qed

lemma rb_put:
  fixes v :: u32
  assumes "rb_ok rb" "length (rb_list rb) < 128"
  defines "rb' \<equiv> rb\<lparr>buffer := (buffer rb)[unat (head rb AND mask rb) := v]\<rparr>"
  shows "rb_ok rb'" "rb_list rb' = rb_list rb" "buffer rb' ! unat (head rb' AND mask rb') = v"
proof -
  have hd: "unat (head rb) mod 128 = (unat (tail rb) + unat (head rb - tail rb)) mod 128"
    by (rule unat_free_running_mod) simp
  have "(unat (tail rb) + i) mod 128 \<noteq> unat (head rb) mod 128"
    if "i < unat (head rb - tail rb)" for i
    unfolding hd using that assms(2) by (intro mod_offset_neq) (simp_all add: rb_list_def)
  then show "rb_list rb' = rb_list rb"
    using assms(1) by (simp add: rb_ok_def rb_list_def rb'_def and_127 slots_update_other)
  show "rb_ok rb'" "buffer rb' ! unat (head rb' AND mask rb') = v"
    using assms(1) by (simp_all add: rb_ok_def rb'_def and_127)
qed

lemma rb_publish:
  assumes "rb_ok rb" "length (rb_list rb) < 128" "buffer rb ! unat (head rb AND mask rb) = v"
  shows "rb_ok (rb\<lparr>head := head rb + 1\<rparr>) \<and> rb_list (rb\<lparr>head := head rb + 1\<rparr>) = rb_list rb @ [v]"
proof -
  have len: "length (buffer rb) = 128" and lt: "unat (head rb - tail rb) < 128"
    using assms(1,2) by (simp_all add: rb_ok_def rb_list_def)
  have "unat (head rb + 1 - tail rb) = Suc (unat (head rb - tail rb))"
    using lt by (rule unat_dist_push) simp
  moreover have "(buffer rb)[unat (head rb) mod 128 := v] = buffer rb"
    using assms(1,3) len by (simp add: rb_ok_def and_127 list_update_same_conv)
  ultimately show ?thesis
    using free_running_push [of "buffer rb" 128 "head rb" "tail rb" v] assms(1) len lt
    by (simp add: rb_ok_def rb_list_def)
qed

section \<open>Every index is in one place\<close>

text \<open>
  An index is in the free ring, in the ready ring, or in the hands of one process:
  from the moment its ring's \<open>tail\<close> passes it until the other ring's
  \<open>head\<close> does.
\<close>

fun p_hold :: "producer_pc \<Rightarrow> u32 \<Rightarrow> u32 list" where
  "p_hold PR_Fill i = [i]"
| "p_hold PR_PutIdx i = [i]"
| "p_hold PR_Publish i = [i]"
| "p_hold _ i = []"

fun c_hold :: "consumer_pc \<Rightarrow> u32 \<Rightarrow> u32 list" where
  "c_hold CO_Process i = [i]"
| "c_hold CO_PutIdx i = [i]"
| "c_hold CO_Publish i = [i]"
| "c_hold _ i = []"

abbreviation p_held :: "pp_state \<Rightarrow> u32 list" where
  "p_held s \<equiv> p_hold (p_pc s) (p_idx s)"

abbreviation c_held :: "pp_state \<Rightarrow> u32 list" where
  "c_held s \<equiv> c_hold (c_pc s) (c_idx s)"

abbreviation free_list :: "pp_state \<Rightarrow> u32 list" where
  "free_list s \<equiv> rb_list (free_ring s)"

abbreviation ready_list :: "pp_state \<Rightarrow> u32 list" where
  "ready_list s \<equiv> rb_list (ready_ring s)"

definition all_idx :: "u32 list" where
  "all_idx = map of_nat [0..<128]"

definition own_inv :: "pp_state \<Rightarrow> bool" where
  "own_inv s \<longleftrightarrow> rb_ok (free_ring s) \<and> rb_ok (ready_ring s)
   \<and> mset (free_list s @ ready_list s @ p_held s @ c_held s) = mset all_idx"

definition producer_inv :: "pp_state \<Rightarrow> bool" where
  "producer_inv s \<longleftrightarrow>
     (p_pc s \<in> {PR_CheckReady, PR_ReadIdx, PR_BumpFree} \<longrightarrow> free_list s \<noteq> [])
   \<and> (p_pc s = PR_BumpFree \<longrightarrow> p_idx s = hd (free_list s))
   \<and> (p_pc s = PR_Publish \<longrightarrow>
        buffer (ready_ring s) ! unat (head (ready_ring s) AND mask (ready_ring s)) = p_idx s)"

definition consumer_inv :: "pp_state \<Rightarrow> bool" where
  "consumer_inv s \<longleftrightarrow>
     (c_pc s \<in> {CO_CheckFree, CO_ReadIdx, CO_BumpReady} \<longrightarrow> ready_list s \<noteq> [])
   \<and> (c_pc s = CO_BumpReady \<longrightarrow> c_idx s = hd (ready_list s))
   \<and> (c_pc s = CO_Publish \<longrightarrow>
        buffer (free_ring s) ! unat (head (free_ring s) AND mask (free_ring s)) = c_idx s)"

definition idx_inv :: "pp_state \<Rightarrow> bool" where
  "idx_inv s \<longleftrightarrow> own_inv s \<and> producer_inv s \<and> consumer_inv s"

lemmas idx_unfold = idx_inv_def own_inv_def producer_inv_def consumer_inv_def

lemma all_idx_facts: "length all_idx = 128" "distinct all_idx" "i \<in> set all_idx \<Longrightarrow> unat i < 128"
proof -
  have "inj_on (of_nat :: nat \<Rightarrow> u32) {0..<128}"
    by (rule inj_on_inverseI [where g = unat]) (simp add: unat_of_nat)
  then show "distinct all_idx" by (simp add: all_idx_def distinct_map)
qed (auto simp: all_idx_def unat_of_nat)

lemma own_length:
  assumes "own_inv s"
  shows "length (free_list s) + length (ready_list s) + length (p_held s) + length (c_held s) = 128"
  using assms arg_cong [of _ _ size] all_idx_facts(1) unfolding own_inv_def
  by (metis (no_types, lifting) ab_semigroup_add_class.add_ac(1) length_append size_mset)

lemma own_distinct: "own_inv s \<Longrightarrow> distinct (free_list s @ ready_list s @ p_held s @ c_held s)"
  using all_idx_facts(2) mset_eq_imp_distinct_iff unfolding own_inv_def by blast

lemma own_bound: "own_inv s \<Longrightarrow> i \<in> set (free_list s @ ready_list s @ p_held s @ c_held s) \<Longrightarrow> unat i < 128"
  using all_idx_facts(3) mset_eq_setD unfolding own_inv_def by blast

text \<open>
  The index invariant survives every step. Where a process holds an index the rings
  hold at most 127, so a put never meets an occupied slot.
\<close>

lemma held_room:
  assumes "idx_inv s"
  shows "p_held s \<noteq> [] \<or> c_held s \<noteq> [] \<Longrightarrow> length (free_list s) < 128 \<and> length (ready_list s) < 128"
    and "free_list s \<noteq> [] \<Longrightarrow> length (ready_list s) < 128"
    and "ready_list s \<noteq> [] \<Longrightarrow> length (free_list s) < 128"
  using own_length [of s] assms by (auto simp: idx_inv_def neq_Nil_conv)

lemma idx_inv_producer: "producer_step traffic s t \<Longrightarrow> idx_inv s \<Longrightarrow> idx_inv t"
proof (induction rule: producer_step.induct)
  case (pr_check_free s)
  then show ?case by (simp add: idx_unfold rb_empty_iff)
next
  case (pr_wait_free s)
  then show ?case by simp
next
  case (pr_check_ready s)
  then show ?case by (simp add: idx_unfold)
next
  case (pr_wait_ready s)
  then show ?case by (simp add: idx_unfold)
next
  case (pr_read_idx s)
  then have "rb_ok (free_ring s)" "free_list s \<noteq> []" by (simp_all add: idx_unfold)
  from rb_first [OF this] pr_read_idx show ?case by (simp add: idx_unfold)
next
  case (pr_bump_free s)
  then have ok: "rb_ok (free_ring s)" "free_list s \<noteq> []" by (simp_all add: idx_unfold)
  then obtain x xs where "free_list s = x # xs" by (auto simp: neq_Nil_conv)
  with rb_bump [OF ok] pr_bump_free show ?case by (simp add: idx_unfold)
next
  case (pr_fill s sz pkt now)
  then show ?case by (simp add: idx_unfold)
next
  case (pr_put_idx s)
  then have "rb_ok (ready_ring s)" "length (ready_list s) < 128"
    using held_room(1) [of s] by (simp_all add: idx_unfold)
  note put = rb_put [OF this, of "p_idx s"]
  from put pr_put_idx show ?case by (auto simp: idx_unfold)
next
  case (pr_publish s)
  then have "rb_ok (ready_ring s)" "length (ready_list s) < 128"
    "buffer (ready_ring s) ! unat (head (ready_ring s) AND mask (ready_ring s)) = p_idx s"
    using held_room(1) [of s] by (simp_all add: idx_unfold)
  from rb_publish [OF this] pr_publish show ?case by (auto simp: idx_unfold)
qed

lemma idx_inv_consumer: "consumer_step n s t \<Longrightarrow> idx_inv s \<Longrightarrow> idx_inv t"
proof (induction rule: consumer_step.induct)
  case (co_check_ready s)
  then show ?case by (simp add: idx_unfold rb_empty_iff)
next
  case (co_wait_ready s)
  then show ?case by simp
next
  case (co_check_free s)
  then show ?case by (simp add: idx_unfold)
next
  case (co_wait_free s)
  then show ?case by (simp add: idx_unfold)
next
  case (co_read_idx s)
  then have "rb_ok (ready_ring s)" "ready_list s \<noteq> []" by (simp_all add: idx_unfold)
  from rb_first [OF this] co_read_idx show ?case by (simp add: idx_unfold)
next
  case (co_bump_ready s)
  then have ok: "rb_ok (ready_ring s)" "ready_list s \<noteq> []" by (simp_all add: idx_unfold)
  then obtain x xs where "ready_list s = x # xs" by (auto simp: neq_Nil_conv)
  with rb_bump [OF ok] co_bump_ready show ?case by (simp add: idx_unfold)
next
  case (co_process s acc)
  then show ?case by (simp add: idx_unfold)
next
  case (co_put_idx s)
  then have "rb_ok (free_ring s)" "length (free_list s) < 128"
    using held_room(1) [of s] by (simp_all add: idx_unfold)
  note put = rb_put [OF this, of "c_idx s"]
  from put co_put_idx show ?case by (auto simp: idx_unfold)
next
  case (co_publish s)
  then have "rb_ok (free_ring s)" "length (free_list s) < 128"
    "buffer (free_ring s) ! unat (head (free_ring s) AND mask (free_ring s)) = c_idx s"
    using held_room(1) [of s] by (simp_all add: idx_unfold)
  from rb_publish [OF this] co_publish show ?case by (auto simp: idx_unfold)
qed

section \<open>What the consumer adds up\<close>

definition byte_sum :: "u8 list \<Rightarrow> u64" where
  "byte_sum bs = sum_list (map ucast bs)"

text \<open>The records of a traffic file of \<open>n\<close> packets, each of full length.\<close>

definition well_formed :: "u8 list \<Rightarrow> nat \<Rightarrow> bool" where
  "well_formed traffic n \<longleftrightarrow> length traffic = 10 * n
   \<and> (\<forall>i<n. le32 (take 4 (drop (10 * i) traffic)) = 6)"

definition pkts :: "u8 list \<Rightarrow> nat \<Rightarrow> u8 list list" where
  "pkts traffic n = map (\<lambda>i. take 6 (drop (10 * i + 4) traffic)) [0..<n]"

lemma payload_bytes_6 [simp]: "payload_num_bytes = 6"
  by (simp add: MAX_PAYLOAD_DATA_SIZE_def)

lemma payload_rec_size_10 [simp]: "payload_rec_size = 10"
  by (simp add: payload_rec_size_def)

lemma process_loop_eq:
  "i + k \<le> length bs \<Longrightarrow> process_loop bs i k c = Inr (c + byte_sum (take k (drop i bs)))"
proof (induction k arbitrary: i c)
  case 0
  then show ?case by (simp add: byte_sum_def)
next
  case (Suc k)
  then have "take (Suc k) (drop i bs) = bs ! i # take k (drop (Suc i) bs)"
    by (simp add: Cons_nth_drop_Suc [symmetric])
  with Suc show ?case by (simp add: byte_sum_def add.assoc)
qed

lemma process_packet_eq:
  "length (payload pkt) = 6 \<Longrightarrow> process_packet pkt c = Inr (c + byte_sum (payload pkt))"
  by (simp add: process_packet_def process_loop_eq)

lemma read_record:
  assumes "well_formed traffic n" "i < n" "length (payload pkt) = 6"
  shows "read_next_packet_from_file traffic (10 * i) pkt = Inr (6, pkt\<lparr>payload := pkts traffic n ! i\<rparr>)"
  using assms by (simp add: read_next_packet_from_file_def well_formed_def pkts_def)

fun c_in_hand :: "consumer_pc \<Rightarrow> u32 \<Rightarrow> u32 list" where
  "c_in_hand CO_Process i = [i]"
| "c_in_hand _ i = []"

fun p_filled :: "producer_pc \<Rightarrow> u32 \<Rightarrow> u32 list" where
  "p_filled PR_PutIdx i = [i]"
| "p_filled PR_Publish i = [i]"
| "p_filled _ i = []"

definition payload_at :: "packet list \<Rightarrow> u32 \<Rightarrow> u8 list" where
  "payload_at buf i = payload (buf ! unat i)"

text \<open>
  The packets between the two counters are, in file order, the payloads of the buffer
  in the consumer's hands, of those in the ready ring, and of the one the producer has
  filled but not passed on.
\<close>

definition data_inv :: "u8 list \<Rightarrow> nat \<Rightarrow> pp_state \<Rightarrow> bool" where
  "data_inv traffic n s \<longleftrightarrow>
     length (packet_buf s) = 128 \<and> (\<forall>p\<in>set (packet_buf s). length (payload p) = 6)
   \<and> (\<exists>k\<le>n. curr_off s = 10 * k \<and> packet_count s \<le> k
       \<and> (p_pc s \<in> {PR_CheckReady, PR_ReadIdx, PR_BumpFree, PR_Fill} \<longrightarrow> k < n)
       \<and> map (payload_at (packet_buf s))
            (c_in_hand (c_pc s) (c_idx s) @ ready_list s @ p_filled (p_pc s) (p_idx s))
         = drop (packet_count s) (take k (pkts traffic n)))
   \<and> checksum s = sum_list (map byte_sum (take (packet_count s) (pkts traffic n)))"

lemma length_pkts [simp]: "length (pkts traffic n) = n"
  by (simp add: pkts_def)

lemma payload_at_other:
  "unat i < length buf \<Longrightarrow> j \<noteq> i \<Longrightarrow> payload_at (buf[unat i := p]) j = payload_at buf j"
  by (simp add: payload_at_def nth_list_update_neq word_unat_eq_iff)

lemma data_inv_fill:
  assumes idx: "idx_inv s" and data: "data_inv traffic n s" and wf: "well_formed traffic n"
    and pc: "p_pc s = PR_Fill"
    and rd: "read_next_packet_from_file traffic (curr_off s) (packet_buf s ! unat (p_idx s)) = Inr (sz, pkt)"
  shows "data_inv traffic n (s\<lparr>packet_buf := (packet_buf s)[unat (p_idx s) :=
            pkt\<lparr>packet_length := sz, timestamp := now, priority := HIGH_PRIORITY\<rparr>],
          curr_off := curr_off s + payload_rec_size, p_pc := PR_PutIdx\<rparr>)"
proof -
  let ?new = "pkt\<lparr>packet_length := sz, timestamp := now, priority := HIGH_PRIORITY\<rparr>"
  define live where "live = c_in_hand (c_pc s) (c_idx s) @ ready_list s"
  from data obtain k where k: "curr_off s = 10 * k" "k < n" "packet_count s \<le> k"
    "map (payload_at (packet_buf s)) live = drop (packet_count s) (take k (pkts traffic n))"
    and buf: "length (packet_buf s) = 128" "\<forall>p\<in>set (packet_buf s). length (payload p) = 6"
    by (auto simp: data_inv_def pc live_def)
  have own: "own_inv s" using idx by (simp add: idx_inv_def)
  have lt: "unat (p_idx s) < 128" by (rule own_bound [OF own]) (simp add: pc)
  have pkt: "payload pkt = pkts traffic n ! k" "length (pkts traffic n ! k) = 6"
    using rd read_record [OF wf k(2)] buf lt wf k(1,2) by (auto simp: pkts_def well_formed_def)
  have new: "payload_at ((packet_buf s)[unat (p_idx s) := ?new]) (p_idx s) = pkts traffic n ! k"
    using pkt lt buf by (simp add: payload_at_def)
  have "set live \<subseteq> set (ready_list s) \<union> set (c_held s)" unfolding live_def by (cases "c_pc s") auto
  with own_distinct [OF own] have "p_idx s \<notin> set live" by (auto simp: pc)
  then have "map (payload_at ((packet_buf s)[unat (p_idx s) := ?new])) live
      = map (payload_at (packet_buf s)) live"
    using lt buf(1) by (intro map_cong refl) (auto intro!: payload_at_other)
  then have "map (payload_at ((packet_buf s)[unat (p_idx s) := ?new])) (live @ [p_idx s])
      = drop (packet_count s) (take (Suc k) (pkts traffic n))"
    using k pkt lt buf by (simp add: new take_Suc_conv_app_nth)
  moreover have "\<forall>p\<in>set ((packet_buf s)[unat (p_idx s) := ?new]). length (payload p) = 6"
    using buf pkt by (auto dest!: set_update_subset_insert [THEN subsetD])
  ultimately show ?thesis
    using data buf k by (auto simp: data_inv_def live_def intro!: exI [of _ "Suc k"])
qed

lemma data_inv_producer:
  "producer_step traffic s t \<Longrightarrow> well_formed traffic n \<Longrightarrow> idx_inv s \<Longrightarrow> data_inv traffic n s
   \<Longrightarrow> data_inv traffic n t"
proof (induction rule: producer_step.induct)
  case (pr_publish s)
  then have "rb_ok (ready_ring s)" "length (ready_list s) < 128"
    "buffer (ready_ring s) ! unat (head (ready_ring s) AND mask (ready_ring s)) = p_idx s"
    using held_room(1) [of s] by (simp_all add: idx_unfold)
  from rb_publish [OF this] pr_publish show ?case by (simp add: data_inv_def)
next
  case (pr_put_idx s)
  then have "rb_ok (ready_ring s)" "length (ready_list s) < 128"
    using held_room(1) [of s] by (simp_all add: idx_unfold)
  from rb_put(2) [OF this, of "p_idx s"] pr_put_idx show ?case by (simp add: data_inv_def)
next
  case (pr_fill s sz pkt now)
  then show ?case by (intro data_inv_fill)
next
  case (pr_check_free s)
  then show ?case by (auto simp: data_inv_def well_formed_def)
next
  case (pr_wait_ready s)
  then show ?case by (auto simp: data_inv_def)
qed (simp_all add: data_inv_def)

lemma data_inv_consumer:
  "consumer_step n s t \<Longrightarrow> idx_inv s \<Longrightarrow> data_inv traffic n s \<Longrightarrow> data_inv traffic n t"
proof (induction rule: consumer_step.induct)
  case (co_bump_ready s)
  then have ok: "rb_ok (ready_ring s)" "ready_list s \<noteq> []" by (simp_all add: idx_unfold)
  then obtain x xs where "ready_list s = x # xs" by (auto simp: neq_Nil_conv)
  with rb_bump [OF ok] co_bump_ready show ?case by (simp add: data_inv_def idx_unfold)
next
  case (co_process s acc)
  then obtain k where k: "k \<le> n" "packet_count s \<le> k"
    "payload_at (packet_buf s) (c_idx s)
       # map (payload_at (packet_buf s)) (ready_list s @ p_filled (p_pc s) (p_idx s))
     = drop (packet_count s) (take k (pkts traffic n))" "curr_off s = 10 * k"
    "p_pc s \<in> {PR_CheckReady, PR_ReadIdx, PR_BumpFree, PR_Fill} \<longrightarrow> k < n"
    and buf: "length (packet_buf s) = 128" "\<forall>p\<in>set (packet_buf s). length (payload p) = 6"
    by (auto simp: data_inv_def)
  from k(2,3) have lt: "packet_count s < k"
    by (metis drop_all length_take linorder_not_less list.distinct(1) min.cobounded2 order.trans)
  then have hd: "payload_at (packet_buf s) (c_idx s) = pkts traffic n ! packet_count s"
    and tl: "map (payload_at (packet_buf s)) (ready_list s @ p_filled (p_pc s) (p_idx s))
       = drop (Suc (packet_count s)) (take k (pkts traffic n))"
    using k by (simp_all add: Cons_nth_drop_Suc [symmetric])
  have "unat (c_idx s) < 128"
    using co_process by (intro own_bound [of s]) (simp_all add: idx_inv_def)
  with buf have "length (payload (packet_buf s ! unat (c_idx s))) = 6" by simp
  from process_packet_eq [OF this] co_process hd
  have "acc = checksum s + byte_sum (pkts traffic n ! packet_count s)" by (simp add: payload_at_def)
  with co_process lt k tl buf show ?case
    by (auto simp: data_inv_def take_Suc_conv_app_nth intro!: exI [of _ k])
next
  case (co_put_idx s)
  then show ?case by (simp add: data_inv_def)
qed (simp_all add: data_inv_def)

text \<open>Both invariants hold initially, so in every reachable state.\<close>

lemma idx_inv_init: "idx_inv pp_init"
proof -
  have "rb_list (free_ring pp_init) = all_idx"
    by (rule nth_equalityI) (simp_all add: pp_init_def rb_list_def nth_slots BUFFER_SIZE_def all_idx_def)
  then show ?thesis
    by (simp add: idx_unfold pp_init_def rb_ok_def BUFFER_SIZE_def rb_list_def)
qed

lemma data_inv_init: "data_inv traffic n pp_init"
  by (auto simp: data_inv_def pp_init_def BUFFER_SIZE_def rb_list_def fresh_packet_def)

lemma pp_reach_inv:
  assumes "pp_reach traffic n s" "well_formed traffic n"
  shows "idx_inv s \<and> data_inv traffic n s"
  using assms(1)
proof (induction rule: pp_reach.induct)
  case start
  show ?case by (simp add: idx_inv_init data_inv_init)
next
  case (step s t)
  then show ?case
    using assms(2) unfolding pp_step_def
    by (blast intro: idx_inv_producer idx_inv_consumer data_inv_producer data_inv_consumer)
qed

section \<open>Progress\<close>

text \<open>Steps each process still has to make, seven a round.\<close>

fun p_left :: "producer_pc \<Rightarrow> nat \<Rightarrow> nat" where
  "p_left PR_CheckFree m = 7 * m"
| "p_left PR_CheckReady m = 7 * m - 1"
| "p_left PR_ReadIdx m = 7 * m - 2"
| "p_left PR_BumpFree m = 7 * m - 3"
| "p_left PR_Fill m = 7 * m - 4"
| "p_left PR_PutIdx m = 7 * m + 2"
| "p_left PR_Publish m = 7 * m + 1"

fun c_left :: "consumer_pc \<Rightarrow> nat \<Rightarrow> nat" where
  "c_left CO_CheckReady m = 7 * m"
| "c_left CO_CheckFree m = 7 * m - 1"
| "c_left CO_ReadIdx m = 7 * m - 2"
| "c_left CO_BumpReady m = 7 * m - 3"
| "c_left CO_Process m = 7 * m - 4"
| "c_left CO_PutIdx m = 7 * m + 2"
| "c_left CO_Publish m = 7 * m + 1"

definition pp_left :: "nat \<Rightarrow> pp_state \<Rightarrow> nat" where
  "pp_left n s = p_left (p_pc s) (n - curr_off s div 10) + c_left (c_pc s) (n - packet_count s)"

lemma consumer_behind:
  assumes "data_inv traffic n s"
  shows "c_pc s = CO_Process \<or> ready_list s \<noteq> [] \<Longrightarrow> packet_count s < n"
    and "p_pc s = PR_CheckFree \<Longrightarrow> c_pc s = CO_CheckReady \<Longrightarrow> curr_off s = 10 * n
         \<Longrightarrow> packet_count s < n \<Longrightarrow> ready_list s \<noteq> []"
proof -
  let ?live = "c_in_hand (c_pc s) (c_idx s) @ ready_list s @ p_filled (p_pc s) (p_idx s)"
  from assms obtain k where k: "k \<le> n" "curr_off s = 10 * k"
    "map (payload_at (packet_buf s)) ?live = drop (packet_count s) (take k (pkts traffic n))"
    by (auto simp: data_inv_def)
  from arg_cong [OF k(3), of length] k(1) have len: "length ?live = k - packet_count s" by simp
  then show "packet_count s < n" if "c_pc s = CO_Process \<or> ready_list s \<noteq> []"
    using that k(1) by (cases "c_pc s = CO_Process"; cases "ready_list s") auto
  show "ready_list s \<noteq> []" if "p_pc s = PR_CheckFree" "c_pc s = CO_CheckReady"
    "curr_off s = 10 * n" "packet_count s < n"
    using that k len by auto
qed

lemma producer_progress:
  assumes wf: "well_formed traffic n" and idx: "idx_inv s" and data: "data_inv traffic n s"
    and go: "p_pc s \<noteq> PR_CheckFree \<or> curr_off s < length traffic \<and> free_list s \<noteq> []"
  shows "\<exists>t. producer_step traffic s t \<and> pp_left n t < pp_left n s"
proof -
  from data obtain k where k: "curr_off s = 10 * k" "k \<le> n"
    "p_pc s \<in> {PR_CheckReady, PR_ReadIdx, PR_BumpFree, PR_Fill} \<longrightarrow> k < n"
    and buf: "length (packet_buf s) = 128" "\<forall>p\<in>set (packet_buf s). length (payload p) = 6"
    by (auto simp: data_inv_def)
  show ?thesis
  proof (cases "p_pc s")
    case PR_CheckFree
    show ?thesis
      by (rule decreasing_stepI, rule pr_check_free)
        (use PR_CheckFree go k wf in \<open>auto simp: pp_left_def rb_empty_iff well_formed_def\<close>)
  next
    case PR_CheckReady
    have "rb_ok (ready_ring s)" "length (ready_list s) < 128"
      using idx PR_CheckReady held_room(2) [of s] by (simp_all add: idx_unfold)
    with rb_full_iff have nf: "\<not> ring_is_full (ready_ring s)" by auto
    show ?thesis
      by (rule decreasing_stepI, rule pr_check_ready) (use PR_CheckReady nf k in \<open>auto simp: pp_left_def\<close>)
  next
    case PR_ReadIdx
    show ?thesis
      by (rule decreasing_stepI, rule pr_read_idx) (use PR_ReadIdx k in \<open>auto simp: pp_left_def\<close>)
  next
    case PR_BumpFree
    show ?thesis
      by (rule decreasing_stepI, rule pr_bump_free) (use PR_BumpFree k in \<open>auto simp: pp_left_def\<close>)
  next
    case PR_Fill
    have "unat (p_idx s) < 128"
      using idx PR_Fill by (intro own_bound [of s]) (auto simp: idx_inv_def)
    with buf have "length (payload (packet_buf s ! unat (p_idx s))) = 6" by simp
    with read_record [OF wf, of k] k PR_Fill have
      "read_next_packet_from_file traffic (curr_off s) (packet_buf s ! unat (p_idx s))
       = Inr (6, (packet_buf s ! unat (p_idx s))\<lparr>payload := pkts traffic n ! k\<rparr>)" by simp
    from pr_fill [OF PR_Fill this] show ?thesis
      by (rule decreasing_stepI) (use PR_Fill k in \<open>auto simp: pp_left_def\<close>)
  next
    case PR_PutIdx
    show ?thesis
      by (rule decreasing_stepI, rule pr_put_idx) (use PR_PutIdx k in \<open>auto simp: pp_left_def\<close>)
  next
    case PR_Publish
    show ?thesis
      by (rule decreasing_stepI, rule pr_publish) (use PR_Publish k in \<open>auto simp: pp_left_def\<close>)
  qed
qed

lemma consumer_progress:
  assumes idx: "idx_inv s" and data: "data_inv traffic n s"
    and go: "c_pc s \<noteq> CO_CheckReady \<or> packet_count s < n \<and> ready_list s \<noteq> []"
  shows "\<exists>t. consumer_step n s t \<and> pp_left n t < pp_left n s"
proof -
  have behind: "c_pc s \<in> {CO_CheckFree, CO_ReadIdx, CO_BumpReady, CO_Process} \<Longrightarrow> packet_count s < n"
    using consumer_behind(1) [OF data] idx unfolding idx_inv_def consumer_inv_def by blast
  show ?thesis
  proof (cases "c_pc s")
    case CO_CheckReady
    show ?thesis
      by (rule decreasing_stepI, rule co_check_ready)
        (use CO_CheckReady go in \<open>auto simp: pp_left_def rb_empty_iff\<close>)
  next
    case CO_CheckFree
    have "rb_ok (free_ring s)" "length (free_list s) < 128"
      using idx CO_CheckFree held_room(3) [of s] by (simp_all add: idx_unfold)
    with rb_full_iff have nf: "\<not> ring_is_full (free_ring s)" by auto
    show ?thesis
      by (rule decreasing_stepI, rule co_check_free)
        (use CO_CheckFree nf behind in \<open>auto simp: pp_left_def\<close>)
  next
    case CO_ReadIdx
    show ?thesis
      by (rule decreasing_stepI, rule co_read_idx) (use CO_ReadIdx behind in \<open>auto simp: pp_left_def\<close>)
  next
    case CO_BumpReady
    show ?thesis
      by (rule decreasing_stepI, rule co_bump_ready) (use CO_BumpReady behind in \<open>auto simp: pp_left_def\<close>)
  next
    case CO_Process
    have "unat (c_idx s) < 128"
      using idx CO_Process by (intro own_bound [of s]) (auto simp: idx_inv_def)
    with data have "length (payload (packet_buf s ! unat (c_idx s))) = 6"
      by (simp add: data_inv_def)
    from co_process [OF CO_Process process_packet_eq [OF this]] show ?thesis
      by (rule decreasing_stepI) (use CO_Process behind in \<open>auto simp: pp_left_def\<close>)
  next
    case CO_PutIdx
    show ?thesis
      by (rule decreasing_stepI, rule co_put_idx) (use CO_PutIdx in \<open>auto simp: pp_left_def\<close>)
  next
    case CO_Publish
    show ?thesis
      by (rule decreasing_stepI, rule co_publish) (use CO_Publish in \<open>auto simp: pp_left_def\<close>)
  qed
qed

lemma pp_progress:
  assumes wf: "well_formed traffic n" and inv: "idx_inv s \<and> data_inv traffic n s"
    and nd: "\<not> pp_done traffic n s"
  shows "\<exists>t. pp_step traffic n s t \<and> pp_left n t < pp_left n s"
proof -
  consider "p_pc s \<noteq> PR_CheckFree \<or> curr_off s < length traffic \<and> free_list s \<noteq> []"
    | "c_pc s \<noteq> CO_CheckReady"
    | "p_pc s = PR_CheckFree" "c_pc s = CO_CheckReady"
      "length traffic \<le> curr_off s \<or> free_list s = []" by linarith
  then show ?thesis
  proof cases
    case 1
    with producer_progress [OF wf] inv show ?thesis by (auto simp: pp_step_def)
  next
    case 2
    with consumer_progress inv show ?thesis by (fastforce simp: pp_step_def)
  next
    case 3
    have "packet_count s < n \<and> ready_list s \<noteq> []"
    proof (cases "length traffic \<le> curr_off s")
      case True
      with nd 3 wf inv have "packet_count s < n" "curr_off s = 10 * n"
        by (auto simp: pp_done_def data_inv_def well_formed_def)
      with consumer_behind(2) [of traffic n s] inv 3 show ?thesis by blast
    next
      case False
      with 3 have "free_list s = []" by simp
      with own_length [of s] inv 3 have "length (ready_list s) = 128" by (simp add: idx_inv_def)
      with consumer_behind(1) [of traffic n s] inv show ?thesis by fastforce
    qed
    with consumer_progress [of s traffic n] inv show ?thesis by (auto simp: pp_step_def)
  qed
qed

lemma pp_inv_step:
  "well_formed traffic n \<Longrightarrow> pp_step traffic n s t \<Longrightarrow> idx_inv s \<and> data_inv traffic n s
   \<Longrightarrow> idx_inv t \<and> data_inv traffic n t"
  unfolding pp_step_def
  by (blast intro: idx_inv_producer idx_inv_consumer data_inv_producer data_inv_consumer)

lemma pp_reaches_done:
  assumes "well_formed traffic n" "idx_inv s \<and> data_inv traffic n s"
  shows "\<exists>t. (pp_step traffic n)\<^sup>*\<^sup>* s t \<and> (idx_inv t \<and> data_inv traffic n t) \<and> pp_done traffic n t"
  using pp_progress [OF assms(1)] pp_inv_step [OF assms(1)] assms(2)
  by (rule reach_goal [where f = "pp_left n"])

section \<open>Properties\<close>

lemma pp_reach_idx: "pp_reach traffic n s \<Longrightarrow> idx_inv s"
  by (induction rule: pp_reach.induct)
    (auto simp: pp_step_def idx_inv_init intro: idx_inv_producer idx_inv_consumer)

text \<open>
  C3. Zero copy is safe: in every reachable state of the two processes, whatever the
  file holds, each of the 128 buffer indices is in exactly one place (free ring, ready
  ring, producer, consumer). So the producer never fills a buffer that the consumer
  still reads or that waits in the ready ring, every index is inside
  \<open>packet_buf\<close>, and neither ring ever needs a slot it does not have, although
  the full test misses full rings.
\<close>

theorem pp_buffers_exclusive:
  assumes "pp_reach traffic n s"
  shows "mset (free_list s @ ready_list s @ p_held s @ c_held s) = mset (map of_nat [0..<128])
       \<and> distinct (free_list s @ ready_list s @ p_held s @ c_held s)
       \<and> (p_pc s \<in> {PR_PutIdx, PR_Publish} \<longrightarrow> length (ready_list s) < 128)
       \<and> (c_pc s \<in> {CO_PutIdx, CO_Publish} \<longrightarrow> length (free_list s) < 128)"
proof -
  from assms have inv: "idx_inv s" by (rule pp_reach_idx)
  then have own: "own_inv s" by (simp add: idx_inv_def)
  from own own_distinct [OF own] held_room(1) [OF inv] show ?thesis
    by (auto simp: own_inv_def all_idx_def)
qed

definition pp_after_take :: "u8 list \<Rightarrow> pp_state" where
  "pp_after_take traffic =
     pp_init\<lparr>free_ring := (free_ring pp_init)\<lparr>tail := 1\<rparr>, p_idx := 0, p_pc := PR_Fill\<rparr>"

lemma pp_after_take_reach: "traffic \<noteq> [] \<Longrightarrow> pp_reach traffic n (pp_after_take traffic)"
proof -
  assume "traffic \<noteq> []"
  let ?s1 = "pp_init\<lparr>p_pc := PR_CheckReady\<rparr>" and ?s2 = "pp_init\<lparr>p_pc := PR_ReadIdx\<rparr>"
    and ?s3 = "pp_init\<lparr>p_idx := 0, p_pc := PR_BumpFree\<rparr>"
  have "producer_step traffic pp_init ?s1"
    using \<open>traffic \<noteq> []\<close> by (intro pr_check_free) (simp_all add: pp_init_def ring_is_empty_def BUFFER_SIZE_def)
  moreover have "producer_step traffic ?s1 ?s2"
    using pr_check_ready [of ?s1 traffic]
    by (simp add: pp_init_def ring_is_full_def BUFFER_SIZE_def)
  moreover have "producer_step traffic ?s2 ?s3"
    using pr_read_idx [of ?s2 traffic] by (simp add: pp_init_def BUFFER_SIZE_def)
  moreover have "producer_step traffic ?s3 (pp_after_take traffic)"
    using pr_bump_free [of ?s3 traffic] by (simp add: pp_init_def pp_after_take_def BUFFER_SIZE_def)
  ultimately show ?thesis
    unfolding pp_step_def [abs_def] by (meson pp_reach.intros pp_step_def)
qed

theorem pp_buffers_exclusive_witness:
  "pp_reach [0] 1 (pp_after_take [0]) \<and> p_held (pp_after_take [0]) = [0]
   \<and> distinct (free_list (pp_after_take [0]) @ ready_list (pp_after_take [0]) @ [0])"
  using pp_buffers_exclusive [OF pp_after_take_reach [of "[0]" 1]] pp_after_take_reach [of "[0]" 1]
  by (simp add: pp_after_take_def pp_init_def)

text \<open>
  C2. For any traffic file of \<open>n\<close> full-length records and any interleaving so far,
  the two processes can run to completion, and then the consumer has processed all
  \<open>n\<close> packets and its checksum is the sum of all payload bytes of the file. In
  particular no access along the way is out of bounds and nobody waits forever.
\<close>

theorem pp_finishes_with_checksum:
  assumes "well_formed traffic n" "pp_reach traffic n s"
  shows "\<exists>t. (pp_step traffic n)\<^sup>*\<^sup>* s t \<and> pp_done traffic n t \<and> packet_count t = n
           \<and> checksum t = sum_list (map byte_sum (pkts traffic n))"
proof -
  from pp_reaches_done [OF assms(1) pp_reach_inv [OF assms(2,1)]] obtain t where
    t: "(pp_step traffic n)\<^sup>*\<^sup>* s t" "data_inv traffic n t" "pp_done traffic n t" by blast
  then have "packet_count t = n" by (auto simp: data_inv_def pp_done_def)
  with t show ?thesis by (auto simp: data_inv_def)
qed

definition two_records :: "u8 list" where
  "two_records = [6,0,0,0, 1,2,3,4,5,6, 6,0,0,0, 10,20,30,40,50,255]"

theorem pp_finishes_with_checksum_witness:
  "well_formed two_records 2 \<and>
   (\<exists>t. (pp_step two_records 2)\<^sup>*\<^sup>* pp_init t \<and> pp_done two_records 2 t
      \<and> packet_count t = 2 \<and> checksum t = 426)"
proof
  have "le32 (take 4 (drop (10 * i) two_records)) = 6" if "i < 2" for i
  proof -
    from that have "i = 0 \<or> i = 1" by linarith
    then show ?thesis by (auto simp: two_records_def le32_def)
  qed
  then show wf: "well_formed two_records 2"
    by (simp add: well_formed_def two_records_def)
  have "[0..<2] = [0, 1::nat]" by (simp add: upt_rec)
  then have "sum_list (map byte_sum (pkts two_records 2)) = 426"
    by (simp add: pkts_def two_records_def byte_sum_def)
  with pp_finishes_with_checksum [OF wf pp_reach.start]
  show "\<exists>t. (pp_step two_records 2)\<^sup>*\<^sup>* pp_init t \<and> pp_done two_records 2 t
      \<and> packet_count t = 2 \<and> checksum t = 426" by simp
qed

text \<open>
  The full test of the rings (\<open>head == tail ^ BUFFER_SIZE\<close>) is right on rings that
  are not full, but reports a full ring only while bit 7 of \<open>tail\<close> is clear: with
  counters that run freely instead of wrapping at \<open>2 * BUFFER_SIZE\<close>, every other
  lap of the ring goes undetected.
\<close>

theorem ring_is_full_iff:
  assumes "rb_ok rb"
  shows "ring_is_full rb \<longleftrightarrow> length (rb_list rb) = 128 \<and> \<not> bit (tail rb) 7"
  using assms by (rule rb_full_iff)

definition full_second_lap :: ringbuf where
  "full_second_lap = \<lparr>head = 256, tail = 128, mask = 127, buffer = replicate 128 0\<rparr>"

theorem ring_is_full_iff_witness:
  "rb_ok full_second_lap \<and> length (rb_list full_second_lap) = 128 \<and> \<not> ring_is_full full_second_lap"
proof -
  have "rb_ok full_second_lap" by (simp add: rb_ok_def full_second_lap_def)
  with ring_is_full_iff [OF this] show ?thesis
    by (simp add: full_second_lap_def rb_list_def)
qed

subsection \<open>The file the program generates\<close>

definition dummy_bytes :: "u8 list" where
  "dummy_bytes = [0xDE, 0xAD, 0xBE, 0xEF, 0xBA, 0xBA]"

definition dummy_traffic :: "nat \<Rightarrow> u8 list" where
  "dummy_traffic n = concat (replicate n ([6, 0, 0, 0] @ dummy_bytes))"

lemma drop_concat_replicate:
  "length r = k \<Longrightarrow> drop (k * i) (concat (replicate n r)) = concat (replicate (n - i) r)"
proof (induction i arbitrary: n)
  case 0
  then show ?case by simp
next
  case (Suc i)
  then show ?case by (cases n) (simp_all add: add.commute flip: drop_drop)
qed

lemma length_dummy_traffic: "length (dummy_traffic n) = 10 * n"
  by (induction n) (simp_all add: dummy_traffic_def dummy_bytes_def)

lemma drop_dummy_traffic:
  "i < n \<Longrightarrow> \<exists>rest. drop (10 * i) (dummy_traffic n) = ([6, 0, 0, 0] @ dummy_bytes) @ rest"
  using drop_concat_replicate [of "[6, 0, 0, 0] @ dummy_bytes" 10 i n]
  by (cases "n - i") (simp_all add: dummy_traffic_def dummy_bytes_def)

lemma dummy_traffic_records:
  "well_formed (dummy_traffic n) n \<and> pkts (dummy_traffic n) n = replicate n dummy_bytes"
proof
  have le: "le32 (take 4 (drop (10 * i) (dummy_traffic n))) = 6" if i: "i < n" for i
    using drop_dummy_traffic [OF i] by (auto simp: le32_def)
  then show "well_formed (dummy_traffic n) n"
    by (simp add: well_formed_def length_dummy_traffic)
  have "take 6 (drop (10 * i + 4) (dummy_traffic n)) = dummy_bytes" if i: "i < n" for i
  proof -
    obtain rest where "drop (10 * i) (dummy_traffic n) = ([6, 0, 0, 0] @ dummy_bytes) @ rest"
      using drop_dummy_traffic [OF i] by blast
    then have "drop 4 (drop (10 * i) (dummy_traffic n)) = dummy_bytes @ rest" by simp
    then show ?thesis by (simp add: dummy_bytes_def add.commute)
  qed
  then show "pkts (dummy_traffic n) n = replicate n dummy_bytes"
    by (intro nth_equalityI) (simp_all add: pkts_def)
qed

lemma expected_checksum_eq: "calc_expected_checksum = 1196000000"
proof -
  have "dummy_loop 6 DUMMY_DATA 0 = 1196" unfolding DUMMY_DATA_def by code_simp
  then show ?thesis by (simp add: calc_expected_checksum_def EXPECTED_PACKET_COUNT_def)
qed

lemma pp_dummy_completes:
  assumes "pp_reach (dummy_traffic EXPECTED_PACKET_COUNT) EXPECTED_PACKET_COUNT s"
  shows "\<exists>t. (pp_step (dummy_traffic EXPECTED_PACKET_COUNT) EXPECTED_PACKET_COUNT)\<^sup>*\<^sup>* s t
           \<and> pp_done (dummy_traffic EXPECTED_PACKET_COUNT) EXPECTED_PACKET_COUNT t
           \<and> checksum t = calc_expected_checksum"
proof -
  let ?n = EXPECTED_PACKET_COUNT
  have wf: "well_formed (dummy_traffic ?n) ?n" using dummy_traffic_records by blast
  from pp_reaches_done [OF wf pp_reach_inv [OF assms wf]] obtain t where
    t: "(pp_step (dummy_traffic ?n) ?n)\<^sup>*\<^sup>* s t" "data_inv (dummy_traffic ?n) ?n t"
      "pp_done (dummy_traffic ?n) ?n t" by blast
  then have "packet_count t = ?n" by (auto simp: data_inv_def pp_done_def)
  with t(2) have "checksum t = of_nat ?n * byte_sum dummy_bytes"
    by (simp add: data_inv_def dummy_traffic_records sum_list_replicate)
  also have "\<dots> = calc_expected_checksum"
    by (simp add: expected_checksum_eq byte_sum_def dummy_bytes_def EXPECTED_PACKET_COUNT_def)
  finally show ?thesis using t by blast
qed

text \<open>
  On the file the program means to generate (\<open>EXPECTED_PACKET_COUNT\<close> records that
  hold the six bytes of \<open>DUMMY_DATA\<close>), the two numbers it prints at the end agree:
  from every reachable state the run can be completed with the consumer's checksum
  equal to \<open>calc_expected_checksum\<close>.
\<close>

theorem pp_checksum_as_expected:
  assumes "pp_reach (dummy_traffic EXPECTED_PACKET_COUNT) EXPECTED_PACKET_COUNT s"
  shows "\<exists>t. (pp_step (dummy_traffic EXPECTED_PACKET_COUNT) EXPECTED_PACKET_COUNT)\<^sup>*\<^sup>* s t
           \<and> pp_done (dummy_traffic EXPECTED_PACKET_COUNT) EXPECTED_PACKET_COUNT t
           \<and> checksum t = calc_expected_checksum"
  using assms by (rule pp_dummy_completes)

theorem pp_checksum_as_expected_witness:
  "\<exists>t. (pp_step (dummy_traffic EXPECTED_PACKET_COUNT) EXPECTED_PACKET_COUNT)\<^sup>*\<^sup>* pp_init t
     \<and> pp_done (dummy_traffic EXPECTED_PACKET_COUNT) EXPECTED_PACKET_COUNT t
     \<and> checksum t = 1196000000"
  using pp_checksum_as_expected [OF pp_reach.start] by (simp add: expected_checksum_eq)

text \<open>
  The loop of \<open>create_packet_file\<close> that fills a record runs one round too far
  (\<open>j <= len\<close>): on every record its last round shifts by a negative amount and would
  write one byte past the data array. One round fewer yields exactly the dummy bytes.
\<close>

theorem fill_record_undefined:
  assumes "length data = 6"
  shows "fill_record data = Inl Shift_Width \<and> fill_data 5 0 data = Inr dummy_bytes"
proof -
  obtain a b c d e f where "data = [a, b, c, d, e, f]"
    using assms by (auto simp: length_Suc_conv numeral_eq_Suc)
  then show ?thesis
    by (simp add: fill_record_def dummy_bytes_def DUMMY_DATA_def fill_data.simps)
qed

theorem fill_record_undefined_witness:
  "length (replicate 6 (0::u8)) = 6 \<and> fill_record (replicate 6 0) = Inl Shift_Width"
  using fill_record_undefined [of "replicate 6 0"] by simp

end
