(* ===== verification/Kv_Store.thy ===== *)
theory Kv_Store
  imports Prelude
begin

text \<open>
  The contract of a key-value store with room for a limited number of writes: a
  lookup returns the last value written under the key, housekeeping changes no
  lookup and never costs room. \<open>kv_run\<close> drives an implementation with a sequence
  of calls and stops at the first undefined one; the locale proves once that the
  answers are those of a map, as long as the keys are valid and the writes fit.
\<close>

datatype ('k, 'v) kv_call = Put 'k 'v | Get 'k | Clean

fun kv_run :: "('s \<Rightarrow> 'k \<Rightarrow> 'v \<Rightarrow> 's cres) \<Rightarrow> ('s \<Rightarrow> 'k \<Rightarrow> 'r cres) \<Rightarrow> ('s \<Rightarrow> 's cres)
    \<Rightarrow> 's \<Rightarrow> ('k, 'v) kv_call list \<Rightarrow> 'r list cres" where
  "kv_run put get clean s [] = Inr []"
| "kv_run put get clean s (Put k v # cs) = cbind (put s k v) (\<lambda>s'. kv_run put get clean s' cs)"
| "kv_run put get clean s (Get k # cs) =
     cbind (get s k) (\<lambda>r. cbind (kv_run put get clean s cs) (\<lambda>rs. Inr (r # rs)))"
| "kv_run put get clean s (Clean # cs) = cbind (clean s) (\<lambda>s'. kv_run put get clean s' cs)"

fun map_run :: "('v option \<Rightarrow> 'r) \<Rightarrow> ('k \<rightharpoonup> 'v) \<Rightarrow> ('k, 'v) kv_call list \<Rightarrow> 'r list" where
  "map_run reply m [] = []"
| "map_run reply m (Put k v # cs) = map_run reply (m(k \<mapsto> v)) cs"
| "map_run reply m (Get k # cs) = reply (m k) # map_run reply m cs"
| "map_run reply m (Clean # cs) = map_run reply m cs"

text \<open>The state that the calls leave.\<close>

fun kv_exec :: "('s \<Rightarrow> 'k \<Rightarrow> 'v \<Rightarrow> 's cres) \<Rightarrow> ('s \<Rightarrow> 'k \<Rightarrow> 'r cres) \<Rightarrow> ('s \<Rightarrow> 's cres)
    \<Rightarrow> 's \<Rightarrow> ('k, 'v) kv_call list \<Rightarrow> 's cres" where
  "kv_exec put get clean s [] = Inr s"
| "kv_exec put get clean s (Put k v # cs) = cbind (put s k v) (\<lambda>s'. kv_exec put get clean s' cs)"
| "kv_exec put get clean s (Get k # cs) = cbind (get s k) (\<lambda>_. kv_exec put get clean s cs)"
| "kv_exec put get clean s (Clean # cs) = cbind (clean s) (\<lambda>s'. kv_exec put get clean s' cs)"

fun map_exec :: "('k \<rightharpoonup> 'v) \<Rightarrow> ('k, 'v) kv_call list \<Rightarrow> ('k \<rightharpoonup> 'v)" where
  "map_exec m [] = m"
| "map_exec m (Put k v # cs) = map_exec (m(k \<mapsto> v)) cs"
| "map_exec m (c # cs) = map_exec m cs"

lemma map_exec_append: "map_exec m (xs @ ys) = map_exec (map_exec m xs) ys"
proof (induction xs arbitrary: m)
  case (Cons x xs)
  then show ?case by (cases x) (simp_all add: fun_upd_def)
qed simp

fun kv_key_ok :: "('k \<Rightarrow> bool) \<Rightarrow> ('k, 'v) kv_call \<Rightarrow> bool" where
  "kv_key_ok ok (Put k v) = ok k"
| "kv_key_ok ok (Get k) = ok k"
| "kv_key_ok ok Clean = True"

fun puts :: "('k, 'v) kv_call list \<Rightarrow> nat" where
  "puts [] = 0"
| "puts (Put k v # cs) = Suc (puts cs)"
| "puts (Get k # cs) = puts cs"
| "puts (Clean # cs) = puts cs"

locale kv_store =
  fixes put :: "'s \<Rightarrow> 'k \<Rightarrow> 'v \<Rightarrow> 's cres"
    and get :: "'s \<Rightarrow> 'k \<Rightarrow> 'r cres"
    and clean :: "'s \<Rightarrow> 's cres"
    and lookup :: "'s \<Rightarrow> 'k \<rightharpoonup> 'v"
    and reply :: "'v option \<Rightarrow> 'r"
    and inv :: "'s \<Rightarrow> bool"
    and room :: "'s \<Rightarrow> nat"
    and valid :: "'s \<Rightarrow> 'k \<Rightarrow> bool"
  assumes put_ok: "inv s \<Longrightarrow> valid s k \<Longrightarrow> 0 < room s \<Longrightarrow>
      \<exists>s'. put s k v = Inr s' \<and> inv s' \<and> lookup s' = (lookup s)(k \<mapsto> v)
         \<and> room s' = room s - 1 \<and> valid s' = valid s"
    and get_ok: "inv s \<Longrightarrow> valid s k \<Longrightarrow> get s k = Inr (reply (lookup s k))"
    and clean_ok: "inv s \<Longrightarrow>
      \<exists>s'. clean s = Inr s' \<and> inv s' \<and> lookup s' = lookup s \<and> room s \<le> room s' \<and> valid s' = valid s"
begin

lemma kv_run_refines:
  "inv s \<Longrightarrow> puts cs \<le> room s \<Longrightarrow> \<forall>c\<in>set cs. kv_key_ok (valid s) c \<Longrightarrow>
   kv_run put get clean s cs = Inr (map_run reply (lookup s) cs)"
proof (induction cs arbitrary: s)
  case Nil
  then show ?case by simp
next
  case (Cons c cs)
  show ?case
  proof (cases c)
    case (Put k v)
    with Cons.prems obtain s' where "put s k v = Inr s'" "inv s'"
      "lookup s' = (lookup s)(k \<mapsto> v)" "room s' = room s - 1" "valid s' = valid s"
      using put_ok [of s k v] by auto
    with Put Cons.prems Cons.IH [of s'] show ?thesis by (simp add: fun_upd_def)
  next
    case (Get k)
    with Cons get_ok [of s k] show ?thesis by simp
  next
    case Clean
    from clean_ok [OF Cons.prems(1)] obtain s' where "clean s = Inr s'" "inv s'"
      "lookup s' = lookup s" "room s \<le> room s'" "valid s' = valid s" by blast
    with Clean Cons.prems Cons.IH [of s'] show ?thesis by simp
  qed
qed

lemma kv_exec_refines:
  "inv s \<Longrightarrow> puts cs \<le> room s \<Longrightarrow> \<forall>c\<in>set cs. kv_key_ok (valid s) c \<Longrightarrow>
   \<exists>s'. kv_exec put get clean s cs = Inr s' \<and> inv s' \<and> lookup s' = map_exec (lookup s) cs \<and> valid s' = valid s
     \<and> (Clean \<notin> set cs \<longrightarrow> room s' = room s - puts cs)"
proof (induction cs arbitrary: s)
  case Nil
  then show ?case by simp
next
  case (Cons c cs)
  show ?case
  proof (cases c)
    case (Put k v)
    with Cons.prems obtain s' where "put s k v = Inr s'" "inv s'"
      "lookup s' = (lookup s)(k \<mapsto> v)" "room s' = room s - 1" "valid s' = valid s"
      using put_ok [of s k v] by auto
    with Put Cons.prems Cons.IH [of s'] show ?thesis by (auto simp: fun_upd_def)
  next
    case (Get k)
    with Cons get_ok [of s k] show ?thesis by auto
  next
    case Clean
    from clean_ok [OF Cons.prems(1)] obtain s' where "clean s = Inr s'" "inv s'"
      "lookup s' = lookup s" "room s \<le> room s'" "valid s' = valid s" by blast
    with Clean Cons.prems Cons.IH [of s'] show ?thesis by auto
  qed
qed

end

end
