(* ===== verification/Log_Store.thy ===== *)
theory Log_Store
  imports Kv_Store
begin

text \<open>
  \<open>log_structured_storage_041526/logstore.c\<close> with \<open>logstore.h\<close> and
  \<open>logstore_internal.h\<close>: writes are appended to \<open>buffer\<close>, \<open>imap\<close> holds for
  every key the offset of its latest entry or -1, and \<open>logstore_clean\<close> copies
  the live entries to a fresh buffer.

  The read-write lock makes \<open>logstore_put\<close>, \<open>logstore_get\<close> and the pointer
  switch of \<open>logstore_clean\<close> atomic, so each is one function here. The copy loop of
  \<open>logstore_clean\<close> runs before the lock is taken: it is a function of its own
  (\<open>clean_copy\<close>), and \<open>logstore_clean\<close> is the copy and the switch with no other
  call in between. An entry of a buffer from \<open>malloc\<close> that is not yet written
  is \<open>None\<close>. The flag \<open>ok\<close> says whether the allocator grants the requests of a
  call; their results are not checked by the code.
\<close>

section \<open>The store\<close>

record Entry =
  key :: int
  "value" :: int

record LogStore =
  buffer :: "Entry option list"
  imap :: "int list"
  head :: int
  capacity :: int
  key_range :: int

definition logstore_create :: "bool \<Rightarrow> int \<Rightarrow> int \<Rightarrow> LogStore cres" where
  "logstore_create ok cap krange =
     (if \<not> ok \<or> krange < 0 then Inl Null_Deref
      else Inr \<lparr>buffer = replicate (nat cap) (Some \<lparr>key = 0, value = 0\<rparr>),
                imap = replicate (nat krange) (- 1), head = 0, capacity = cap, key_range = krange\<rparr>)"

definition logstore_put :: "LogStore \<Rightarrow> int \<Rightarrow> int \<Rightarrow> LogStore cres" where
  "logstore_put store k v =
     cbind (iset (buffer store) (head store) (Some \<lparr>key = k, value = v\<rparr>)) (\<lambda>buffer'.
     cbind (iset (imap store) k (head store)) (\<lambda>imap'.
     cbind (c_int (head store + 1)) (\<lambda>head'.
       Inr (store\<lparr>buffer := buffer', imap := imap', head := head'\<rparr>))))"

definition logstore_get_buffer_index :: "LogStore \<Rightarrow> int \<Rightarrow> Entry cres" where
  "logstore_get_buffer_index store index =
     cbind (iget (buffer store) index) (\<lambda>e. case e of None \<Rightarrow> Inl Uninit_Read | Some e \<Rightarrow> Inr e)"

definition logstore_get :: "LogStore \<Rightarrow> int \<Rightarrow> int cres" where
  "logstore_get store k =
     cbind (iget (imap store) k) (\<lambda>buffer_offset.
       if buffer_offset < 0 then Inr (- 1)
       else cbind (iget (buffer store) buffer_offset) (\<lambda>e.
         case e of None \<Rightarrow> Inl Uninit_Read | Some e \<Rightarrow> Inr (value e)))"

section \<open>Cleaning\<close>

text \<open>
  The guard is \<open>head < capacity * 0.8\<close> in \<open>double\<close>. The nearest \<open>double\<close> to
  0.8 is \<open>0.8 * (1 + 2^-54)\<close>; for a 32-bit \<open>capacity\<close> divisible by 5 the rounded
  product is the exact integer, otherwise it is at least 1/5 away from any integer, so
  the comparison is that of the integers below.
\<close>

definition below_threshold :: "LogStore \<Rightarrow> bool" where
  "below_threshold store \<longleftrightarrow> 5 * head store < 4 * capacity store"

text \<open>The copy loop from key \<open>i\<close> on, with \<open>n\<close> keys left.\<close>

fun clean_loop :: "LogStore \<Rightarrow> int \<Rightarrow> nat \<Rightarrow> Entry option list \<Rightarrow> int list \<Rightarrow> int
    \<Rightarrow> (Entry option list \<times> int list \<times> int) cres" where
  "clean_loop store i 0 new_buffer new_imap new_head = Inr (new_buffer, new_imap, new_head)"
| "clean_loop store i (Suc n) new_buffer new_imap new_head =
     cbind (iget (imap store) i) (\<lambda>off.
       if 0 \<le> off then
         cbind (iget (buffer store) off) (\<lambda>e.
         cbind (iset new_buffer new_head e) (\<lambda>new_buffer'.
         cbind (iset new_imap i new_head) (\<lambda>new_imap'.
         clean_loop store (i + 1) n new_buffer' new_imap' (new_head + 1))))
       else clean_loop store (i + 1) n new_buffer new_imap new_head)"

definition clean_copy :: "bool \<Rightarrow> LogStore \<Rightarrow> (Entry option list \<times> int list \<times> int) cres" where
  "clean_copy ok store =
     (if \<not> ok then Inl Null_Deref
      else clean_loop store 0 (nat (key_range store)) (replicate (nat (capacity store)) None)
             (replicate (nat (key_range store)) (- 1)) 0)"

definition clean_switch :: "Entry option list \<times> int list \<times> int \<Rightarrow> LogStore \<Rightarrow> LogStore" where
  "clean_switch new store =
     store\<lparr>buffer := fst new, imap := fst (snd new), head := snd (snd new)\<rparr>"

definition logstore_clean :: "bool \<Rightarrow> LogStore \<Rightarrow> LogStore cres" where
  "logstore_clean ok store =
     (if below_threshold store then Inr store
      else cbind (clean_copy ok store) (\<lambda>new. Inr (clean_switch new store)))"

section \<open>Invariant and abstraction\<close>

text \<open>Every offset is inside the used part of the log and leads to an entry of its key.\<close>

definition entry_of :: "LogStore \<Rightarrow> nat \<Rightarrow> Entry option" where
  "entry_of store k = buffer store ! nat (imap store ! k)"

definition imap_ok :: "LogStore \<Rightarrow> bool" where
  "imap_ok store \<longleftrightarrow> (\<forall>k < length (imap store). imap store ! k = - 1
     \<or> (0 \<le> imap store ! k \<and> imap store ! k < head store
        \<and> (\<exists>v. entry_of store k = Some \<lparr>key = int k, value = v\<rparr>)))"

definition ls_inv :: "LogStore \<Rightarrow> bool" where
  "ls_inv store \<longleftrightarrow> length (buffer store) = nat (capacity store)
     \<and> length (imap store) = nat (key_range store)
     \<and> 0 \<le> head store \<and> head store \<le> capacity store \<and> capacity store \<le> INT_MAX
     \<and> 0 \<le> key_range store \<and> imap_ok store"

definition valid_key :: "LogStore \<Rightarrow> int \<Rightarrow> bool" where
  "valid_key store k \<longleftrightarrow> 0 \<le> k \<and> k < key_range store"

definition ls_map :: "LogStore \<Rightarrow> int \<rightharpoonup> int" where
  "ls_map store k =
     (if valid_key store k \<and> 0 \<le> imap store ! nat k
      then map_option value (entry_of store (nat k)) else None)"

definition ls_room :: "LogStore \<Rightarrow> nat" where
  "ls_room store = nat (capacity store - head store)"

text \<open>What \<open>logstore_get\<close> returns for a missing key is -1, a possible value as well.\<close>

definition get_reply :: "int option \<Rightarrow> int" where
  "get_reply r = (case r of None \<Rightarrow> - 1 | Some v \<Rightarrow> v)"

lemma imap_okD:
  assumes "imap_ok store" "k < length (imap store)" "0 \<le> imap store ! k"
  obtains v where "imap store ! k < head store" "entry_of store k = Some \<lparr>key = int k, value = v\<rparr>"
  using assms unfolding imap_ok_def by force

lemma imap_less:
  "imap_ok store \<Longrightarrow> k < length (imap store) \<Longrightarrow> 0 \<le> imap store ! k \<Longrightarrow> imap store ! k < head store"
  by (blast elim: imap_okD)

lemma valid_key_length: "ls_inv store \<Longrightarrow> valid_key store k \<Longrightarrow> nat k < length (imap store)"
  by (auto simp: valid_key_def ls_inv_def)

lemma logstore_create_inv:
  assumes "0 \<le> cap" "cap \<le> INT_MAX" "0 \<le> krange"
  shows "\<exists>store. logstore_create True cap krange = Inr store \<and> ls_inv store
       \<and> ls_map store = Map.empty \<and> ls_room store = nat cap \<and> key_range store = krange"
proof -
  have "ls_map s = Map.empty" if "imap s = replicate (nat krange) (- 1)" "key_range s = krange" for s
    using that by (auto simp: ls_map_def valid_key_def fun_eq_iff)
  with assms show ?thesis
    by (simp add: logstore_create_def ls_inv_def imap_ok_def ls_room_def)
qed

section \<open>Writing and reading\<close>

lemma logstore_get_ok: "ls_inv store \<Longrightarrow> valid_key store k \<Longrightarrow>
    logstore_get store k = Inr (get_reply (ls_map store k))"
proof (cases "imap store ! nat k < 0")
  case True
  assume "ls_inv store" "valid_key store k"
  with True show ?thesis
    by (auto simp: logstore_get_def ls_inv_def valid_key_def ls_map_def get_reply_def)
next
  case False
  assume inv: "ls_inv store" and k: "valid_key store k"
  then obtain v where "imap store ! nat k < head store"
    "entry_of store (nat k) = Some \<lparr>key = int (nat k), value = v\<rparr>"
    using imap_okD [of store "nat k"] valid_key_length [OF inv k] False by (auto simp: ls_inv_def)
  with inv k False show ?thesis
    by (auto simp: logstore_get_def ls_inv_def valid_key_def ls_map_def get_reply_def entry_of_def)
qed

lemma logstore_put_imap_ok:
  assumes "ls_inv store" "valid_key store k" "head store < capacity store"
  shows "imap_ok (store\<lparr>buffer := (buffer store)[nat (head store) := Some \<lparr>key = k, value = v\<rparr>],
                         imap := (imap store)[nat k := head store], head := head store + 1\<rparr>)"
    (is "imap_ok ?s")
  unfolding imap_ok_def
proof (intro allI impI)
  fix j
  assume j: "j < length (imap ?s)"
  show "imap ?s ! j = - 1 \<or> (0 \<le> imap ?s ! j \<and> imap ?s ! j < head ?s
          \<and> (\<exists>v. entry_of ?s j = Some \<lparr>key = int j, value = v\<rparr>))"
  proof (cases "j = nat k")
    case True
    with assms j show ?thesis by (auto simp: entry_of_def ls_inv_def valid_key_def)
  next
    case False
    have "nat (imap store ! j) \<noteq> nat (head store)" if "0 \<le> imap store ! j"
      using assms j that by (auto simp: ls_inv_def imap_ok_def)
    with False assms j show ?thesis by (auto simp: entry_of_def ls_inv_def imap_ok_def)
  qed
qed

lemma ls_map_put:
  assumes "ls_inv store" "valid_key store k" "head store < capacity store"
  shows "ls_map (store\<lparr>buffer := (buffer store)[nat (head store) := Some \<lparr>key = k, value = v\<rparr>],
                        imap := (imap store)[nat k := head store], head := head store + 1\<rparr>)
       = (ls_map store)(k \<mapsto> v)" (is "ls_map ?s = _")
proof
  fix j
  have nat_eq: "nat j = nat k \<longleftrightarrow> j = k" if "valid_key store j"
    using that assms(2) by (auto simp: valid_key_def)
  have "nat (imap store ! nat j) \<noteq> nat (head store)" if "valid_key store j" "0 \<le> imap store ! nat j"
  proof -
    from that assms(1) imap_less [of store "nat j"] valid_key_length [of store j] show ?thesis
      by (auto simp: ls_inv_def)
  qed
  with assms nat_eq show "ls_map ?s j = ((ls_map store)(k \<mapsto> v)) j"
    by (auto simp: ls_map_def entry_of_def valid_key_def ls_inv_def)
qed

lemma logstore_put_ok:
  assumes "ls_inv store" "valid_key store k" "0 < ls_room store"
  shows "\<exists>s. logstore_put store k v = Inr s \<and> ls_inv s \<and> ls_map s = (ls_map store)(k \<mapsto> v)
       \<and> ls_room s = ls_room store - 1 \<and> valid_key s = valid_key store"
proof -
  have room: "head store < capacity store" using assms(3) by (simp add: ls_room_def)
  have "int_range (head store + 1)"
    using assms(1) room by (simp add: ls_inv_def int_range_def INT_MIN_def)
  with assms(1,2) room have "logstore_put store k v =
      Inr (store\<lparr>buffer := (buffer store)[nat (head store) := Some \<lparr>key = k, value = v\<rparr>],
                 imap := (imap store)[nat k := head store], head := head store + 1\<rparr>)"
    by (simp add: logstore_put_def ls_inv_def valid_key_def)
  with logstore_put_imap_ok [OF assms(1,2) room] ls_map_put [OF assms(1,2) room] assms(1) room
  show ?thesis by (auto simp: ls_inv_def ls_room_def valid_key_def fun_eq_iff)
qed

section \<open>The copy loop\<close>

text \<open>The keys below \<open>i\<close> that have an entry, in the order the loop visits them.\<close>

definition live :: "LogStore \<Rightarrow> nat \<Rightarrow> nat list" where
  "live store i = filter (\<lambda>k. 0 \<le> imap store ! k) [0..<i]"

definition copied :: "LogStore \<Rightarrow> nat \<Rightarrow> Entry option list \<times> int list \<times> int \<Rightarrow> bool" where
  "copied store i new \<longleftrightarrow> (case new of (new_buffer, new_imap, new_head) \<Rightarrow>
     length new_buffer = length (buffer store) \<and> length new_imap = length (imap store)
     \<and> new_head = int (length (live store i))
     \<and> take (length (live store i)) new_buffer = map (entry_of store) (live store i)
     \<and> (\<forall>j < length new_imap. new_imap ! j =
          (if j < i \<and> 0 \<le> imap store ! j then int (length (live store j)) else - 1)))"

lemma live_0 [simp]: "live store 0 = []"
  by (simp add: live_def)

lemma live_Suc: "live store (Suc i) = live store i @ (if 0 \<le> imap store ! i then [i] else [])"
  by (simp add: live_def)

lemma live_distinct: "distinct (live store i)"
  by (simp add: live_def)

lemma live_mono: "i \<le> j \<Longrightarrow> length (live store i) \<le> length (live store j)"
  by (rule lift_Suc_mono_le [of "\<lambda>i. length (live store i)"]) (simp_all add: live_Suc)

lemma live_nth: "j < n \<Longrightarrow> 0 \<le> imap store ! j \<Longrightarrow> live store n ! length (live store j) = j"
proof (induction n)
  case (Suc n)
  show ?case
  proof (cases "j = n")
    case True
    with Suc.prems show ?thesis by (simp add: live_Suc nth_append)
  next
    case False
    with Suc have "length (live store (Suc j)) \<le> length (live store n)"
      by (intro live_mono) simp
    with False Suc show ?thesis by (simp add: live_Suc nth_append)
  qed
qed simp

lemma live_length_le:
  assumes "imap_ok store" "n \<le> length (imap store)" "0 \<le> head store"
  shows "int (length (live store n)) \<le> head store"
proof -
  have less: "nat (imap store ! k) < nat (head store)" if "k \<in> set (live store n)" for k
    using that assms imap_less [OF assms(1), of k] by (auto simp: live_def)
  have "inj_on (\<lambda>k. nat (imap store ! k)) (set (live store n))"
  proof (rule inj_onI)
    fix a b
    assume a: "a \<in> set (live store n)" and b: "b \<in> set (live store n)"
      and eq: "nat (imap store ! a) = nat (imap store ! b)"
    from a assms obtain v where "entry_of store a = Some \<lparr>key = int a, value = v\<rparr>"
      by (elim imap_okD [of store a]) (auto simp: live_def)
    moreover from b assms obtain w where "entry_of store b = Some \<lparr>key = int b, value = w\<rparr>"
      by (elim imap_okD [of store b]) (auto simp: live_def)
    ultimately show "a = b" using eq by (simp add: entry_of_def)
  qed
  then have "distinct (map (\<lambda>k. nat (imap store ! k)) (live store n))"
    by (simp add: distinct_map live_def)
  moreover have "set (map (\<lambda>k. nat (imap store ! k)) (live store n)) \<subseteq> {..<nat (head store)}"
    using less by auto
  ultimately have "length (live store n) \<le> nat (head store)"
    by (metis card_lessThan card_mono distinct_card finite_lessThan length_map)
  with assms(3) show ?thesis by linarith
qed

lemma copied_step:
  assumes c: "copied store i (nb, nm, nh)" and i: "i < length (imap store)" and "0 \<le> imap store ! i"
    and room: "length (live store i) < length (buffer store)"
  shows "copied store (Suc i) (nb[nat nh := entry_of store i], nm[i := nh], nh + 1)"
proof -
  let ?m = "length (live store i)"
  have nh: "nh = int ?m" and len: "?m < length nb" using c room by (simp_all add: copied_def)
  have "take (Suc ?m) (nb[?m := entry_of store i]) = take ?m nb @ [entry_of store i]"
    using len by (simp add: take_Suc_conv_app_nth)
  with c assms(3) nh i show ?thesis
    by (auto simp: copied_def live_Suc nth_list_update less_Suc_eq)
qed

lemma copied_skip:
  "copied store i new \<Longrightarrow> \<not> 0 \<le> imap store ! i \<Longrightarrow> copied store (Suc i) new"
  by (auto simp: copied_def live_Suc less_Suc_eq split: prod.splits)

lemma clean_loop_copied:
  assumes "imap_ok store" "0 \<le> head store" "head store \<le> int (length (buffer store))"
  shows "copied store i (nb, nm, nh) \<Longrightarrow> i + n = length (imap store) \<Longrightarrow>
    \<exists>new. clean_loop store (int i) n nb nm nh = Inr new \<and> copied store (length (imap store)) new"
proof (induction n arbitrary: i nb nm nh)
  case 0
  then show ?case by simp
next
  case (Suc n)
  then have i: "i < length (imap store)" by simp
  show ?case
  proof (cases "0 \<le> imap store ! i")
    case False
    from Suc.IH [OF copied_skip [OF Suc.prems(1) False]] Suc.prems(2) i False show ?thesis
      by (simp add: add.commute)
  next
    case True
    have "imap store ! i < int (length (buffer store))"
      using imap_less [OF assms(1) i True] assms(3) by linarith
    moreover have room: "length (live store i) < length (buffer store)"
      using live_length_le [OF assms(1) _ assms(2), of "Suc i"] i True assms(3) by (simp add: live_Suc)
    moreover note Suc.IH [OF copied_step [OF Suc.prems(1) i True room]]
    ultimately show ?thesis
      using Suc.prems i True by (simp add: copied_def entry_of_def add.commute)
  qed
qed

lemma clean_copy_copied:
  assumes "ls_inv store"
  shows "\<exists>new. clean_copy True store = Inr new \<and> copied store (length (imap store)) new"
proof -
  have "copied store 0 (replicate (nat (capacity store)) None, replicate (nat (key_range store)) (- 1), 0)"
    using assms by (simp add: copied_def ls_inv_def)
  from clean_loop_copied [OF _ _ _ this, of "length (imap store)"] assms show ?thesis
    by (simp add: clean_copy_def ls_inv_def)
qed

text \<open>What the switch leaves in the store.\<close>

lemma copied_entry:
  assumes new: "copied store (length (imap store)) (nb, nm, nh)"
    and j: "j < length (imap store)" "0 \<le> imap store ! j"
  shows "nm ! j = int (length (live store j))" "length (live store j) < length (live store (length (imap store)))"
    "nb ! length (live store j) = entry_of store j"
proof -
  let ?L = "live store (length (imap store))"
  show "nm ! j = int (length (live store j))" using new j by (simp add: copied_def)
  show less: "length (live store j) < length ?L"
    using live_mono [of "Suc j" "length (imap store)" store] j by (simp add: live_Suc)
  have "nb ! length (live store j) = take (length ?L) nb ! length (live store j)" using less by simp
  also have "\<dots> = entry_of store (?L ! length (live store j))"
    using new less by (simp add: copied_def)
  finally show "nb ! length (live store j) = entry_of store j" using live_nth [OF j] by simp
qed

lemma copied_switch_map:
  assumes inv: "ls_inv store" and new: "copied store (length (imap store)) new"
  shows "ls_map (clean_switch new store) = ls_map store"
proof
  fix k
  obtain nb nm nh where n: "new = (nb, nm, nh)" by (cases new)
  show "ls_map (clean_switch new store) k = ls_map store k"
  proof (cases "valid_key store k")
    case True
    with valid_key_length [OF inv True] copied_entry [OF new [unfolded n], of "nat k"] new n show ?thesis
      by (auto simp: ls_map_def clean_switch_def valid_key_def entry_of_def copied_def)
  next
    case False
    then show ?thesis by (auto simp: ls_map_def clean_switch_def valid_key_def)
  qed
qed

lemma copied_switch_inv:
  assumes inv: "ls_inv store" and new: "copied store (length (imap store)) new"
  shows "ls_inv (clean_switch new store)" "head (clean_switch new store) \<le> head store"
proof -
  obtain nb nm nh where n: "new = (nb, nm, nh)" by (cases new)
  have entry: "\<exists>v. entry_of (clean_switch new store) j = Some \<lparr>key = int j, value = v\<rparr>"
    if "j < length (imap store)" "0 \<le> imap store ! j" for j
  proof -
    have "imap_ok store" using inv by (simp add: ls_inv_def)
    from imap_okD [OF this that] obtain v where "entry_of store j = Some \<lparr>key = int j, value = v\<rparr>"
      by blast
    with copied_entry [OF new [unfolded n] that] show ?thesis
      by (simp add: entry_of_def clean_switch_def n)
  qed
  have "imap_ok (clean_switch new store)"
    unfolding imap_ok_def
  proof (intro allI impI)
    fix j
    assume "j < length (imap (clean_switch new store))"
    with new n have j: "j < length (imap store)" by (simp add: clean_switch_def copied_def)
    from copied_entry(1,2) [OF new [unfolded n] j] entry [OF j] new j n
    show "imap (clean_switch new store) ! j = - 1 \<or> (0 \<le> imap (clean_switch new store) ! j
        \<and> imap (clean_switch new store) ! j < head (clean_switch new store)
        \<and> (\<exists>v. entry_of (clean_switch new store) j = Some \<lparr>key = int j, value = v\<rparr>))"
      by (cases "0 \<le> imap store ! j") (auto simp: clean_switch_def copied_def)
  qed
  moreover have "nh \<le> head store"
    using live_length_le [of store "length (imap store)"] inv new n by (simp add: ls_inv_def copied_def)
  ultimately show "ls_inv (clean_switch new store)" "head (clean_switch new store) \<le> head store"
    using inv new n by (auto simp: ls_inv_def clean_switch_def copied_def)
qed

lemma logstore_clean_ok:
  assumes "ls_inv store"
  shows "\<exists>s. logstore_clean True store = Inr s \<and> ls_inv s \<and> ls_map s = ls_map store
       \<and> ls_room store \<le> ls_room s \<and> valid_key s = valid_key store"
proof (cases "below_threshold store")
  case True
  with assms show ?thesis by (simp add: logstore_clean_def)
next
  case False
  obtain new where new: "clean_copy True store = Inr new" "copied store (length (imap store)) new"
    using clean_copy_copied [OF assms] by blast
  with False copied_switch_inv [OF assms new(2)] copied_switch_map [OF assms new(2)] show ?thesis
    by (auto simp: logstore_clean_def ls_room_def clean_switch_def valid_key_def fun_eq_iff)
qed

interpretation log_kv: kv_store logstore_put logstore_get "logstore_clean True"
  ls_map get_reply ls_inv ls_room valid_key
  using logstore_put_ok logstore_get_ok logstore_clean_ok by unfold_locales blast+

section \<open>Properties\<close>

text \<open>
  C1. Run on a fresh store, any sequence of puts, gets and cleans with keys of the
  range, and with no more puts than the capacity, is defined and every get returns
  the last value put under its key, or -1 if there was none: the log, the index and
  the compaction are invisible to the caller.
\<close>

theorem logstore_refines_map:
  assumes "logstore_create True cap krange = Inr store" "0 \<le> cap" "cap \<le> INT_MAX"
    and "int (puts cs) \<le> cap" "\<forall>c\<in>set cs. kv_key_ok (\<lambda>k. 0 \<le> k \<and> k < krange) c"
  shows "kv_run logstore_put logstore_get (logstore_clean True) store cs
       = Inr (map_run get_reply Map.empty cs)"
proof -
  have "0 \<le> krange" using assms(1) by (auto simp: logstore_create_def split: if_splits)
  from logstore_create_inv [OF assms(2,3) this] assms(1) have "ls_inv store"
    "ls_map store = Map.empty" "ls_room store = nat cap" "key_range store = krange" by auto
  moreover from this(4) have "valid_key store = (\<lambda>k. 0 \<le> k \<and> k < krange)"
    by (simp add: valid_key_def fun_eq_iff)
  ultimately show ?thesis using log_kv.kv_run_refines [of store cs] assms(4,5) by simp
qed

definition small_store :: LogStore where
  "small_store = \<lparr>buffer = replicate 5 (Some \<lparr>key = 0, value = 0\<rparr>), imap = replicate 2 (- 1),
                  head = 0, capacity = 5, key_range = 2\<rparr>"

definition small_calls :: "(int, int) kv_call list" where
  "small_calls = [Get 0, Put 0 7, Put 1 8, Put 0 9, Put 1 10, Clean, Get 0, Put 0 11, Get 0, Get 1]"

theorem logstore_refines_map_witness:
  "logstore_create True 5 2 = Inr small_store
   \<and> kv_run logstore_put logstore_get (logstore_clean True) small_store small_calls
     = Inr [- 1, 9, 11, 10]"
proof
  show create: "logstore_create True 5 2 = Inr small_store"
    by (simp add: logstore_create_def small_store_def)
  have "map_run get_reply Map.empty small_calls = [- 1, 9, 11, 10]"
    by (simp add: small_calls_def get_reply_def)
  with logstore_refines_map [OF create, of small_calls]
  show "kv_run logstore_put logstore_get (logstore_clean True) small_store small_calls
     = Inr [- 1, 9, 11, 10]"
    by (simp add: small_calls_def INT_MAX_def)
qed

lemma ls_map_live:
  assumes "ls_inv store"
  shows "live store (length (imap store))
       = filter (\<lambda>k. ls_map store (int k) \<noteq> None) [0..<nat (key_range store)]"
    and "map (entry_of store) (live store (length (imap store)))
       = map (\<lambda>k. map_option (\<lambda>v. \<lparr>key = int k, value = v\<rparr>) (ls_map store (int k)))
           (live store (length (imap store)))"
proof -
  let ?n = "length (imap store)"
  have n: "?n = nat (key_range store)" "imap_ok store" using assms by (simp_all add: ls_inv_def)
  have entry: "ls_map store (int k) \<noteq> None \<longleftrightarrow> 0 \<le> imap store ! k"
    "0 \<le> imap store ! k \<Longrightarrow> entry_of store k
       = map_option (\<lambda>v. \<lparr>key = int k, value = v\<rparr>) (ls_map store (int k))" if "k < ?n" for k
  proof -
    have "valid_key store (int k)" using that n by (simp add: valid_key_def)
    moreover have "\<exists>v. entry_of store k = Some \<lparr>key = int k, value = v\<rparr>" if "0 \<le> imap store ! k"
      using imap_okD [OF n(2) \<open>k < ?n\<close> that] by blast
    ultimately show "ls_map store (int k) \<noteq> None \<longleftrightarrow> 0 \<le> imap store ! k"
      "0 \<le> imap store ! k \<Longrightarrow> entry_of store k
         = map_option (\<lambda>v. \<lparr>key = int k, value = v\<rparr>) (ls_map store (int k))"
      by (auto simp: ls_map_def)
  qed
  show "live store ?n = filter (\<lambda>k. ls_map store (int k) \<noteq> None) [0..<nat (key_range store)]"
    unfolding live_def using entry n by (intro filter_cong) auto
  show "map (entry_of store) (live store ?n)
      = map (\<lambda>k. map_option (\<lambda>v. \<lparr>key = int k, value = v\<rparr>) (ls_map store (int k))) (live store ?n)"
    using entry by (auto simp: live_def)
qed

lemma ls_map_dom:
  assumes "ls_inv store"
  shows "card (dom (ls_map store)) = length (live store (length (imap store)))"
proof -
  note live = ls_map_live(1) [OF assms]
  have "dom (ls_map store) = int ` set (live store (length (imap store)))"
  proof (intro set_eqI iffI)
    fix k
    assume "k \<in> dom (ls_map store)"
    then have "valid_key store k" "ls_map store k \<noteq> None" by (auto simp: ls_map_def split: if_splits)
    then have "nat k \<in> set (live store (length (imap store)))" "k = int (nat k)"
      unfolding live by (auto simp: valid_key_def)
    then show "k \<in> int ` set (live store (length (imap store)))" by blast
  qed (auto simp: live)
  then show ?thesis by (simp add: card_image distinct_card live_distinct)
qed

lemma clean_compacts:
  assumes "ls_inv store" "\<not> below_threshold store"
  shows "\<exists>s. logstore_clean True store = Inr s \<and> ls_inv s \<and> ls_map s = ls_map store
       \<and> head s = int (card (dom (ls_map store)))
       \<and> take (nat (head s)) (buffer s)
         = map (\<lambda>k. map_option (\<lambda>v. \<lparr>key = int k, value = v\<rparr>) (ls_map store (int k)))
             (filter (\<lambda>k. ls_map store (int k) \<noteq> None) [0..<nat (key_range store)])"
proof -
  obtain nb nm nh where new: "clean_copy True store = Inr (nb, nm, nh)"
    "copied store (length (imap store)) (nb, nm, nh)"
    using clean_copy_copied [OF assms(1)] by auto
  with copied_switch_inv [OF assms(1) new(2)] copied_switch_map [OF assms(1) new(2)] assms(2)
    ls_map_live [OF assms(1)] ls_map_dom [OF assms(1)] show ?thesis
    by (auto simp: logstore_clean_def clean_switch_def copied_def)
qed

text \<open>
  C23. A clean at 80 % or more keeps every lookup, keeps the invariant, and leaves in
  the log exactly one entry per key that has one, in key order; all other space is
  free again.
\<close>

theorem logstore_clean_compacts:
  assumes "ls_inv store" "\<not> below_threshold store"
  shows "\<exists>s. logstore_clean True store = Inr s \<and> ls_inv s \<and> ls_map s = ls_map store
       \<and> head s = int (card (dom (ls_map store)))
       \<and> take (nat (head s)) (buffer s)
         = map (\<lambda>k. map_option (\<lambda>v. \<lparr>key = int k, value = v\<rparr>) (ls_map store (int k)))
             (filter (\<lambda>k. ls_map store (int k) \<noteq> None) [0..<nat (key_range store)])"
  by (rule clean_compacts [OF assms])

definition used_store :: LogStore where
  "used_store = \<lparr>buffer = map Some [\<lparr>key = 1, value = 5\<rparr>, \<lparr>key = 0, value = 6\<rparr>,
                   \<lparr>key = 1, value = 7\<rparr>, \<lparr>key = 1, value = 8\<rparr>, \<lparr>key = 0, value = 0\<rparr>],
                 imap = [1, 3, - 1], head = 4, capacity = 5, key_range = 3\<rparr>"

lemma used_store_inv: "ls_inv used_store"
proof -
  have "imap_ok used_store"
    unfolding imap_ok_def
  proof (intro allI impI)
    fix k
    assume "k < length (imap used_store)"
    then have "k = 0 \<or> k = 1 \<or> k = 2" by (auto simp: used_store_def)
    then show "imap used_store ! k = - 1 \<or> (0 \<le> imap used_store ! k \<and> imap used_store ! k < head used_store
        \<and> (\<exists>v. entry_of used_store k = Some \<lparr>key = int k, value = v\<rparr>))"
      by (auto simp: used_store_def entry_of_def)
  qed
  then show ?thesis by (simp add: ls_inv_def used_store_def INT_MAX_def)
qed

lemma used_store_map: "ls_map used_store 0 = Some 6" "ls_map used_store 1 = Some 8"
    "ls_map used_store 2 = None"
  by (simp_all add: ls_map_def valid_key_def used_store_def entry_of_def)

theorem logstore_clean_compacts_witness:
  "\<exists>s. logstore_clean True used_store = Inr s \<and> ls_map s 0 = Some 6 \<and> ls_map s 1 = Some 8
     \<and> take (nat (head s)) (buffer s) = [Some \<lparr>key = 0, value = 6\<rparr>, Some \<lparr>key = 1, value = 8\<rparr>]"
proof -
  have "\<not> below_threshold used_store" by (simp add: below_threshold_def used_store_def)
  moreover have "[0..<nat (key_range used_store)] = [0, 1, 2]" by (simp add: used_store_def upt_rec)
  ultimately show ?thesis
    using logstore_clean_compacts [OF used_store_inv] used_store_map by auto
qed

text \<open>
  A put is defined exactly while the log has room and the key is in range. Nothing
  in \<open>logstore_put\<close> tests either: the put that finds the log full writes past
  the end of the buffer.
\<close>

theorem logstore_put_defined_iff:
  assumes "ls_inv store"
  shows "(\<exists>s. logstore_put store k v = Inr s) \<longleftrightarrow> head store < capacity store \<and> valid_key store k"
proof
  assume "\<exists>s. logstore_put store k v = Inr s"
  then show "head store < capacity store \<and> valid_key store k"
    using assms by (auto simp: logstore_put_def iset_def arr_set_def ls_inv_def valid_key_def split: if_splits)
next
  assume "head store < capacity store \<and> valid_key store k"
  with logstore_put_ok [OF assms, of k v] show "\<exists>s. logstore_put store k v = Inr s"
    by (auto simp: ls_room_def)
qed

theorem logstore_put_defined_iff_witness:
  "(\<exists>s. logstore_put used_store 2 9 = Inr s) \<and> \<not> (\<exists>s. logstore_put used_store 3 9 = Inr s)"
  using logstore_put_defined_iff [OF used_store_inv, of 2 9] logstore_put_defined_iff [OF used_store_inv, of 3 9]
  by (simp add: used_store_def valid_key_def)

text \<open>
  The copy of a clean is made outside the lock. A put that another thread makes
  between the copy and the pointer switch succeeds and is then lost: after the switch
  every lookup is what it was before the put.
\<close>

theorem clean_race_loses_put:
  assumes "ls_inv store" "clean_copy True store = Inr new" "logstore_put store k v = Inr s"
  shows "ls_map s k = Some v \<and> ls_map (clean_switch new s) = ls_map store"
proof
  have k: "valid_key store k" "0 < ls_room store"
    using assms(1,3)
    by (auto simp: logstore_put_def iset_def arr_set_def ls_inv_def valid_key_def ls_room_def split: if_splits)
  with logstore_put_ok [OF assms(1) k, of v] assms(3) show "ls_map s k = Some v" by auto
  have "clean_switch new s = clean_switch new store"
    using assms(3) by (auto simp: logstore_put_def clean_switch_def)
  with clean_copy_copied [OF assms(1)] assms(2) copied_switch_map [OF assms(1), of new]
  show "ls_map (clean_switch new s) = ls_map store" by simp
qed

theorem clean_race_loses_put_witness:
  "\<exists>new s. clean_copy True used_store = Inr new \<and> logstore_put used_store 2 9 = Inr s
     \<and> logstore_get s 2 = Inr 9 \<and> ls_map s 2 = Some 9 \<and> ls_map (clean_switch new s) 2 = None"
proof -
  obtain new where new: "clean_copy True used_store = Inr new"
    using clean_copy_copied [OF used_store_inv] by blast
  have "0 < ls_room used_store" "valid_key used_store 2"
    by (simp_all add: ls_room_def valid_key_def used_store_def)
  with logstore_put_ok [OF used_store_inv, of 2 9] obtain s where
    s: "logstore_put used_store 2 9 = Inr s" "ls_inv s" "valid_key s 2" by auto
  with new logstore_get_ok [OF s(2,3)] clean_race_loses_put [OF used_store_inv new s(1)] used_store_map
  show ?thesis by (auto simp: get_reply_def)
qed

end
