(* ===== verification/Bounded_Set.thy ===== *)
theory Bounded_Set
  imports Prelude
begin

text \<open>
  The contract of a set of bounded size with the return codes of the C sources:
  \<open>add\<close> and \<open>remove\<close> return 0 or -1, and a rejected call changes nothing.
  \<open>set_run\<close> drives an implementation with a sequence of calls and stops at the
  first undefined one, \<open>set_exec\<close> gives the state it reaches; the locale proves once
  that the answers are those of a mathematical set that accepts an element again
  (\<open>set_spec\<close>), and that the state holds the elements of that set (\<open>set_after\<close>).
  \<open>required_replies\<close> is the set that rejects an element it has; both agree as long as
  no element is added twice.
\<close>

datatype 'a set_call = Add 'a | Remove 'a | Contains 'a

datatype set_reply = Code int | Answer bool

fun set_spec :: "nat \<Rightarrow> ('a \<Rightarrow> bool) \<Rightarrow> 'a set \<Rightarrow> 'a set_call list \<Rightarrow> set_reply list" where
  "set_spec k ok A [] = []"
| "set_spec k ok A (Add x # cs) =
     (if x \<in> A then Code 0 # set_spec k ok A cs
      else if k \<le> card A \<or> \<not> ok x then Code (- 1) # set_spec k ok A cs
      else Code 0 # set_spec k ok (insert x A) cs)"
| "set_spec k ok A (Remove x # cs) =
     (if x \<in> A then Code 0 # set_spec k ok (A - {x}) cs else Code (- 1) # set_spec k ok A cs)"
| "set_spec k ok A (Contains x # cs) = Answer (x \<in> A) # set_spec k ok A cs"

fun set_run :: "('s \<Rightarrow> 'a \<Rightarrow> (int \<times> 's) cres) \<Rightarrow> ('s \<Rightarrow> 'a \<Rightarrow> (int \<times> 's) cres)
    \<Rightarrow> ('s \<Rightarrow> 'a \<Rightarrow> bool cres) \<Rightarrow> 's \<Rightarrow> 'a set_call list \<Rightarrow> set_reply list cres" where
  "set_run add rem has s [] = Inr []"
| "set_run add rem has s (Add x # cs) =
     cbind (add s x) (\<lambda>(r, s'). cbind (set_run add rem has s' cs) (\<lambda>rs. Inr (Code r # rs)))"
| "set_run add rem has s (Remove x # cs) =
     cbind (rem s x) (\<lambda>(r, s'). cbind (set_run add rem has s' cs) (\<lambda>rs. Inr (Code r # rs)))"
| "set_run add rem has s (Contains x # cs) =
     cbind (has s x) (\<lambda>b. cbind (set_run add rem has s cs) (\<lambda>rs. Inr (Answer b # rs)))"

text \<open>The set that \<open>set_spec\<close> has at the end, and the state of the implementation.\<close>

fun set_after :: "nat \<Rightarrow> ('a \<Rightarrow> bool) \<Rightarrow> 'a set \<Rightarrow> 'a set_call list \<Rightarrow> 'a set" where
  "set_after k ok A [] = A"
| "set_after k ok A (Add x # cs) =
     set_after k ok (if x \<notin> A \<and> card A < k \<and> ok x then insert x A else A) cs"
| "set_after k ok A (Remove x # cs) = set_after k ok (A - {x}) cs"
| "set_after k ok A (Contains x # cs) = set_after k ok A cs"

fun set_exec :: "('s \<Rightarrow> 'a \<Rightarrow> (int \<times> 's) cres) \<Rightarrow> ('s \<Rightarrow> 'a \<Rightarrow> (int \<times> 's) cres)
    \<Rightarrow> ('s \<Rightarrow> 'a \<Rightarrow> bool cres) \<Rightarrow> 's \<Rightarrow> 'a set_call list \<Rightarrow> 's cres" where
  "set_exec add rem has s [] = Inr s"
| "set_exec add rem has s (Add x # cs) = cbind (add s x) (\<lambda>(r, s'). set_exec add rem has s' cs)"
| "set_exec add rem has s (Remove x # cs) = cbind (rem s x) (\<lambda>(r, s'). set_exec add rem has s' cs)"
| "set_exec add rem has s (Contains x # cs) = cbind (has s x) (\<lambda>b. set_exec add rem has s cs)"

text \<open>The set that rejects duplicates, and the calls that add no element twice.\<close>

fun required_replies :: "nat \<Rightarrow> ('a \<Rightarrow> bool) \<Rightarrow> 'a set \<Rightarrow> 'a set_call list \<Rightarrow> set_reply list" where
  "required_replies k ok A [] = []"
| "required_replies k ok A (Add x # cs) =
     (if x \<in> A \<or> k \<le> card A \<or> \<not> ok x then Code (- 1) # required_replies k ok A cs
      else Code 0 # required_replies k ok (insert x A) cs)"
| "required_replies k ok A (Remove x # cs) =
     (if x \<in> A then Code 0 # required_replies k ok (A - {x}) cs else Code (- 1) # required_replies k ok A cs)"
| "required_replies k ok A (Contains x # cs) = Answer (x \<in> A) # required_replies k ok A cs"

fun no_duplicate_adds :: "nat \<Rightarrow> ('a \<Rightarrow> bool) \<Rightarrow> 'a set \<Rightarrow> 'a set_call list \<Rightarrow> bool" where
  "no_duplicate_adds k ok A [] = True"
| "no_duplicate_adds k ok A (Add x # cs) =
     (x \<notin> A \<and> no_duplicate_adds k ok (if card A < k \<and> ok x then insert x A else A) cs)"
| "no_duplicate_adds k ok A (Remove x # cs) = no_duplicate_adds k ok (A - {x}) cs"
| "no_duplicate_adds k ok A (Contains x # cs) = no_duplicate_adds k ok A cs"

lemma set_spec_required:
  "no_duplicate_adds k ok A cs \<Longrightarrow> set_spec k ok A cs = required_replies k ok A cs"
  by (induction k ok A cs rule: no_duplicate_adds.induct) (auto simp: not_less)

lemma set_spec_ok_cong:
  "(\<And>x. Add x \<in> set cs \<Longrightarrow> ok x = ok' x) \<Longrightarrow> set_spec k ok A cs = set_spec k ok' A cs"
  by (induction k ok A cs rule: set_spec.induct) auto

locale bounded_set =
  fixes add :: "'s \<Rightarrow> 'a \<Rightarrow> (int \<times> 's) cres"
    and rem :: "'s \<Rightarrow> 'a \<Rightarrow> (int \<times> 's) cres"
    and has :: "'s \<Rightarrow> 'a \<Rightarrow> bool cres"
    and elems :: "'s \<Rightarrow> 'a set"
    and inv :: "'s \<Rightarrow> bool"
    and cap :: "'s \<Rightarrow> nat"
    and ok :: "'s \<Rightarrow> 'a \<Rightarrow> bool"
  assumes has_ok: "inv s \<Longrightarrow> has s x = Inr (x \<in> elems s)"
    and add_dup: "inv s \<Longrightarrow> x \<in> elems s \<Longrightarrow> add s x = Inr (0, s)"
    and add_reject: "inv s \<Longrightarrow> x \<notin> elems s \<Longrightarrow> cap s \<le> card (elems s) \<or> \<not> ok s x \<Longrightarrow>
      add s x = Inr (- 1, s)"
    and add_new: "inv s \<Longrightarrow> x \<notin> elems s \<Longrightarrow> card (elems s) < cap s \<Longrightarrow> ok s x \<Longrightarrow>
      \<exists>s'. add s x = Inr (0, s') \<and> inv s' \<and> elems s' = insert x (elems s) \<and> cap s' = cap s \<and> ok s' = ok s"
    and rem_none: "inv s \<Longrightarrow> x \<notin> elems s \<Longrightarrow> rem s x = Inr (- 1, s)"
    and rem_some: "inv s \<Longrightarrow> x \<in> elems s \<Longrightarrow>
      \<exists>s'. rem s x = Inr (0, s') \<and> inv s' \<and> elems s' = elems s - {x} \<and> cap s' = cap s \<and> ok s' = ok s"
begin

lemma set_run_Add:
  assumes "inv s"
    and IH: "\<And>s. inv s \<Longrightarrow> set_run add rem has s cs = Inr (set_spec (cap s) (ok s) (elems s) cs)"
  shows "set_run add rem has s (Add x # cs) = Inr (set_spec (cap s) (ok s) (elems s) (Add x # cs))"
proof (cases "x \<in> elems s \<or> cap s \<le> card (elems s) \<or> \<not> ok s x")
  case True
  with assms add_dup [of s x] add_reject [of s x] show ?thesis by (cases "x \<in> elems s") auto
next
  case False
  with assms(1) add_new [of s x] obtain s' where "add s x = Inr (0, s')" "inv s'"
    "elems s' = insert x (elems s)" "cap s' = cap s" "ok s' = ok s" by auto
  with False IH [of s'] show ?thesis by auto
qed

lemma set_run_Remove:
  assumes "inv s"
    and IH: "\<And>s. inv s \<Longrightarrow> set_run add rem has s cs = Inr (set_spec (cap s) (ok s) (elems s) cs)"
  shows "set_run add rem has s (Remove x # cs) = Inr (set_spec (cap s) (ok s) (elems s) (Remove x # cs))"
proof (cases "x \<in> elems s")
  case True
  with assms(1) rem_some [of s x] obtain s' where "rem s x = Inr (0, s')" "inv s'"
    "elems s' = elems s - {x}" "cap s' = cap s" "ok s' = ok s" by auto
  with True IH [of s'] show ?thesis by auto
next
  case False
  with assms rem_none [of s x] show ?thesis by simp
qed

text \<open>Any sequence of calls is defined and gets the replies of the set.\<close>

lemma set_run_refines:
  "inv s \<Longrightarrow> set_run add rem has s cs = Inr (set_spec (cap s) (ok s) (elems s) cs)"
proof (induction cs arbitrary: s)
  case Nil
  then show ?case by simp
next
  case (Cons c cs)
  show ?case
  proof (cases c)
    case (Add x)
    with set_run_Add [OF Cons.prems Cons.IH] show ?thesis by simp
  next
    case (Remove x)
    with set_run_Remove [OF Cons.prems Cons.IH] show ?thesis by simp
  next
    case (Contains x)
    with Cons has_ok [of s x] show ?thesis by simp
  qed
qed

lemma add_cases:
  assumes "inv s"
  obtains r s' where "add s x = Inr (r, s')" "inv s'" "cap s' = cap s" "ok s' = ok s"
    "elems s' = (if x \<notin> elems s \<and> card (elems s) < cap s \<and> ok s x then insert x (elems s) else elems s)"
  using add_dup [OF assms, of x] add_reject [OF assms, of x] add_new [OF assms, of x] assms
  by (cases "x \<notin> elems s \<and> card (elems s) < cap s \<and> ok s x") (force simp: not_less)+

lemma rem_cases:
  assumes "inv s"
  obtains r s' where "rem s x = Inr (r, s')" "inv s'" "cap s' = cap s" "ok s' = ok s" "elems s' = elems s - {x}"
  using rem_none [OF assms, of x] rem_some [OF assms, of x] assms by (cases "x \<in> elems s") force+

lemma set_exec_refines:
  "inv s \<Longrightarrow> \<exists>s'. set_exec add rem has s cs = Inr s' \<and> inv s' \<and> elems s' = set_after (cap s) (ok s) (elems s) cs"
proof (induction cs arbitrary: s)
  case Nil
  then show ?case by simp
next
  case (Cons c cs)
  show ?case
  proof (cases c)
    case (Add x)
    obtain r s' where "add s x = Inr (r, s')" "inv s'" "cap s' = cap s" "ok s' = ok s" and e: "elems s' = (if x \<notin> elems s \<and> card (elems s) < cap s \<and> ok s x then insert x (elems s) else elems s)"
      by (rule add_cases [OF Cons.prems, of x])
    with Cons.IH [of s'] Add show ?thesis unfolding e by simp
  next
    case (Remove x)
    obtain r s' where "rem s x = Inr (r, s')" "inv s'" "cap s' = cap s" "ok s' = ok s" and e: "elems s' = elems s - {x}"
      by (rule rem_cases [OF Cons.prems, of x])
    with Cons.IH [of s'] Remove show ?thesis unfolding e by simp
  next
    case (Contains x)
    with Cons has_ok [of s x] show ?thesis by simp
  qed
qed

end

end
