(* ===== verification/Sparse_Set.thy ===== *)
theory Sparse_Set
  imports Bounded_Set
begin

text \<open>
  \<open>coding_challenges/sparse_set_for_huge_domain_ids.c\<close>: a set of 32-bit ids. The
  active ids are packed in \<open>dense\<close>; a two-level table (the high half of an id
  selects a leaf, the low half a slot) leads from an id to its place in \<open>dense\<close>,
  \<open>UINT32_MAX\<close> marks an unused slot, and leaves are allocated and freed on demand.

  An array of \<open>LEVEL_SIZE\<close> slots is a function on indices whose accesses are
  bounds-checked (\<open>tget\<close>, \<open>tput\<close>); a null leaf is \<open>None\<close>. \<open>dense\<close> comes
  from \<open>malloc\<close>, so a slot not yet written is \<open>None\<close>. The allocations of
  \<open>ss_create\<close> other than the first are taken to succeed; whether a leaf is granted
  is an argument of \<open>ss_add\<close>.
\<close>

section \<open>The data structure\<close>

definition LEVEL_SIZE :: u32 where
  "LEVEL_SIZE = push_bit 16 1"

abbreviation UINT32_MAX :: u32 where
  "UINT32_MAX \<equiv> - 1"

record sparse_set =
  dense :: "u32 option list"
  sparse :: "u32 \<Rightarrow> (u32 \<Rightarrow> u32) option"
  level2_counts :: "u32 \<Rightarrow> u32"
  ss_count :: u32
  max_active :: u32
  universe_size :: u32

definition tget :: "(u32 \<Rightarrow> 'a) \<Rightarrow> u32 \<Rightarrow> 'a cres" where
  "tget t i = (if i < LEVEL_SIZE then Inr (t i) else Inl Out_Of_Bounds)"

definition tput :: "(u32 \<Rightarrow> 'a) \<Rightarrow> u32 \<Rightarrow> 'a \<Rightarrow> (u32 \<Rightarrow> 'a) cres" where
  "tput t i x = (if i < LEVEL_SIZE then Inr (t(i := x)) else Inl Out_Of_Bounds)"

definition get_lvl1_idx :: "u32 \<Rightarrow> u32" where
  "get_lvl1_idx value = drop_bit 16 value"

definition get_lvl2_idx :: "u32 \<Rightarrow> u32" where
  "get_lvl2_idx value = value AND 0xFFFF"

definition ss_create :: "bool \<Rightarrow> u32 \<Rightarrow> u32 \<Rightarrow> sparse_set option" where
  "ss_create ok universe mx =
     (if ok then Some \<lparr>dense = replicate (unat mx) None, sparse = (\<lambda>_. None),
        level2_counts = (\<lambda>_. 0), ss_count = 0, max_active = mx, universe_size = universe\<rparr>
      else None)"

text \<open>Reading and writing through a leaf pointer that may be null.\<close>

definition leaf_get :: "sparse_set \<Rightarrow> u32 \<Rightarrow> u32 \<Rightarrow> u32 cres" where
  "leaf_get s l m = cbind (tget (sparse s) l) (\<lambda>p. case p of None \<Rightarrow> Inl Null_Deref | Some t \<Rightarrow> tget t m)"

definition leaf_put :: "sparse_set \<Rightarrow> u32 \<Rightarrow> u32 \<Rightarrow> u32 \<Rightarrow> sparse_set cres" where
  "leaf_put s l m i =
     cbind (tget (sparse s) l) (\<lambda>p. case p of None \<Rightarrow> Inl Null_Deref
       | Some t \<Rightarrow> cbind (tput t m i) (\<lambda>t'.
           cbind (tput (sparse s) l (Some t')) (\<lambda>sp. Inr (s\<lparr>sparse := sp\<rparr>))))"

definition dense_get :: "sparse_set \<Rightarrow> u32 \<Rightarrow> u32 cres" where
  "dense_get s i =
     cbind (arr_get (dense s) (unat i)) (\<lambda>v. case v of None \<Rightarrow> Inl Uninit_Read | Some v \<Rightarrow> Inr v)"

definition ss_contains :: "sparse_set \<Rightarrow> u32 \<Rightarrow> bool cres" where
  "ss_contains s value =
     (let lvl1_idx = get_lvl1_idx value in
      cbind (tget (sparse s) lvl1_idx) (\<lambda>p.
        if p = None then Inr False
        else let lvl2_idx = get_lvl2_idx value in
          cbind (leaf_get s lvl1_idx lvl2_idx) (\<lambda>i. Inr (i \<noteq> UINT32_MAX))))"

definition ss_add :: "bool \<Rightarrow> sparse_set \<Rightarrow> u32 \<Rightarrow> (int \<times> sparse_set) cres" where
  "ss_add ok s value =
     cbind (ss_contains s value) (\<lambda>dup.
     if dup then Inr (0, s)
     else if max_active s \<le> ss_count s \<or> universe_size s < value then Inr (- 1, s)
     else let lvl1_idx = get_lvl1_idx value in
       cbind (tget (sparse s) lvl1_idx) (\<lambda>p.
       cbind (if p = None then
                if ok then cbind (tput (sparse s) lvl1_idx (Some (\<lambda>_. - 1))) (\<lambda>sp. Inr (s\<lparr>sparse := sp\<rparr>))
                else Inl Null_Deref
              else Inr s) (\<lambda>s.
       let lvl2_idx = get_lvl2_idx value in
       cbind (leaf_put s lvl1_idx lvl2_idx (ss_count s)) (\<lambda>s.
       cbind (arr_set (dense s) (unat (ss_count s)) (Some value)) (\<lambda>d.
       cbind (tget (level2_counts s) lvl1_idx) (\<lambda>c.
       cbind (tput (level2_counts s) lvl1_idx (c + 1)) (\<lambda>cs.
         Inr (0, s\<lparr>dense := d, ss_count := ss_count s + 1, level2_counts := cs\<rparr>))))))))"

definition ss_remove :: "sparse_set \<Rightarrow> u32 \<Rightarrow> (int \<times> sparse_set) cres" where
  "ss_remove s value =
     cbind (ss_contains s value) (\<lambda>present.
     if \<not> present then Inr (- 1, s)
     else let lvl1_idx = get_lvl1_idx value; lvl2_idx = get_lvl2_idx value in
       cbind (leaf_get s lvl1_idx lvl2_idx) (\<lambda>dense_idx.
       cbind (dense_get s (ss_count s - 1)) (\<lambda>moved_val.
       cbind (arr_set (dense s) (unat dense_idx) (Some moved_val)) (\<lambda>d.
       cbind (leaf_put (s\<lparr>dense := d\<rparr>) (get_lvl1_idx moved_val) (get_lvl2_idx moved_val) dense_idx) (\<lambda>s.
       cbind (leaf_put s lvl1_idx lvl2_idx UINT32_MAX) (\<lambda>s.
       cbind (tget (level2_counts s) lvl1_idx) (\<lambda>c.
       cbind (tput (level2_counts s) lvl1_idx (c - 1)) (\<lambda>cs.
       let s = s\<lparr>level2_counts := cs, ss_count := ss_count s - 1\<rparr> in
       if c - 1 = 0 then cbind (tput (sparse s) lvl1_idx None) (\<lambda>sp. Inr (0, s\<lparr>sparse := sp\<rparr>))
       else Inr (0, s)))))))))"

text \<open>
  \<open>memset(level2_counts, 0, LEVEL_SIZE)\<close> clears \<open>LEVEL_SIZE\<close> bytes, which are
  the first \<open>LEVEL_SIZE / 4\<close> of the four-byte counters.
\<close>

definition ss_clear :: "sparse_set \<Rightarrow> sparse_set" where
  "ss_clear s = s\<lparr>sparse := (\<lambda>i. if i < LEVEL_SIZE then None else sparse s i),
      level2_counts := (\<lambda>i. if i < LEVEL_SIZE div 4 then 0 else level2_counts s i),
      ss_count := 0\<rparr>"

text \<open>\<open>ss_destroy\<close> returns nothing but the blocks it frees, in order; those of \<open>ss_clear\<close> come first.\<close>

datatype ss_block = Leaf_Table u32 | Dense_Array | Sparse_Array | Level2_Counts | Set_Struct

definition ss_clear_frees :: "sparse_set \<Rightarrow> ss_block list" where
  "ss_clear_frees s = map Leaf_Table (filter (\<lambda>i. sparse s i \<noteq> None) (map word_of_nat [0..<unat LEVEL_SIZE]))"

definition ss_destroy :: "sparse_set \<Rightarrow> ss_block list" where
  "ss_destroy s = ss_clear_frees s @ [Dense_Array, Sparse_Array, Level2_Counts, Set_Struct]"

section \<open>Invariant\<close>

lemma lvl_bounds [simp]: "get_lvl1_idx v < LEVEL_SIZE" "get_lvl2_idx v < LEVEL_SIZE"
proof -
  have "unat (get_lvl1_idx v) < 65536"
    using unat_bound [of v] by (simp add: get_lvl1_idx_def drop_bit_eq_div unat_div)
  then show "get_lvl1_idx v < LEVEL_SIZE" by (simp add: LEVEL_SIZE_def word_less_nat_alt)
  have "v AND 0xFFFF \<le> 0xFFFF" by (rule word_and_le1)
  then show "get_lvl2_idx v < LEVEL_SIZE"
    unfolding get_lvl2_idx_def LEVEL_SIZE_def by (rule order_le_less_trans) simp
qed

lemma lvl_join: "push_bit 16 (get_lvl1_idx v) OR get_lvl2_idx v = v"
proof -
  have m: "(0xFFFF :: u32) = mask 16" by (simp add: mask_eq_exp_minus_1)
  show ?thesis
    unfolding get_lvl1_idx_def get_lvl2_idx_def m by (rule bit_word_eqI) (auto simp: bit_simps)
qed

lemma lvl_inj: "get_lvl1_idx v = get_lvl1_idx w \<Longrightarrow> get_lvl2_idx v = get_lvl2_idx w \<Longrightarrow> v = w"
  by (metis lvl_join)

lemma tget_ok [simp]: "i < LEVEL_SIZE \<Longrightarrow> tget t i = Inr (t i)"
  by (simp add: tget_def)

lemma tput_ok [simp]: "i < LEVEL_SIZE \<Longrightarrow> tput t i x = Inr (t(i := x))"
  by (simp add: tput_def)

text \<open>Where the table says an id is.\<close>

definition ss_idx :: "sparse_set \<Rightarrow> u32 \<Rightarrow> u32 option" where
  "ss_idx s v = (case sparse s (get_lvl1_idx v) of None \<Rightarrow> None
     | Some t \<Rightarrow> if t (get_lvl2_idx v) = UINT32_MAX then None else Some (t (get_lvl2_idx v)))"

definition active :: "sparse_set \<Rightarrow> u32 set" where
  "active s = {v. ss_idx s v \<noteq> None}"

definition leaf_of :: "sparse_set \<Rightarrow> u32 \<Rightarrow> u32 set" where
  "leaf_of s l = {v \<in> active s. get_lvl1_idx v = l}"

text \<open>The table and the used part of \<open>dense\<close> are inverse to each other.\<close>

definition linked :: "sparse_set \<Rightarrow> bool" where
  "linked s \<longleftrightarrow> (\<forall>v i. ss_idx s v = Some i \<longleftrightarrow> i < ss_count s \<and> dense s ! unat i = Some v)
     \<and> (\<forall>i < ss_count s. dense s ! unat i \<noteq> None)"

text \<open>The leaf counters are right and no leaf is kept without need.\<close>

definition leaves_ok :: "sparse_set \<Rightarrow> bool" where
  "leaves_ok s \<longleftrightarrow> (\<forall>l < LEVEL_SIZE. level2_counts s l = of_nat (card (leaf_of s l))
     \<and> (sparse s l \<noteq> None \<longrightarrow> leaf_of s l \<noteq> {}))"

definition ss_inv :: "sparse_set \<Rightarrow> bool" where
  "ss_inv s \<longleftrightarrow> length (dense s) = unat (max_active s) \<and> ss_count s \<le> max_active s \<and> linked s \<and> leaves_ok s"

lemma linkedD: "linked s \<Longrightarrow> ss_idx s v = Some i \<longleftrightarrow> i < ss_count s \<and> dense s ! unat i = Some v"
  by (simp add: linked_def)

lemma linked_dense: "linked s \<Longrightarrow> i < ss_count s \<Longrightarrow> \<exists>v. dense s ! unat i = Some v \<and> ss_idx s v = Some i"
  by (auto simp: linked_def)

lemma active_eq_dense:
  assumes "linked s"
  shows "active s = {v. \<exists>i < ss_count s. dense s ! unat i = Some v}"
  using linkedD [OF assms] by (auto simp: active_def)

text \<open>Walking \<open>dense[0..count)\<close> visits every active id exactly once.\<close>

lemma linked_take:
  assumes "linked s" "unat (ss_count s) \<le> length (dense s)"
  shows "Some ` active s = set (take (unat (ss_count s)) (dense s))"
    and "distinct (take (unat (ss_count s)) (dense s))"
proof -
  let ?n = "unat (ss_count s)"
  have idx: "of_nat j < ss_count s" "unat (of_nat j :: u32) = j" if "j < ?n" for j
    using that unat_bound [of "ss_count s"] by (simp_all add: word_less_nat_alt unat_of_nat)
  show "Some ` active s = set (take ?n (dense s))"
  proof (intro set_eqI iffI)
    fix x
    assume "x \<in> Some ` active s"
    then obtain i where "i < ss_count s" "dense s ! unat i = x"
      using active_eq_dense [OF assms(1)] by auto
    then show "x \<in> set (take ?n (dense s))"
      using assms(2) by (auto simp: in_set_conv_nth word_less_nat_alt)
  next
    fix x
    assume "x \<in> set (take ?n (dense s))"
    then obtain j where "j < ?n" "dense s ! j = x" by (auto simp: in_set_conv_nth)
    with idx [of j] linked_dense [OF assms(1), of "of_nat j"] show "x \<in> Some ` active s"
      by (auto simp: active_def)
  qed
  show "distinct (take ?n (dense s))"
  proof (clarsimp simp: distinct_conv_nth)
    fix i j
    assume "i < length (dense s)" "i < ?n" "j < length (dense s)" "j < ?n" "i \<noteq> j"
      and "dense s ! i = dense s ! j"
    moreover from idx [OF \<open>i < ?n\<close>] linked_dense [OF assms(1), of "of_nat i"] obtain v where
      "dense s ! i = Some v" "ss_idx s v = Some (of_nat i)" by auto
    ultimately have "(of_nat i :: u32) = of_nat j"
      using idx [OF \<open>j < ?n\<close>] linkedD [OF assms(1), of v "of_nat j"] by simp
    then have "unat (of_nat i :: u32) = unat (of_nat j :: u32)" by simp
    with idx(2) [OF \<open>i < ?n\<close>] idx(2) [OF \<open>j < ?n\<close>] \<open>i \<noteq> j\<close> show False by simp
  qed
qed

lemma card_active:
  assumes "linked s" "unat (ss_count s) \<le> length (dense s)"
  shows "card (active s) = unat (ss_count s)"
proof -
  have "card (active s) = card (Some ` active s)" by (simp add: card_image)
  also have "\<dots> = length (take (unat (ss_count s)) (dense s))"
    unfolding linked_take(1) [OF assms] by (rule distinct_card) (rule linked_take(2) [OF assms])
  finally show ?thesis using assms(2) by simp
qed

lemma ss_invD:
  assumes "ss_inv s"
  shows "linked s" "leaves_ok s" "unat (ss_count s) \<le> length (dense s)"
    "card (active s) = unat (ss_count s)" "length (dense s) = unat (max_active s)"
  using assms card_active [of s] by (simp_all add: ss_inv_def word_le_nat_alt)

lemma leaf_finite [simp]: "finite (leaf_of s l)"
  by (rule finite_subset [OF subset_UNIV]) simp

lemma card_level: "card {..<LEVEL_SIZE} \<le> 65536"
proof -
  have "{..<LEVEL_SIZE} \<subseteq> of_nat ` {..<65536::nat}"
  proof
    fix x
    assume "x \<in> {..<LEVEL_SIZE}"
    then have "unat x < 65536" by (simp add: LEVEL_SIZE_def word_less_nat_alt)
    then show "x \<in> of_nat ` {..<65536::nat}" by (intro image_eqI [of _ _ "unat x"]) simp_all
  qed
  from surj_card_le [OF finite_lessThan this] show ?thesis by (simp only: card_lessThan)
qed

lemma leaf_card_less: "card (leaf_of s l) < 2 ^ 32"
proof -
  have "card (leaf_of s l) \<le> card {..<LEVEL_SIZE}"
  proof (rule card_inj_on_le)
    show "inj_on get_lvl2_idx (leaf_of s l)" by (auto simp: inj_on_def leaf_of_def intro: lvl_inj)
  qed auto
  with card_level show ?thesis by simp
qed

section \<open>Operations on a well-formed set\<close>

lemma ss_contains_eq: "ss_contains s v = Inr (v \<in> active s)"
  by (auto simp: ss_contains_def leaf_get_def active_def ss_idx_def split: option.splits)

lemma ss_create_inv:
  "ss_create True u mx = Some s \<Longrightarrow> ss_inv s \<and> active s = {} \<and> universe_size s = u \<and> max_active s = mx"
  by (auto simp: ss_create_def ss_inv_def linked_def leaves_ok_def ss_idx_def active_def leaf_of_def)

lemma leaf_put_ok:
  "sparse s l = Some t \<Longrightarrow> l < LEVEL_SIZE \<Longrightarrow> m < LEVEL_SIZE \<Longrightarrow>
   leaf_put s l m i = Inr (s\<lparr>sparse := (sparse s)(l := Some (t(m := i)))\<rparr>)"
  by (simp add: leaf_put_def)

text \<open>Writing the slot of one id changes the index of that id only.\<close>

lemma ss_idx_write:
  assumes "sparse s' = (sparse s)(get_lvl1_idx v := Some (t(get_lvl2_idx v := i)))"
    and "sparse s (get_lvl1_idx v) = Some t \<or> (sparse s (get_lvl1_idx v) = None \<and> t = (\<lambda>_. UINT32_MAX))"
  shows "ss_idx s' w = (if w = v then if i = UINT32_MAX then None else Some i else ss_idx s w)"
  using assms lvl_inj [of v w] by (auto simp: ss_idx_def)

lemma leaves_ok_insert:
  assumes "leaves_ok s" "v \<notin> active s" "active s' = insert v (active s)"
    and "level2_counts s' = (level2_counts s)(get_lvl1_idx v := level2_counts s (get_lvl1_idx v) + 1)"
    and "\<And>l. l \<noteq> get_lvl1_idx v \<Longrightarrow> sparse s' l = sparse s l"
  shows "leaves_ok s'"
proof -
  have same: "leaf_of s' l = leaf_of s l" if "l \<noteq> get_lvl1_idx v" for l
    using that assms(3) by (auto simp: leaf_of_def)
  have "leaf_of s' (get_lvl1_idx v) = insert v (leaf_of s (get_lvl1_idx v))" "v \<notin> leaf_of s (get_lvl1_idx v)"
    using assms(2,3) by (auto simp: leaf_of_def)
  with assms(1,4,5) same show ?thesis by (auto simp: leaves_ok_def)
qed

lemma linked_insert:
  assumes "linked s" "ss_count s < max_active s" "length (dense s) = unat (max_active s)"
    and idx: "\<And>w. ss_idx s' w = (if w = v then Some (ss_count s) else ss_idx s w)"
    and v: "v \<notin> active s"
    and "dense s' = (dense s)[unat (ss_count s) := Some v]" "ss_count s' = ss_count s + 1"
  shows "linked s'"
proof -
  have len: "unat (ss_count s) < length (dense s)" using assms(2,3) by (simp add: word_less_nat_alt)
  have nth: "dense s' ! unat i = (if i = ss_count s then Some v else dense s ! unat i)" for i
    using assms(6) len by (auto simp: nth_list_update word_unat_eq_iff)
  have "dense s ! unat i \<noteq> Some v" if "i < ss_count s" for i
    using that v linkedD [OF assms(1), of v i] by (auto simp: active_def)
  with nth idx linkedD [OF assms(1)] linked_dense [OF assms(1)] show ?thesis
    unfolding linked_def assms(7) less_plus_one [OF assms(2)] by auto
qed

lemma ss_add_new:
  assumes inv: "ss_inv s" and v: "v \<notin> active s" and room: "card (active s) < unat (max_active s)"
    and u: "v \<le> universe_size s"
  shows "\<exists>s'. ss_add True s v = Inr (0, s') \<and> ss_inv s' \<and> active s' = insert v (active s)
       \<and> max_active s' = max_active s \<and> universe_size s' = universe_size s"
proof -
  note D = ss_invD [OF inv]
  have c: "ss_count s < max_active s" using room D(4) by (simp add: word_less_nat_alt)
  have len: "unat (ss_count s) < length (dense s)" using c D(5) by (simp add: word_less_nat_alt)
  let ?l = "get_lvl1_idx v" and ?m = "get_lvl2_idx v"
  define t where "t = (case sparse s ?l of None \<Rightarrow> (\<lambda>_. UINT32_MAX) | Some t \<Rightarrow> t)"
  define s' where "s' = s\<lparr>sparse := (sparse s)(?l := Some (t(?m := ss_count s))),
      dense := (dense s)[unat (ss_count s) := Some v],
      ss_count := ss_count s + 1, level2_counts := (level2_counts s)(?l := level2_counts s ?l + 1)\<rparr>"
  have run: "ss_add True s v = Inr (0, s')"
    using v c u len by (cases "sparse s ?l")
      (simp_all add: ss_add_def ss_contains_eq leaf_put_ok s'_def t_def Let_def not_le)
  have "ss_count s \<noteq> UINT32_MAX" using c by (metis word_order.extremum_strict)
  then have idx: "ss_idx s' w = (if w = v then Some (ss_count s) else ss_idx s w)" for w
    using ss_idx_write [of s' s v t "ss_count s" w] by (auto simp: s'_def t_def split: option.splits)
  then have act: "active s' = insert v (active s)" by (auto simp: active_def)
  have "linked s'" by (rule linked_insert [OF D(1) c D(5) idx v]) (simp_all add: s'_def)
  moreover have "leaves_ok s'" by (rule leaves_ok_insert [OF D(2) v act]) (simp_all add: s'_def)
  moreover have "ss_count s + 1 \<le> max_active s"
    using c by (metis inc_le)
  ultimately show ?thesis using run act D(5) by (auto simp: ss_inv_def s'_def)
qed

lemma linked_remove:
  assumes lk: "linked s" and len: "unat (ss_count s) \<le> length (dense s)"
    and d: "ss_idx s v = Some d" and w: "dense s ! unat (ss_count s - 1) = Some w"
    and idx: "\<And>u. ss_idx s' u = (if u = v then None else if u = w then Some d else ss_idx s u)"
    and "dense s' = (dense s)[unat d := Some w]" "ss_count s' = ss_count s - 1"
  shows "linked s'"
proof -
  from d linkedD [OF lk] have d_less: "d < ss_count s" and dv: "dense s ! unat d = Some v" by auto
  have pos: "0 < ss_count s" using d_less by (metis word_gt_0 word_not_simps(1))
  then have w_idx: "ss_idx s w = Some (ss_count s - 1)"
    using w linkedD [OF lk, of w] by (simp add: word_less_nat_alt unat_pred)
  have nth: "dense s' ! unat i = (if i = d then Some w else dense s ! unat i)" if "i < ss_count s" for i
    using that assms(6) len d_less by (auto simp: nth_list_update word_less_nat_alt word_unat_eq_iff)
  have vw: "v = w \<longleftrightarrow> d = ss_count s - 1" using d w_idx dv w by auto
  have uniq: "i = j" if "i < ss_count s" "j < ss_count s" "dense s ! unat i = Some u" "dense s ! unat j = Some u"
    for i j u using that linkedD [OF lk, of u] by (metis option.inject)
  have "ss_idx s' u = Some i \<longleftrightarrow> i < ss_count s - 1 \<and> dense s' ! unat i = Some u" for u i
    unfolding less_minus_one [OF pos] using idx [of u] nth [of i] linkedD [OF lk, of u i] vw d_less dv w w_idx d
      uniq [of i d u] uniq [of i "ss_count s - 1" u]
    by (cases "i < ss_count s"; cases "i = d"; cases "u = v"; cases "u = w") auto
  moreover have "dense s' ! unat i \<noteq> None" if "i < ss_count s - 1" for i
    using that nth [of i] linked_dense [OF lk, of i] unfolding less_minus_one [OF pos] by auto
  ultimately show ?thesis unfolding linked_def assms(7) by blast
qed

lemma leaves_ok_remove:
  assumes "leaves_ok s" "v \<in> active s" "active s' = active s - {v}"
    and "level2_counts s' = (level2_counts s)(get_lvl1_idx v := level2_counts s (get_lvl1_idx v) - 1)"
    and "\<And>l. sparse s' l \<noteq> None \<Longrightarrow> sparse s l \<noteq> None"
    and "level2_counts s' (get_lvl1_idx v) = 0 \<Longrightarrow> sparse s' (get_lvl1_idx v) = None"
  shows "leaves_ok s'"
  unfolding leaves_ok_def
proof (intro allI impI)
  fix l
  assume l: "l < LEVEL_SIZE"
  show "level2_counts s' l = of_nat (card (leaf_of s' l)) \<and> (sparse s' l \<noteq> None \<longrightarrow> leaf_of s' l \<noteq> {})"
  proof (cases "l = get_lvl1_idx v")
    case False
    then have "leaf_of s' l = leaf_of s l" using assms(3) by (auto simp: leaf_of_def)
    with False l assms(1,4,5) show ?thesis by (auto simp: leaves_ok_def)
  next
    case True
    have "leaf_of s' l = leaf_of s l - {v}" "v \<in> leaf_of s l"
      using True assms(2,3) by (auto simp: leaf_of_def)
    then have "card (leaf_of s l) = Suc (card (leaf_of s' l))"
      by (metis card_Suc_Diff1 leaf_finite)
    with assms(1,4) l True have "level2_counts s' l = of_nat (card (leaf_of s' l))"
      by (simp add: leaves_ok_def)
    with assms(6) True show ?thesis by auto
  qed
qed

text \<open>A leaf none of whose ids is active can go without changing any index.\<close>

lemma ss_idx_drop_leaf:
  assumes "sparse s' = (sparse s)(l := None)" "\<And>v. get_lvl1_idx v = l \<Longrightarrow> ss_idx s v = None"
  shows "ss_idx s' v = ss_idx s v"
  using assms by (auto simp: ss_idx_def)

lemma last_of_leaf:
  assumes "leaves_ok s" "v \<in> active s" "active s' = active s - {v}"
    and "level2_counts s (get_lvl1_idx v) - 1 = 0" "get_lvl1_idx u = get_lvl1_idx v"
  shows "ss_idx s' u = None"
proof -
  let ?l = "get_lvl1_idx v"
  have "leaf_of s' ?l = leaf_of s ?l - {v}" "v \<in> leaf_of s ?l"
    using assms(2,3) by (auto simp: leaf_of_def)
  then have "card (leaf_of s ?l) = Suc (card (leaf_of s' ?l))" by (metis card_Suc_Diff1 leaf_finite)
  then have "of_nat (card (leaf_of s' ?l)) = (0 :: u32)"
    using assms(1,4) by (simp add: leaves_ok_def)
  then have "unat (of_nat (card (leaf_of s' ?l)) :: u32) = 0" by simp
  then have "leaf_of s' ?l = {}"
    using leaf_card_less [of s' ?l] by (simp add: unat_of_nat)
  then show ?thesis using assms(5) by (auto simp: leaf_of_def active_def)
qed

lemma ss_remove_run:
  assumes inv: "ss_inv s" and v: "v \<in> active s"
  obtains d w s2 where "ss_idx s v = Some d" "dense s ! unat (ss_count s - 1) = Some w"
    and "\<And>u. ss_idx s2 u = (if u = v then None else if u = w then Some d else ss_idx s u)"
    and "dense s2 = (dense s)[unat d := Some w]" "ss_count s2 = ss_count s - 1"
    and "max_active s2 = max_active s" "universe_size s2 = universe_size s"
    and "level2_counts s2 = (level2_counts s)(get_lvl1_idx v := level2_counts s (get_lvl1_idx v) - 1)"
    and "\<And>l. sparse s2 l \<noteq> None \<Longrightarrow> sparse s l \<noteq> None"
    and "ss_remove s v = Inr (0, if level2_counts s2 (get_lvl1_idx v) = 0
           then s2\<lparr>sparse := (sparse s2)(get_lvl1_idx v := None)\<rparr> else s2)"
proof -
  note D = ss_invD [OF inv]
  obtain d where d: "ss_idx s v = Some d" using v by (auto simp: active_def)
  with linkedD [OF D(1)] have d_less: "d < ss_count s" by auto
  then have pos: "0 < ss_count s" by (metis word_gt_0 word_not_simps(1))
  then have last: "ss_count s - 1 < ss_count s" by (simp add: word_less_nat_alt unat_pred)
  from linked_dense [OF D(1) last] obtain w where
    w: "dense s ! unat (ss_count s - 1) = Some w" "ss_idx s w = Some (ss_count s - 1)" by blast
  obtain tv tw where t: "sparse s (get_lvl1_idx v) = Some tv" "tv (get_lvl2_idx v) = d"
    "sparse s (get_lvl1_idx w) = Some tw" "d \<noteq> UINT32_MAX"
    using d w(2) by (auto simp: ss_idx_def split: option.splits if_splits)
  let ?s1 = "s\<lparr>dense := (dense s)[unat d := Some w],
               sparse := (sparse s)(get_lvl1_idx w := Some (tw(get_lvl2_idx w := d)))\<rparr>"
  have "sparse ?s1 (get_lvl1_idx v) \<noteq> None" using t(1) by simp
  then obtain t1 where t1: "sparse ?s1 (get_lvl1_idx v) = Some t1" by blast
  let ?s2 = "?s1\<lparr>sparse := (sparse ?s1)(get_lvl1_idx v := Some (t1(get_lvl2_idx v := UINT32_MAX))),
               level2_counts := (level2_counts s)(get_lvl1_idx v := level2_counts s (get_lvl1_idx v) - 1),
               ss_count := ss_count s - 1\<rparr>"
  have len: "unat d < length (dense s)" "unat (ss_count s - 1) < length (dense s)"
    using d_less last D(3) by (auto simp: word_less_nat_alt)
  have idx1: "ss_idx ?s1 u = (if u = w then Some d else ss_idx s u)" for u
    using ss_idx_write [of ?s1 s w tw d u] t by simp
  have idx2: "ss_idx ?s2 u = (if u = v then None else ss_idx ?s1 u)" for u
    using ss_idx_write [of ?s2 ?s1 v t1 UINT32_MAX u] t1 by simp
  have run: "ss_remove s v = Inr (0, if level2_counts ?s2 (get_lvl1_idx v) = 0
           then ?s2\<lparr>sparse := (sparse ?s2)(get_lvl1_idx v := None)\<rparr> else ?s2)"
    using v t t1 w(1) len by (simp add: ss_remove_def ss_contains_eq leaf_get_def dense_get_def leaf_put_ok Let_def)
  show thesis
    by (rule that [OF d w(1), of ?s2]) (use idx1 idx2 run t t1 in \<open>auto split: if_splits\<close>)
qed

lemma ss_remove_some:
  assumes inv: "ss_inv s" and v: "v \<in> active s"
  shows "\<exists>s'. ss_remove s v = Inr (0, s') \<and> ss_inv s' \<and> active s' = active s - {v}
       \<and> max_active s' = max_active s \<and> universe_size s' = universe_size s"
proof -
  note D = ss_invD [OF inv]
  from ss_remove_run [OF inv v] obtain d w s2 where
    d: "ss_idx s v = Some d" "dense s ! unat (ss_count s - 1) = Some w"
    and idx: "\<And>u. ss_idx s2 u = (if u = v then None else if u = w then Some d else ss_idx s u)"
    and f: "dense s2 = (dense s)[unat d := Some w]" "ss_count s2 = ss_count s - 1"
      "max_active s2 = max_active s" "universe_size s2 = universe_size s"
      "level2_counts s2 = (level2_counts s)(get_lvl1_idx v := level2_counts s (get_lvl1_idx v) - 1)"
      "\<And>l. sparse s2 l \<noteq> None \<Longrightarrow> sparse s l \<noteq> None"
    and run: "ss_remove s v = Inr (0, if level2_counts s2 (get_lvl1_idx v) = 0
           then s2\<lparr>sparse := (sparse s2)(get_lvl1_idx v := None)\<rparr> else s2)" by blast
  let ?l = "get_lvl1_idx v"
  define s' where "s' = (if level2_counts s2 ?l = 0 then s2\<lparr>sparse := (sparse s2)(?l := None)\<rparr> else s2)"
  have pos: "0 < ss_count s" using d(1) linkedD [OF D(1)] by (metis word_gt_0 word_not_simps(1))
  have "ss_count s - 1 < ss_count s" using pos by (simp add: word_less_nat_alt unat_pred)
  with d(2) have w_act: "w \<in> active s" unfolding active_eq_dense [OF D(1)] by blast
  have act2: "active s2 = active s - {v}" using idx w_act by (auto simp: active_def)
  have idx': "ss_idx s' u = ss_idx s2 u" for u
    using ss_idx_drop_leaf [of s' s2 ?l u] last_of_leaf [OF D(2) v act2] f(5) by (auto simp: s'_def)
  then have act: "active s' = active s - {v}" using act2 by (simp add: active_def)
  have "linked s'"
    by (rule linked_remove [OF D(1) D(3) d]) (use idx idx' f in \<open>auto simp: s'_def\<close>)
  moreover have "leaves_ok s'"
    by (rule leaves_ok_remove [OF D(2) v act]) (use f in \<open>auto simp: s'_def split: if_splits\<close>)
  moreover have "ss_count s - 1 \<le> max_active s" "length (dense s') = unat (max_active s')"
    using inv pos f by (auto simp: ss_inv_def s'_def word_le_nat_alt unat_pred)
  ultimately have "ss_inv s'" using f by (simp add: ss_inv_def s'_def)
  with run act f show ?thesis by (auto simp: s'_def)
qed

interpretation ss_set: bounded_set "ss_add True" ss_remove ss_contains active ss_inv
  "\<lambda>s. unat (max_active s)" "\<lambda>s v. v \<le> universe_size s"
proof
  fix s v
  assume inv: "ss_inv s"
  show "ss_contains s v = Inr (v \<in> active s)" by (rule ss_contains_eq)
  show "ss_add True s v = Inr (0, s)" if "v \<in> active s"
    using that by (simp add: ss_add_def ss_contains_eq)
  show "ss_add True s v = Inr (- 1, s)"
    if "v \<notin> active s" "unat (max_active s) \<le> card (active s) \<or> \<not> v \<le> universe_size s"
    using that ss_invD(4) [OF inv] by (auto simp: ss_add_def ss_contains_eq word_le_nat_alt word_less_nat_alt not_le)
  show "ss_remove s v = Inr (- 1, s)" if "v \<notin> active s"
    using that by (simp add: ss_remove_def ss_contains_eq)
  show "\<exists>s'. ss_add True s v = Inr (0, s') \<and> ss_inv s' \<and> active s' = insert v (active s)
      \<and> unat (max_active s') = unat (max_active s) \<and> (\<lambda>v. v \<le> universe_size s') = (\<lambda>v. v \<le> universe_size s)"
    if "v \<notin> active s" "card (active s) < unat (max_active s)" "v \<le> universe_size s"
    using ss_add_new [OF inv that] by auto
  show "\<exists>s'. ss_remove s v = Inr (0, s') \<and> ss_inv s' \<and> active s' = active s - {v}
      \<and> unat (max_active s') = unat (max_active s) \<and> (\<lambda>v. v \<le> universe_size s') = (\<lambda>v. v \<le> universe_size s)"
    if "v \<in> active s"
    using ss_remove_some [OF inv that] by auto
qed

section \<open>Properties\<close>

text \<open>
  C4. On a set fresh from \<open>ss_create\<close>, any sequence of \<open>ss_add\<close>, \<open>ss_remove\<close>
  and \<open>ss_contains\<close> calls is free of undefined steps (null leaves, slots outside an
  array, unwritten slots) and returns what a mathematical set of at most
  \<open>max_active\<close> ids returns, where \<open>ss_add\<close> takes ids up to and including
  \<open>universe_size\<close> and answers 0 for an id that is present. In both points it departs
  from the requirements at the end of the file, which reject an id outside the universe
  and a duplicate. As long as the calls add no id twice and never the id
  \<open>universe_size\<close>, all replies are those of the requirements.
\<close>

theorem ss_refines_set:
  assumes "ss_create True universe mx = Some s"
  shows "set_run (ss_add True) ss_remove ss_contains s cs
         = Inr (set_spec (unat mx) (\<lambda>v. v \<le> universe) {} cs)
       \<and> (Add universe \<notin> set cs \<and> no_duplicate_adds (unat mx) (\<lambda>v. v < universe) {} cs \<longrightarrow>
          set_run (ss_add True) ss_remove ss_contains s cs
            = Inr (required_replies (unat mx) (\<lambda>v. v < universe) {} cs))"
proof -
  have "ss_inv s" "active s = {}" "universe_size s = universe" "max_active s = mx"
    using ss_create_inv [OF assms] by simp_all
  with ss_set.set_run_refines [of s cs]
  have run: "set_run (ss_add True) ss_remove ss_contains s cs = Inr (set_spec (unat mx) (\<lambda>v. v \<le> universe) {} cs)"
    by simp
  moreover have "set_spec (unat mx) (\<lambda>v. v \<le> universe) {} cs = set_spec (unat mx) (\<lambda>v. v < universe) {} cs"
    if "Add universe \<notin> set cs"
    using that by (intro set_spec_ok_cong) (metis order.order_iff_strict)
  ultimately show ?thesis by (simp add: set_spec_required)
qed

definition ss_fresh :: "u32 \<Rightarrow> u32 \<Rightarrow> sparse_set" where
  "ss_fresh universe mx = \<lparr>dense = replicate (unat mx) None, sparse = (\<lambda>_. None),
        level2_counts = (\<lambda>_. 0), ss_count = 0, max_active = mx, universe_size = universe\<rparr>"

lemma ss_create_fresh: "ss_create True universe mx = Some (ss_fresh universe mx)"
  by (simp add: ss_create_def ss_fresh_def)

theorem ss_refines_set_witness:
  "ss_create True 0x20005 2 = Some (ss_fresh 0x20005 2)
   \<and> set_run (ss_add True) ss_remove ss_contains (ss_fresh 0x20005 2)
       [Add 0x20005, Add 7, Add 7, Add 8, Remove 0x20005, Contains 7, Add 0x20006, Add 8]
     = Inr [Code 0, Code 0, Code 0, Code (- 1), Code 0, Answer True, Code (- 1), Code 0]
   \<and> set_run (ss_add True) ss_remove ss_contains (ss_fresh 0x20005 2)
       [Add 0x20004, Add 7, Add 8, Remove 0x20004, Contains 7, Add 0x20006, Add 8]
     = Inr [Code 0, Code 0, Code (- 1), Code 0, Answer True, Code (- 1), Code 0]
   \<and> required_replies 2 (\<lambda>v. v < 0x20005) {}
       [Add (0x20004 :: u32), Add 7, Add 8, Remove 0x20004, Contains 7, Add 0x20006, Add 8]
     = [Code 0, Code 0, Code (- 1), Code 0, Answer True, Code (- 1), Code 0]"
  using ss_refines_set [OF ss_create_fresh [of "0x20005" 2],
      of "[Add 0x20005, Add 7, Add 7, Add 8, Remove 0x20005, Contains 7, Add 0x20006, Add 8]"]
    ss_refines_set [OF ss_create_fresh [of "0x20005" 2],
      of "[Add 0x20004, Add 7, Add 8, Remove 0x20004, Contains 7, Add 0x20006, Add 8]"]
  by (simp add: ss_create_fresh del: cbind_eq_Inr set_run.simps)

lemma leaf_iff:
  assumes "ss_inv s" "l < LEVEL_SIZE"
  shows "sparse s l \<noteq> None \<longleftrightarrow> (\<exists>v \<in> active s. get_lvl1_idx v = l)"
proof
  assume "sparse s l \<noteq> None"
  with assms(2) ss_invD(2) [OF assms(1)] have "leaf_of s l \<noteq> {}" by (simp add: leaves_ok_def)
  then show "\<exists>v \<in> active s. get_lvl1_idx v = l" by (auto simp: leaf_of_def)
next
  assume "\<exists>v \<in> active s. get_lvl1_idx v = l"
  then show "sparse s l \<noteq> None" by (auto simp: active_def ss_idx_def split: option.splits)
qed

lemma level_indices: "set (map word_of_nat [0..<unat LEVEL_SIZE]) = {..<LEVEL_SIZE}"
  "distinct (map word_of_nat [0..<unat LEVEL_SIZE] :: u32 list)"
proof -
  have "l \<in> word_of_nat ` {..<unat LEVEL_SIZE}" if "l < LEVEL_SIZE" for l :: u32
    using that by (intro image_eqI [where x = "unat l"]) (simp_all add: word_less_nat_alt)
  moreover have "word_of_nat n < LEVEL_SIZE" if "n < unat LEVEL_SIZE" for n
    using that by (simp add: word_less_nat_alt unat_of_nat LEVEL_SIZE_def)
  ultimately show "set (map word_of_nat [0..<unat LEVEL_SIZE]) = {..<LEVEL_SIZE}"
    by (auto simp: lessThan_atLeast0)
  have "inj_on (word_of_nat :: nat \<Rightarrow> u32) {..<unat LEVEL_SIZE}"
    by (intro inj_onI) (simp add: word_of_nat_eq_iff LEVEL_SIZE_def take_bit_nat_eq_self)
  then show "distinct (map word_of_nat [0..<unat LEVEL_SIZE] :: u32 list)"
    by (simp add: distinct_map lessThan_atLeast0)
qed

text \<open>
  \<open>ss_destroy\<close> frees no block twice, and frees exactly the four blocks of \<open>ss_create\<close> and the
  leaf tables that the active ids need.
\<close>

theorem ss_destroy_frees:
  assumes "ss_inv s"
  shows "distinct (ss_destroy s) \<and> set (ss_destroy s)
    = {Dense_Array, Sparse_Array, Level2_Counts, Set_Struct} \<union> Leaf_Table ` get_lvl1_idx ` active s"
proof
  show "distinct (ss_destroy s)"
    by (auto simp: ss_destroy_def ss_clear_frees_def distinct_map inj_on_def intro!: distinct_filter level_indices(2))
  have "set (filter (\<lambda>i. sparse s i \<noteq> None) (map word_of_nat [0..<unat LEVEL_SIZE]))
      = {l \<in> {..<LEVEL_SIZE}. sparse s l \<noteq> None}"
    by (simp only: set_filter level_indices(1))
  also have "\<dots> = get_lvl1_idx ` active s" using leaf_iff [OF assms] by auto
  finally have "set (ss_clear_frees s) = Leaf_Table ` get_lvl1_idx ` active s"
    unfolding ss_clear_frees_def set_map [of Leaf_Table] by (rule arg_cong)
  then show "set (ss_destroy s)
    = {Dense_Array, Sparse_Array, Level2_Counts, Set_Struct} \<union> Leaf_Table ` get_lvl1_idx ` active s"
    by (auto simp: ss_destroy_def)
qed

lemma dense_lists_active:
  assumes "ss_inv s"
  shows "distinct (take (unat (ss_count s)) (dense s))
       \<and> set (take (unat (ss_count s)) (dense s)) = Some ` active s
       \<and> unat (ss_count s) = card (active s)"
proof -
  note D = ss_invD [OF assms]
  from linked_take [OF D(1,3)] D(4) show ?thesis by auto
qed

text \<open>
  C26. After any sequence of \<open>ss_add\<close>, \<open>ss_remove\<close> and \<open>ss_contains\<close> calls on a set
  fresh from \<open>ss_create\<close>, walking \<open>dense[0..count)\<close> visits each id that the sequence
  leaves in the set exactly once and nothing else, and a leaf table is allocated exactly
  for the high halves of these ids.
\<close>

theorem ss_iteration:
  assumes "ss_create True universe mx = Some s"
    and "A = set_after (unat mx) (\<lambda>v. v \<le> universe) {} cs"
  shows "\<exists>s'. set_exec (ss_add True) ss_remove ss_contains s cs = Inr s'
       \<and> distinct (take (unat (ss_count s')) (dense s'))
       \<and> set (take (unat (ss_count s')) (dense s')) = Some ` A
       \<and> unat (ss_count s') = card A
       \<and> (\<forall>l < LEVEL_SIZE. sparse s' l \<noteq> None \<longleftrightarrow> (\<exists>v \<in> A. get_lvl1_idx v = l))"
proof -
  have "ss_inv s" "active s = {}" "universe_size s = universe" "max_active s = mx"
    using ss_create_inv [OF assms(1)] by simp_all
  with ss_set.set_exec_refines [of s cs] assms(2) obtain s' where
    "set_exec (ss_add True) ss_remove ss_contains s cs = Inr s'" "ss_inv s'" "active s' = A" by auto
  with dense_lists_active [of s'] leaf_iff [of s'] show ?thesis by auto
qed

theorem ss_iteration_witness:
  "\<exists>s. set_exec (ss_add True) ss_remove ss_contains (ss_fresh 0x20005 4) [Add 42, Add 0x20001, Add 7, Remove 42] = Inr s
     \<and> distinct (take 2 (dense s)) \<and> set (take 2 (dense s)) = {Some 0x20001, Some 7}
     \<and> sparse s 0 \<noteq> None \<and> sparse s 1 = None \<and> sparse s 2 \<noteq> None"
proof -
  let ?A = "{0x20001, 7} :: u32 set"
  have "?A = set_after (unat (4 :: u32)) (\<lambda>v. v \<le> 0x20005) {} [Add 42, Add 0x20001, Add 7, Remove 42]" by auto
  from ss_iteration [OF ss_create_fresh this] obtain s where
    s: "set_exec (ss_add True) ss_remove ss_contains (ss_fresh 0x20005 4) [Add 42, Add 0x20001, Add 7, Remove 42] = Inr s"
      "distinct (take (unat (ss_count s)) (dense s))" "set (take (unat (ss_count s)) (dense s)) = Some ` ?A"
      "unat (ss_count s) = card ?A"
    and leaf: "\<forall>l < LEVEL_SIZE. sparse s l \<noteq> None \<longleftrightarrow> (\<exists>v \<in> ?A. get_lvl1_idx v = l)" by blast
  have "unat (ss_count s) = 2" using s(4) by simp
  moreover have "sparse s 0 \<noteq> None" "sparse s 1 = None" "sparse s 2 \<noteq> None"
    using leaf [rule_format, of 0] leaf [rule_format, of 1] leaf [rule_format, of 2]
    by (auto simp: LEVEL_SIZE_def get_lvl1_idx_def drop_bit_eq_div)
  ultimately show ?thesis using s(1-3) by auto
qed

text \<open>
  \<open>ss_clear\<close> empties the set, but resets only the first quarter of the leaf
  counters (\<open>LEVEL_SIZE\<close> bytes of \<open>uint32_t\<close>): the invariant survives exactly if
  no active id is \<open>2 ^ 30\<close> or above. After other clears leaf tables are never freed.
\<close>

theorem ss_clear_inv_iff:
  assumes "ss_inv s"
  shows "active (ss_clear s) = {} \<and> (ss_inv (ss_clear s) \<longleftrightarrow> (\<forall>v \<in> active s. v < 0x40000000))"
proof -
  note D = ss_invD [OF assms]
  have idx: "ss_idx (ss_clear s) v = None" for v by (simp add: ss_clear_def ss_idx_def)
  then have act: "active (ss_clear s) = {}" by (simp add: active_def)
  have low: "get_lvl1_idx v < LEVEL_SIZE div 4 \<longleftrightarrow> v < 0x40000000" for v
    by (simp add: get_lvl1_idx_def LEVEL_SIZE_def drop_bit_eq_div word_less_nat_alt unat_div div_less_iff_less_mult)
  have zero: "level2_counts s l = 0 \<longleftrightarrow> leaf_of s l = {}" if "l < LEVEL_SIZE" for l
  proof -
    have "level2_counts s l = 0 \<longleftrightarrow> unat (of_nat (card (leaf_of s l)) :: u32) = 0"
      using that D(2) by (simp add: leaves_ok_def unat_eq_0)
    then show ?thesis using leaf_card_less [of s l] by (simp add: unat_of_nat)
  qed
  have "ss_inv (ss_clear s) \<longleftrightarrow> (\<forall>l < LEVEL_SIZE. \<not> l < LEVEL_SIZE div 4 \<longrightarrow> level2_counts s l = 0)"
    using assms act idx
    by (auto simp: ss_inv_def linked_def leaves_ok_def leaf_of_def) (auto simp: ss_clear_def)
  also have "\<dots> \<longleftrightarrow> (\<forall>v \<in> active s. v < 0x40000000)"
  proof
    assume z: "\<forall>l < LEVEL_SIZE. \<not> l < LEVEL_SIZE div 4 \<longrightarrow> level2_counts s l = 0"
    show "\<forall>v \<in> active s. v < 0x40000000"
    proof
      fix v
      assume "v \<in> active s"
      then have "leaf_of s (get_lvl1_idx v) \<noteq> {}" by (auto simp: leaf_of_def)
      with z zero [of "get_lvl1_idx v"] low [of v] show "v < 0x40000000" by auto
    qed
  next
    assume "\<forall>v \<in> active s. v < 0x40000000"
    with low zero show "\<forall>l < LEVEL_SIZE. \<not> l < LEVEL_SIZE div 4 \<longrightarrow> level2_counts s l = 0"
      by (auto simp: leaf_of_def)
  qed
  finally show ?thesis using act by simp
qed

theorem ss_clear_inv_iff_witness:
  "\<exists>s. ss_add True (ss_fresh 0xFFFFFFFF 4) 0x40000000 = Inr (0, s) \<and> ss_inv s \<and> \<not> ss_inv (ss_clear s)"
proof -
  obtain s where s: "ss_add True (ss_fresh 0xFFFFFFFF 4) 0x40000000 = Inr (0, s)" "ss_inv s"
    "active s = {0x40000000}"
    using ss_create_inv [OF ss_create_fresh [of "0xFFFFFFFF" 4]]
      ss_add_new [of "ss_fresh 0xFFFFFFFF 4" "0x40000000"] by auto
  with ss_clear_inv_iff [OF s(2)] show ?thesis by auto
qed

end
