(* ===== verification/Lock_Machine.thy ===== *)
theory Lock_Machine
  imports Prelude
begin

text \<open>
  Threads that run straight-line scripts over mutexes and shared memory. A mutex is a
  default \<open>pthread_mutex_t\<close>: locking a mutex that is held, also by the caller,
  waits. An action is one access to the shared memory; the objects it touches are
  listed with it. An undefined action leaves the memory undefined for good.

  The locale proves once, for every family of scripts that lock in the order of some
  rank, release what they hold and touch only objects they hold, that every run can
  be completed (no deadlock) and that no two threads touch an object at once.
\<close>

section \<open>The machine\<close>

datatype ('l, 'd) instr =
    Lock 'l
  | Unlock 'l
  | Act "'l list" "'d \<Rightarrow> 'd cres"

record ('l, 'd) machine =
  holder :: "'l \<Rightarrow> nat option"
  todo :: "('l, 'd) instr list list"
  mem :: "'d cres"

inductive lm_step :: "('l, 'd) machine \<Rightarrow> ('l, 'd) machine \<Rightarrow> bool" where
  lm_lock:
    "i < length (todo s) \<Longrightarrow> todo s ! i = Lock m # rest \<Longrightarrow> holder s m = None \<Longrightarrow>
     lm_step s (s\<lparr>holder := (holder s)(m := Some i), todo := (todo s)[i := rest]\<rparr>)"
| lm_unlock:
    "i < length (todo s) \<Longrightarrow> todo s ! i = Unlock m # rest \<Longrightarrow> holder s m = Some i \<Longrightarrow>
     lm_step s (s\<lparr>holder := (holder s)(m := None), todo := (todo s)[i := rest]\<rparr>)"
| lm_act:
    "i < length (todo s) \<Longrightarrow> todo s ! i = Act ls f # rest \<Longrightarrow>
     lm_step s (s\<lparr>mem := cbind (mem s) f, todo := (todo s)[i := rest]\<rparr>)"

inductive_cases lm_stepE: "lm_step s t"

definition lm_init :: "('l, 'd) instr list list \<Rightarrow> 'd \<Rightarrow> ('l, 'd) machine" where
  "lm_init scripts d = \<lparr>holder = (\<lambda>_. None), todo = scripts, mem = Inr d\<rparr>"

definition lm_reach :: "('l, 'd) instr list list \<Rightarrow> 'd \<Rightarrow> ('l, 'd) machine \<Rightarrow> bool" where
  "lm_reach scripts d s \<longleftrightarrow> lm_step\<^sup>*\<^sup>* (lm_init scripts d) s"

definition lm_done :: "('l, 'd) machine \<Rightarrow> bool" where
  "lm_done s \<longleftrightarrow> (\<forall>is \<in> set (todo s). is = [])"

definition lm_stuck :: "('l, 'd) machine \<Rightarrow> bool" where
  "lm_stuck s \<longleftrightarrow> \<not> lm_done s \<and> (\<forall>t. \<not> lm_step s t)"

text \<open>Two threads are about to touch the same object.\<close>

definition lm_race :: "('l, 'd) machine \<Rightarrow> bool" where
  "lm_race s \<longleftrightarrow> (\<exists>i j ls f is ks g js. i < length (todo s) \<and> j < length (todo s) \<and> i \<noteq> j
     \<and> todo s ! i = Act ls f # is \<and> todo s ! j = Act ks g # js \<and> set ls \<inter> set ks \<noteq> {})"

text \<open>Running one script alone to its end, with the memory it leaves.\<close>

fun run_script :: "('l, 'd) instr list \<Rightarrow> 'd cres \<Rightarrow> 'd cres" where
  "run_script [] d = d"
| "run_script (Act ls f # is) d = run_script is (cbind d f)"
| "run_script (Lock m # is) d = run_script is d"
| "run_script (Unlock m # is) d = run_script is d"

lemma run_script_append [simp]: "run_script (is @ js) d = run_script js (run_script is d)"
  by (induction "is" d rule: run_script.induct) simp_all

section \<open>Ownership\<close>

definition held :: "('l, 'd) machine \<Rightarrow> nat \<Rightarrow> 'l set" where
  "held s i = {m. holder s m = Some i}"

text \<open>
  A discipline on scripts says what a thread that holds a set of locks may do next;
  it is kept by every step of a thread that obeys it.
\<close>

fun after :: "'l set \<Rightarrow> ('l, 'd) instr \<Rightarrow> 'l set" where
  "after H (Lock m) = insert m H"
| "after H (Unlock m) = H - {m}"
| "after H (Act ls f) = H"

fun obeys :: "('l set \<Rightarrow> ('l, 'd) instr \<Rightarrow> bool) \<Rightarrow> 'l set \<Rightarrow> ('l, 'd) instr list \<Rightarrow> bool" where
  "obeys P H [] \<longleftrightarrow> H = {}"
| "obeys P H (c # cs) \<longleftrightarrow> P H c \<and> obeys P (after H c) cs"

definition lm_inv :: "('l set \<Rightarrow> ('l, 'd) instr \<Rightarrow> bool) \<Rightarrow> ('l, 'd) machine \<Rightarrow> bool" where
  "lm_inv P s \<longleftrightarrow> (\<forall>i < length (todo s). obeys P (held s i) (todo s ! i))
     \<and> (\<forall>m i. holder s m = Some i \<longrightarrow> i < length (todo s))"

lemma obeys_append:
  "obeys P H cs \<Longrightarrow> obeys P {} ds \<Longrightarrow> obeys P H (cs @ ds)"
  by (induction cs arbitrary: H) auto

lemma obeys_repeat: "obeys P {} cs \<Longrightarrow> obeys P {} (concat (replicate n cs))"
  by (induction n) (simp_all add: obeys_append)

lemma obeys_mono:
  "obeys P H cs \<Longrightarrow> (\<And>H c. P H c \<Longrightarrow> Q H c) \<Longrightarrow> obeys Q H cs"
  by (induction cs arbitrary: H) auto

lemma lm_inv_init: "\<forall>cs \<in> set scripts. obeys P {} cs \<Longrightarrow> lm_inv P (lm_init scripts d)"
  by (auto simp: lm_inv_def lm_init_def held_def)

lemma lm_inv_step:
  assumes "lm_step s t" "lm_inv P s"
  shows "lm_inv P t"
  using assms(1)
proof cases
  case (lm_lock i m rest)
  then have "held t i = insert m (held s i)" "\<And>j. j \<noteq> i \<Longrightarrow> held t j = held s j"
    by (auto simp: held_def)
  moreover have "obeys P (insert m (held s i)) rest"
    using assms(2) lm_lock(2,3) by (force simp: lm_inv_def)
  ultimately have "obeys P (held t j) (todo t ! j)" if "j < length (todo s)" for j
    using that assms(2) lm_lock by (cases "j = i") (auto simp: lm_inv_def)
  moreover have "i < length (todo s)" "length (todo t) = length (todo s)" using lm_lock by simp_all
  ultimately show ?thesis using assms(2) lm_lock by (auto simp: lm_inv_def)
next
  case (lm_unlock i m rest)
  then have "held t i = held s i - {m}" "\<And>j. j \<noteq> i \<Longrightarrow> held t j = held s j"
    by (auto simp: held_def)
  moreover have "obeys P (held s i - {m}) rest"
    using assms(2) lm_unlock(2,3) by (force simp: lm_inv_def)
  ultimately have "obeys P (held t j) (todo t ! j)" if "j < length (todo s)" for j
    using that assms(2) lm_unlock by (cases "j = i") (auto simp: lm_inv_def)
  then show ?thesis using assms(2) lm_unlock by (auto simp: lm_inv_def)
next
  case (lm_act i ls f rest)
  then have "held t j = held s j" for j by (simp add: held_def)
  moreover have "obeys P (held s i) rest"
    using assms(2) lm_act(2,3) by (force simp: lm_inv_def)
  ultimately have "obeys P (held t j) (todo t ! j)" if "j < length (todo s)" for j
    using that assms(2) lm_act by (cases "j = i") (auto simp: lm_inv_def)
  then show ?thesis using assms(2) lm_act by (auto simp: lm_inv_def)
qed

lemma lm_inv_steps: "lm_step\<^sup>*\<^sup>* s t \<Longrightarrow> lm_inv P s \<Longrightarrow> lm_inv P t"
  by (induction rule: rtranclp_induct) (auto intro: lm_inv_step)

lemma lm_inv_reach:
  "\<forall>cs \<in> set scripts. obeys P {} cs \<Longrightarrow> lm_reach scripts d s \<Longrightarrow> lm_inv P s"
  unfolding lm_reach_def by (rule lm_inv_steps [OF _ lm_inv_init])

text \<open>Every step keeps the number of threads, and a lock is held by one of them.\<close>

lemma lm_reach_threads:
  assumes "lm_reach scripts d s"
  shows "length (todo s) = length scripts \<and> (holder s m = Some i \<longrightarrow> i < length scripts)"
  using assms unfolding lm_reach_def
proof (induction rule: rtranclp_induct)
  case (step s t)
  from step(2,3) show ?case by cases auto
qed (simp add: lm_init_def)

section \<open>Completing a run\<close>

definition work_left :: "('l, 'd) machine \<Rightarrow> nat" where
  "work_left s = sum_list (map length (todo s))"

lemma work_left_update:
  "i < length xss \<Longrightarrow> xss ! i = x # xs \<Longrightarrow>
   sum_list (map length (xss[i := xs])) < sum_list (map length xss)"
proof (induction xss arbitrary: i)
  case (Cons ys yss)
  then show ?case by (cases i) auto
qed simp

lemma lm_step_decreases: "lm_step s t \<Longrightarrow> work_left t < work_left s"
  by (erule lm_step.cases) (simp_all add: work_left_def work_left_update)

lemma lm_completes:
  assumes "lm_inv P s" and "\<And>s. lm_inv P s \<Longrightarrow> \<not> lm_stuck s"
  shows "\<exists>t. lm_step\<^sup>*\<^sup>* s t \<and> lm_inv P t \<and> lm_done t"
  using assms
  by (intro reach_goal [where f = work_left and I = "lm_inv P"])
    (auto simp: lm_stuck_def intro: lm_inv_step lm_step_decreases)

text \<open>Every run is finite, so a run that cannot get stuck ends with all threads done.\<close>

lemma lm_steps_bounded: "(lm_step ^^ n) s t \<Longrightarrow> n + work_left t \<le> work_left s"
  by (erule steps_bounded) (rule lm_step_decreases)

text \<open>In a stuck state every unfinished thread of a disciplined machine waits for a lock.\<close>

lemma lm_stuck_waits:
  assumes "lm_stuck s" "lm_inv P s" "\<forall>H m. P H (Unlock m) \<longrightarrow> m \<in> H"
    and "i < length (todo s)" "todo s ! i \<noteq> []"
  shows "\<exists>m rest j. todo s ! i = Lock m # rest \<and> holder s m = Some j \<and> j < length (todo s)
    \<and> todo s ! j \<noteq> [] \<and> P (held s i) (Lock m)"
proof -
  obtain c rest where c: "todo s ! i = c # rest" using assms(5) by (cases "todo s ! i") auto
  have P: "P (held s i) c" using assms(2,4) c by (force simp: lm_inv_def)
  have stuck: "\<not> lm_step s t" for t using assms(1) by (simp add: lm_stuck_def)
  show ?thesis
  proof (cases c)
    case (Lock m)
    then obtain j where j: "holder s m = Some j"
      using stuck lm_lock [OF assms(4), of m rest] c by (cases "holder s m") auto
    then have "j < length (todo s)" "m \<in> held s j" using assms(2) by (auto simp: lm_inv_def held_def)
    then have "todo s ! j \<noteq> []" using assms(2) by (auto simp: lm_inv_def)
    with Lock c j \<open>j < length (todo s)\<close> P show ?thesis by blast
  next
    case (Unlock m)
    with P assms(3) stuck lm_unlock [OF assms(4), of m rest] c show ?thesis by (auto simp: held_def)
  next
    case (Act ls f)
    with stuck lm_act [OF assms(4), of ls f rest] c show ?thesis by auto
  qed
qed

lemma not_doneD: "\<not> lm_done s \<Longrightarrow> \<exists>i < length (todo s). todo s ! i \<noteq> []"
  by (auto simp: lm_done_def in_set_conv_nth)

section \<open>Disciplines\<close>

locale lock_discipline =
  fixes P :: "'l set \<Rightarrow> ('l, 'd) instr \<Rightarrow> bool"
  assumes unlock_held: "P H (Unlock m) \<Longrightarrow> m \<in> H"
    and act_held: "P H (Act ls f) \<Longrightarrow> set ls \<subseteq> H"
    and never_stuck: "lm_inv P s \<Longrightarrow> \<not> lm_stuck s"
begin

lemma completes:
  assumes "\<forall>cs \<in> set scripts. obeys P {} cs" "lm_reach scripts d s"
  shows "\<exists>t. lm_step\<^sup>*\<^sup>* s t \<and> lm_done t"
  using lm_completes [OF lm_inv_reach [OF assms] never_stuck] by blast

lemma no_race:
  assumes "\<forall>cs \<in> set scripts. obeys P {} cs" "lm_reach scripts d s"
  shows "\<not> lm_race s"
proof
  assume "lm_race s"
  then obtain i j ls f "is" ks g js where
    i: "i < length (todo s)" "todo s ! i = Act ls f # is" and
    j: "j < length (todo s)" "todo s ! j = Act ks g # js" and
    neq: "i \<noteq> j" "set ls \<inter> set ks \<noteq> {}" unfolding lm_race_def by blast
  have inv: "lm_inv P s" by (rule lm_inv_reach [OF assms])
  then have "P (held s i) (Act ls f)" "P (held s j) (Act ks g)"
    using i j by (force simp: lm_inv_def)+
  then have "set ls \<subseteq> held s i" "set ks \<subseteq> held s j" by (auto dest: act_held)
  moreover obtain m where "m \<in> set ls" "m \<in> set ks" using neq(2) by blast
  ultimately have "holder s m = Some i" "holder s m = Some j" by (auto simp: held_def)
  with neq(1) show False by simp
qed

end

locale ordered_locks =
  fixes P :: "'l set \<Rightarrow> ('l, 'd) instr \<Rightarrow> bool"
    and rank :: "'l \<Rightarrow> 'r::linorder"
  assumes ord_unlock: "P H (Unlock m) \<Longrightarrow> m \<in> H"
    and ord_act: "P H (Act ls f) \<Longrightarrow> set ls \<subseteq> H"
    and ord_lock: "P H (Lock m) \<Longrightarrow> h \<in> H \<Longrightarrow> rank h < rank m"
begin

lemma ordered_not_stuck:
  assumes inv: "lm_inv P s"
  shows "\<not> lm_stuck s"
proof
  assume stuck: "lm_stuck s"
  have unlock: "\<forall>H m. P H (Unlock m) \<longrightarrow> m \<in> H" by (blast dest: ord_unlock)
  define W where "W = {i. i < length (todo s) \<and> todo s ! i \<noteq> []}"
  define wait where "wait i = (case todo s ! i of Lock m # _ \<Rightarrow> rank m | _ \<Rightarrow> undefined)" for i
  have higher: "\<exists>j \<in> W. wait i < wait j" if "i \<in> W" for i
  proof -
    have "i < length (todo s)" "todo s ! i \<noteq> []" using that by (simp_all add: W_def)
    from lm_stuck_waits [OF stuck inv unlock this] obtain m rest j where
      i: "todo s ! i = Lock m # rest" and j: "holder s m = Some j" "j < length (todo s)" "todo s ! j \<noteq> []"
      by blast
    from lm_stuck_waits [OF stuck inv unlock j(2,3)] obtain m' rest' where
      m': "todo s ! j = Lock m' # rest'" "P (held s j) (Lock m')" by blast
    have "m \<in> held s j" using j(1) by (simp add: held_def)
    from ord_lock [OF m'(2) this] i m' j(2,3) show ?thesis by (auto simp: wait_def W_def)
  qed
  have fin: "finite W" by (simp add: W_def)
  have "W \<noteq> {}" using stuck not_doneD [of s] by (auto simp: lm_stuck_def W_def)
  then have "Max (wait ` W) \<in> wait ` W" using fin by (intro Max_in) auto
  then obtain i where i: "i \<in> W" "wait i = Max (wait ` W)" by auto
  from higher [OF i(1)] obtain j where "j \<in> W" "wait i < wait j" by blast
  with i(2) fin show False by (metis Max_ge finite_imageI imageI not_le)
qed

end

sublocale ordered_locks \<subseteq> lock_discipline P
  by unfold_locales (fact ord_unlock, fact ord_act, rule ordered_not_stuck)

text \<open>The discipline of acquiring locks in increasing rank.\<close>

fun in_order :: "('l \<Rightarrow> 'r::linorder) \<Rightarrow> 'l set \<Rightarrow> ('l, 'd) instr \<Rightarrow> bool" where
  "in_order rank H (Lock m) \<longleftrightarrow> (\<forall>h \<in> H. rank h < rank m)"
| "in_order rank H (Unlock m) \<longleftrightarrow> m \<in> H"
| "in_order rank H (Act ls f) \<longleftrightarrow> set ls \<subseteq> H"

interpretation rank_order: ordered_locks "in_order rank" rank for rank
  by unfold_locales auto

text \<open>
  The discipline of acquiring locks only while holding one global lock; the global
  lock and the locks in \<open>L\<close>, which are taken alone, only while holding none.
\<close>

fun under_global :: "'l \<Rightarrow> 'l set \<Rightarrow> 'l set \<Rightarrow> ('l, 'd) instr \<Rightarrow> bool" where
  "under_global g L H (Lock m) \<longleftrightarrow> (if m = g \<or> m \<in> L then H = {} else g \<in> H \<and> m \<notin> H)"
| "under_global g L H (Unlock m) \<longleftrightarrow> m \<in> H"
| "under_global g L H (Act ls f) \<longleftrightarrow> set ls \<subseteq> H"

lemma global_not_stuck:
  fixes s :: "('a, 'b) machine"
  assumes inv: "lm_inv (under_global g L) s"
  shows "\<not> lm_stuck s"
proof
  assume stuck: "lm_stuck s"
  have "\<forall>H m. under_global g L H (Unlock m :: ('a, 'b) instr) \<longrightarrow> m \<in> H" by simp
  note waits = lm_stuck_waits [OF stuck inv this]
  have not_vec: False if i: "i < length (todo s)" "todo s ! i = Lock m # rest" "m \<noteq> g" "m \<notin> L" for i m rest
  proof -
    have "todo s ! i \<noteq> []" using i(2) by simp
    from waits [OF i(1) this] i(2) obtain j where j: "holder s m = Some j" "j < length (todo s)"
      "todo s ! j \<noteq> []" and P: "under_global g L (held s i) (Lock m :: ('a, 'b) instr)"
      by auto
    then have g: "holder s g = Some i" "j \<noteq> i" using i(3,4) by (auto simp: held_def split: if_splits)
    from waits [OF j(2,3)] obtain m' rest' where "todo s ! j = Lock m' # rest'"
      "under_global g L (held s j) (Lock m' :: ('a, 'b) instr)" by blast
    moreover have "m \<in> held s j" "g \<notin> held s j" using j(1) g by (auto simp: held_def)
    ultimately show False by (auto split: if_splits)
  qed
  obtain i where i: "i < length (todo s)" "todo s ! i \<noteq> []"
    using stuck not_doneD [of s] by (auto simp: lm_stuck_def)
  from waits [OF i] obtain m rest j where m: "todo s ! i = Lock m # rest" "holder s m = Some j"
    "j < length (todo s)" "todo s ! j \<noteq> []" by blast
  from waits [OF m(3,4)] obtain m' rest' where m': "todo s ! j = Lock m' # rest'"
    "under_global g L (held s j) (Lock m' :: ('a, 'b) instr)" by blast
  with not_vec m(3) have "m' = g \<or> m' \<in> L" by blast
  with m'(2) m(2) show False by (auto simp: held_def)
qed

interpretation global_order: lock_discipline "under_global g L" for g L
  by unfold_locales (auto simp: global_not_stuck)

section \<open>Commuting actions\<close>

fun acts :: "('l, 'd) instr list \<Rightarrow> ('d \<Rightarrow> 'd cres) list" where
  "acts [] = []"
| "acts (Act ls f # cs) = f # acts cs"
| "acts (Lock m # cs) = acts cs"
| "acts (Unlock m # cs) = acts cs"

lemma acts_append [simp]: "acts (cs @ ds) = acts cs @ acts ds"
  by (induction cs rule: acts.induct) simp_all

text \<open>On the memories that satisfy \<open>D\<close> the actions \<open>fs\<close> commute and keep \<open>D\<close>.\<close>

definition commuting :: "('d \<Rightarrow> bool) \<Rightarrow> ('d \<Rightarrow> 'd cres) set \<Rightarrow> bool" where
  "commuting D fs \<longleftrightarrow> (\<forall>f \<in> fs. \<forall>d d'. D d \<and> f d = Inr d' \<longrightarrow> D d')
     \<and> (\<forall>f \<in> fs. \<forall>g \<in> fs. \<forall>d. D d \<longrightarrow> cbind (f d) g = cbind (g d) f)"

fun cres_all :: "('d \<Rightarrow> bool) \<Rightarrow> 'd cres \<Rightarrow> bool" where
  "cres_all D (Inl e) \<longleftrightarrow> True"
| "cres_all D (Inr d) \<longleftrightarrow> D d"

lemma commuting_all: "commuting D fs \<Longrightarrow> f \<in> fs \<Longrightarrow> cres_all D d \<Longrightarrow> cres_all D (cbind d f)"
  by (cases d; cases "f (projr d)") (auto simp: commuting_def)

lemma commuting_swap:
  assumes "commuting D fs" "f \<in> fs" "g \<in> fs" "cres_all D d"
  shows "cbind (cbind d f) g = cbind (cbind d g) f"
proof (cases d)
  case (Inr x)
  with assms(4) have "D x" by simp
  with assms(1-3) have "cbind (f x) g = cbind (g x) f" unfolding commuting_def by blast
  with Inr show ?thesis by simp
qed simp

lemma run_script_commute:
  assumes "commuting D fs" "f \<in> fs"
  shows "set (acts cs) \<subseteq> fs \<Longrightarrow> cres_all D d \<Longrightarrow>
    run_script cs (cbind d f) = cbind (run_script cs d) f \<and> cres_all D (run_script cs d)"
proof (induction cs arbitrary: d rule: acts.induct)
  case (2 ls g cs)
  then have "g \<in> fs" by simp
  with 2 commuting_swap [OF assms, of g d] commuting_all [OF assms(1), of g d] show ?case by simp
qed simp_all

lemma run_script_take_act:
  assumes "commuting D fs" "set (acts (as @ Act ls f # bs)) \<subseteq> fs" "cres_all D d"
  shows "run_script (as @ bs) (cbind d f) = run_script (as @ Act ls f # bs) d"
  using assms run_script_commute [OF assms(1), of f as d] by simp

definition acts_in :: "('d \<Rightarrow> 'd cres) set \<Rightarrow> ('d \<Rightarrow> bool) \<Rightarrow> ('l, 'd) machine \<Rightarrow> bool" where
  "acts_in fs D s \<longleftrightarrow> set (acts (concat (todo s))) \<subseteq> fs \<and> cres_all D (mem s)"

lemma concat_split:
  assumes "i < length xss" "xss ! i = c # rest"
  shows "\<exists>as bs. concat xss = as @ c # bs \<and> concat (xss[i := rest]) = as @ bs"
proof -
  have "xss = take i xss @ (c # rest) # drop (Suc i) xss"
    using id_take_nth_drop [OF assms(1)] assms(2) by simp
  from arg_cong [OF this, of concat]
  have "concat xss = concat (take i xss) @ c # rest @ concat (drop (Suc i) xss)" by simp
  moreover have "concat (xss[i := rest]) = concat (take i xss) @ rest @ concat (drop (Suc i) xss)"
    using assms(1) by (simp add: upd_conv_take_nth_drop)
  ultimately show ?thesis by blast
qed

lemma lm_step_rest:
  assumes "lm_step s t" "commuting D fs" "acts_in fs D s"
  shows "acts_in fs D t \<and> run_script (concat (todo t)) (mem t) = run_script (concat (todo s)) (mem s)"
proof -
  show ?thesis using assms(1)
  proof cases
    case (lm_lock i m rest)
    from concat_split [OF lm_lock(2,3)] assms(3) lm_lock(1) show ?thesis by (auto simp: acts_in_def)
  next
    case (lm_unlock i m rest)
    from concat_split [OF lm_unlock(2,3)] assms(3) lm_unlock(1) show ?thesis by (auto simp: acts_in_def)
  next
    case (lm_act i ls f rest)
    from concat_split [OF lm_act(2,3)] obtain as bs where
      ab: "concat (todo s) = as @ Act ls f # bs" "concat ((todo s)[i := rest]) = as @ bs" by blast
    then have f: "set (acts (as @ Act ls f # bs)) \<subseteq> fs" "cres_all D (mem s)"
      using assms(3) by (simp_all add: acts_in_def)
    with run_script_take_act [OF assms(2) f] commuting_all [OF assms(2), of f "mem s"] ab lm_act(1)
    show ?thesis by (auto simp: acts_in_def)
  qed
qed

text \<open>So every completed run leaves what the scripts leave when run one after the other.\<close>

lemma lm_done_result:
  assumes "commuting D fs" "set (acts (concat scripts)) \<subseteq> fs" "D d"
    and "lm_reach scripts d s" "lm_done s"
  shows "mem s = run_script (concat scripts) (Inr d)"
proof -
  have "acts_in fs D s \<and> run_script (concat (todo s)) (mem s) = run_script (concat scripts) (Inr d)"
    using assms(4) unfolding lm_reach_def
  proof (induction rule: rtranclp_induct)
    case base
    then show ?case using assms by (simp add: acts_in_def lm_init_def)
  next
    case (step s t)
    then show ?case using lm_step_rest [OF step(2) assms(1)] by simp
  qed
  moreover have "concat (todo s) = []" using assms(5) by (simp add: lm_done_def)
  ultimately show ?thesis by simp
qed

text \<open>What every action keeps of the memory holds in every reachable state.\<close>

lemma acts_fewer:
  assumes "i < length xss" "xss ! i = c # rest"
  shows "set (acts (concat (xss[i := rest]))) \<subseteq> set (acts (concat xss))"
proof -
  from concat_split [OF assms] obtain as bs where
    "concat xss = as @ c # bs" "concat (xss[i := rest]) = as @ bs" by blast
  then show ?thesis by (cases c) auto
qed

lemma lm_mem_cres_inv:
  assumes "\<forall>f \<in> set (acts (concat scripts)). \<forall>d. Q d \<longrightarrow> Q (cbind d f)" "Q (Inr d)"
    and "lm_reach scripts d s"
  shows "Q (mem s)"
proof -
  let ?fs = "set (acts (concat scripts))"
  have "set (acts (concat (todo s))) \<subseteq> ?fs \<and> Q (mem s)" using assms(3) unfolding lm_reach_def
  proof (induction rule: rtranclp_induct)
    case base
    then show ?case using assms(2) by (simp add: lm_init_def)
  next
    case (step s t)
    from step(2) show ?case
    proof cases
      case (lm_act i ls f rest)
      from concat_split [OF lm_act(2,3)] obtain as bs where "concat (todo s) = as @ Act ls f # bs" by blast
      with step(3) have "f \<in> ?fs" by simp
      with assms(1) step(3) have "Q (cbind (mem s) f)" by blast
      with acts_fewer [OF lm_act(2,3)] step(3) lm_act(1) show ?thesis by (simp add: subset_trans)
    next
      case (lm_lock i m rest)
      from acts_fewer [OF lm_lock(2,3)] step(3) lm_lock(1) show ?thesis by (simp add: subset_trans)
    next
      case (lm_unlock i m rest)
      from acts_fewer [OF lm_unlock(2,3)] step(3) lm_unlock(1) show ?thesis by (simp add: subset_trans)
    qed
  qed
  then show ?thesis ..
qed

lemma lm_mem_inv:
  assumes "\<forall>f \<in> set (acts (concat scripts)). \<forall>d d'. Q d \<and> f d = Inr d' \<longrightarrow> Q d'" "Q d"
    and "lm_reach scripts d s"
  shows "cres_all Q (mem s)"
proof -
  have "cres_all Q (cbind d f)" if "f \<in> set (acts (concat scripts))" "cres_all Q d" for f d
  proof (cases d)
    case (Inr x)
    with that(2) have "Q x" by simp
    with assms(1) that(1) have "Q y" if "f x = Inr y" for y using that by blast
    with Inr show ?thesis by (cases "f x") simp_all
  qed simp
  then have "\<forall>f \<in> set (acts (concat scripts)). \<forall>d. cres_all Q d \<longrightarrow> cres_all Q (cbind d f)" by blast
  from lm_mem_cres_inv [OF this _ assms(3)] assms(2) show ?thesis by simp
qed

end
