(* ===== verification/Parsers.thy ===== *)
theory Parsers
  imports Prelude
begin

text \<open>
  Code that trusts a length or a number from outside: the integer parser
  \<open>interger_parser_with_overflow_checks.c\<close>, the labs \<open>integer_overflow_before_allocation.c\<close>,
  \<open>signed_unsigned_length_bug.c\<close> and \<open>stack_buffer_overflow_in_packet_parser.c\<close>, and the
  command queue of \<open>missing_barrier_before_doorbell.c\<close>.
\<close>

section \<open>interger_parser_with_overflow_checks.c\<close>

definition what_digit :: "char \<Rightarrow> int" where
  "what_digit s =
     (if s = CHR ''0'' then 0 else if s = CHR ''1'' then 1 else if s = CHR ''2'' then 2
      else if s = CHR ''3'' then 3 else if s = CHR ''4'' then 4 else if s = CHR ''5'' then 5
      else if s = CHR ''6'' then 6 else if s = CHR ''7'' then 7 else if s = CHR ''8'' then 8
      else if s = CHR ''9'' then 9 else -1)"

text \<open>A C string is its characters, followed by the terminating zero; \<open>int64_t\<close> may overflow.\<close>

definition c_char :: "string \<Rightarrow> nat \<Rightarrow> char cres" where
  "c_char s i = (if i < length s then Inr (s ! i) else if i = length s then Inr (CHR 0x00) else Inl Out_Of_Bounds)"

definition c_int64 :: "int \<Rightarrow> int cres" where
  "c_int64 i = (if - (2 ^ 63) \<le> i \<and> i < 2 ^ 63 then Inr i else Inl Signed_Overflow)"

text \<open>The loop counts down to index 1; \<open>Inl\<close> inside the result is the early return.\<close>

fun parse_loop :: "string \<Rightarrow> nat \<Rightarrow> int \<Rightarrow> int \<Rightarrow> (int + int) cres" where
  "parse_loop s 0 rv multiplier = Inr (Inr rv)"
| "parse_loop s (Suc i) rv multiplier =
     cbind (c_char s (Suc i)) (\<lambda>c. let curr = what_digit c in
       if curr < 0 then Inr (Inl (-4))
       else cbind (c_int64 (curr * multiplier)) (\<lambda>d.
            cbind (c_int64 (rv + d)) (\<lambda>rv.
            cbind (c_int64 (multiplier * 10)) (\<lambda>multiplier. parse_loop s i rv multiplier))))"

text \<open>\<open>out\<close> says whether the output pointer is not null; the option is what is stored there.\<close>

definition parse_i32 :: "string option \<Rightarrow> bool \<Rightarrow> (int \<times> int option) cres" where
  "parse_i32 s out =
     (if \<not> out then Inr (-1, None)
      else case s of None \<Rightarrow> Inr (-2, None) | Some s \<Rightarrow>
        cbind (c_char s 0) (\<lambda>c.
        let index = (if c = CHR ''-'' \<or> c = CHR ''+'' then 1 else (0::nat)) in
        if index = 0 \<and> what_digit c < 0 then Inr (-3, None)
        else cbind (if index = 1 then c_char s 1 else Inr (CHR ''0'')) (\<lambda>next.
        if index = 1 \<and> next = CHR 0x00 then Inr (-3, None)
        else cbind (parse_loop s (if index = 0 then length s else length s - 1) 0 1) (\<lambda>r.
        case r of Inl e \<Rightarrow> Inr (e, None)
        | Inr rv \<Rightarrow> if INT_MAX < rv \<or> rv < INT_MIN then Inr (-5, None) else Inr (0, Some rv)))))"

definition is_digit :: "char \<Rightarrow> bool" where
  "is_digit c \<longleftrightarrow> 0 \<le> what_digit c"

definition decimal :: "string \<Rightarrow> int" where
  "decimal ds = foldl (\<lambda>a c. 10 * a + what_digit c) 0 ds"

lemma decimal_snoc: "decimal (ds @ [c]) = 10 * decimal ds + what_digit c"
  by (simp add: decimal_def)

lemma what_digit_bound: "what_digit c \<le> 9" "-1 \<le> what_digit c"
  by (simp_all add: what_digit_def)

lemma decimal_nonneg: "list_all is_digit ds \<Longrightarrow> 0 \<le> decimal ds"
  by (induction ds rule: rev_induct) (simp_all add: decimal_snoc is_digit_def, simp add: decimal_def)

text \<open>
  The loop adds the digits up to position \<open>i\<close>, or stops at the last character that is not
  a digit, as long as the multiplier fits.
\<close>

lemma parse_loop_digits:
  assumes "i < length s" "j + i \<le> 18" "0 \<le> rv" "rv < 10 ^ j"
  shows "parse_loop s i rv (10 ^ j) = Inr (if list_all is_digit (take i (tl s))
    then Inr (rv + 10 ^ j * decimal (take i (tl s))) else Inl (-4))"
  using assms
proof (induction i arbitrary: j rv)
  case 0
  then show ?case by (simp add: decimal_def)
next
  case (Suc i)
  define d where "d = what_digit (s ! Suc i)"
  have tk: "take (Suc i) (tl s) = take i (tl s) @ [s ! Suc i]"
    using Suc.prems(1) by (simp add: take_Suc_conv_app_nth nth_tl)
  show ?case
  proof (cases "d < 0")
    case True
    then show ?thesis using Suc.prems(1) unfolding tk by (simp add: c_char_def Let_def is_digit_def d_def)
  next
    case False
    then have d: "0 \<le> d" "d \<le> 9" using what_digit_bound(1) [of "s ! Suc i"] by (simp_all add: d_def)
    define e where "e = d * 10 ^ j"
    have p: "(10::int) * 10 ^ j \<le> 10 ^ 18" using Suc.prems(2) power_increasing [of "Suc j" 18 "10::int"] by simp
    have "d * 10 ^ j \<le> 9 * 10 ^ j" using d by (intro mult_right_mono) auto
    then have e: "0 \<le> e" "e \<le> 9 * 10 ^ j" using d by (simp_all add: e_def)
    have r: "rv + e < 10 ^ Suc j" using e(2) Suc.prems(4) unfolding power_Suc by linarith
    have ok: "c_int64 (d * 10 ^ j) = Inr e" "c_int64 (rv + e) = Inr (rv + e)" "c_int64 (10 ^ j * 10) = Inr (10 ^ Suc j)"
      using p e r Suc.prems(3) unfolding c_int64_def e_def [symmetric] by simp_all
    have "parse_loop s (Suc i) rv (10 ^ j) = parse_loop s i (rv + e) (10 ^ Suc j)"
      using Suc.prems(1) d ok by (simp add: c_char_def Let_def flip: d_def)
    also have "\<dots> = Inr (if list_all is_digit (take i (tl s))
        then Inr (rv + e + 10 ^ Suc j * decimal (take i (tl s))) else Inl (-4))"
      using Suc.prems e r by (intro Suc.IH) auto
    finally show ?thesis
      using d is_digit_def [of "s ! Suc i"] unfolding tk decimal_snoc
      by (simp add: e_def distrib_left mult.commute flip: d_def del: parse_loop.simps)
  qed
qed

lemma digit_not_sign: "is_digit c \<Longrightarrow> c \<noteq> CHR ''-'' \<and> c \<noteq> CHR ''+''"
  by (auto simp: is_digit_def what_digit_def)

lemma zero_not_digit: "what_digit (CHR 0x00) = -1"
  by (simp add: what_digit_def)

text \<open>
  What \<open>parse_i32\<close> does with a string of at most 18 characters after the first one and
  an output pointer. A number without a sign is always refused with \<open>-4\<close>: the loop starts
  at the terminating zero. A sign followed by digits gives the digits' value whatever the
  sign is, or \<open>-5\<close> when it exceeds \<open>INT32_MAX\<close>; a sign followed by anything else \<open>-4\<close>; a
  lone sign, the empty string or another first character \<open>-3\<close>. The requirements ask for
  more: numbers without a sign, the negated value after \<open>-\<close>, \<open>-2147483648\<close>, \<open>-2\<close> for the
  empty string and \<open>-1\<close> for a null string.
\<close>

theorem parse_i32_results:
  assumes "CHR 0x00 \<notin> set (c # cs)" "length cs \<le> 18"
  shows "parse_i32 (Some (c # cs)) True = Inr
      (if c = CHR ''-'' \<or> c = CHR ''+''
       then if cs = [] then (-3, None)
         else if \<not> list_all is_digit cs then (-4, None)
         else if INT_MAX < decimal cs then (-5, None)
         else (0, Some (decimal cs))
       else if is_digit c then (-4, None) else (-3, None))
    \<and> parse_i32 (Some []) True = Inr (-3, None) \<and> parse_i32 None True = Inr (-2, None)
    \<and> parse_i32 s False = Inr (-1, None)"
proof -
  note parse_loop.simps [simp del] cbind_eq_Inr [simp del]
  have unsigned: "parse_loop (c # cs) (Suc (length cs)) 0 1 = Inr (Inl (-4))"
    by (simp add: parse_loop.simps c_char_def zero_not_digit)
  have signed: "parse_loop (c # cs) (length cs) 0 1
      = Inr (if list_all is_digit cs then Inr (decimal cs) else Inl (-4))"
    using parse_loop_digits [of "length cs" "c # cs" 0 0] assms(2) by simp
  have chars: "c_char (c # cs) 0 = Inr c" "c_char (c # cs) (Suc 0) = Inr (if cs = [] then CHR 0x00 else hd cs)"
    by (auto simp: c_char_def hd_conv_nth)
  have nul: "cs \<noteq> [] \<Longrightarrow> hd cs \<noteq> CHR 0x00" using assms(1) by (cases cs) auto
  have low: "list_all is_digit cs \<Longrightarrow> \<not> decimal cs < INT_MIN"
    using decimal_nonneg [of cs] by (simp add: INT_MIN_def)
  have "parse_i32 (Some (c # cs)) True = Inr
      (if c = CHR ''-'' \<or> c = CHR ''+''
       then if cs = [] then (-3, None)
         else if \<not> list_all is_digit cs then (-4, None)
         else if INT_MAX < decimal cs then (-5, None)
         else (0, Some (decimal cs))
       else if is_digit c then (-4, None) else (-3, None))"
  proof (cases "c = CHR ''-'' \<or> c = CHR ''+''")
    case True
    then show ?thesis using signed chars nul low by (auto simp: parse_i32_def Let_def)
  next
    case False
    then show ?thesis using unsigned chars by (auto simp: parse_i32_def Let_def is_digit_def)
  qed
  moreover have "parse_i32 (Some []) True = Inr (-3, None)" "parse_i32 None True = Inr (-2, None)"
    "parse_i32 s False = Inr (-1, None)"
    by (simp_all add: parse_i32_def c_char_def zero_not_digit Let_def)
  ultimately show ?thesis by blast
qed

theorem parse_i32_results_witness:
  "CHR 0x00 \<notin> set ''-42'' \<and> length ''42'' \<le> 18 \<and> parse_i32 (Some ''-42'') True = Inr (0, Some 42)
   \<and> parse_i32 (Some ''42'') True = Inr (-4, None)"
  using parse_i32_results [of "CHR ''-''" "''42''" None] parse_i32_results [of "CHR ''4''" "''2''" None]
  by (simp add: is_digit_def decimal_def what_digit_def INT_MAX_def)

text \<open>The requirements at the top of the file, for a string and an output pointer.\<close>

definition required_i32 :: "string \<Rightarrow> int \<times> int option" where
  "required_i32 s =
     (if s = [] then (-2, None)
      else let signed = (hd s = CHR ''+'' \<or> hd s = CHR ''-''); ds = (if signed then tl s else s) in
        if signed \<and> (ds = [] \<or> \<not> is_digit (hd ds)) then (-3, None)
        else if \<not> list_all is_digit ds then (-4, None)
        else let v = (if hd s = CHR ''-'' then - decimal ds else decimal ds) in
          if INT_MAX < v \<or> v < INT_MIN then (-5, None) else (0, Some v))"

text \<open>
  C37. \<open>parse_i32\<close> meets its requirements on the strings of at most 19 characters that
  start with \<open>+\<close>, alone or before a digit: the value is stored and 0 returned if all
  characters are digits and \<open>INT32_MAX\<close> is not exceeded, a larger value gives \<open>-5\<close>, a
  later character that is no digit \<open>-4\<close>, a lone sign \<open>-3\<close>, and nothing is stored on
  failure. With \<open>-\<close> the same holds of these error codes, a magnitude above
  \<open>2147483648\<close> giving \<open>-5\<close>. A null output pointer gives \<open>-1\<close>. Nothing is claimed
  for the other strings, on which the code departs from the requirements.
\<close>

theorem parse_i32_required:
  assumes "CHR 0x00 \<notin> set cs" "length cs \<le> 18" "cs = [] \<or> is_digit (hd cs)"
  shows "parse_i32 (Some (CHR ''+'' # cs)) True = Inr (required_i32 (CHR ''+'' # cs))
    \<and> (cs = [] \<or> \<not> list_all is_digit cs \<or> INT_MAX + 1 < decimal cs \<longrightarrow>
        parse_i32 (Some (CHR ''-'' # cs)) True = Inr (required_i32 (CHR ''-'' # cs)))
    \<and> parse_i32 s False = Inr (-1, None)"
proof -
  have low: "list_all is_digit cs \<Longrightarrow> \<not> decimal cs < INT_MIN"
    using decimal_nonneg [of cs] by (simp add: INT_MIN_def)
  have nul: "CHR 0x00 \<notin> set (CHR ''+'' # cs)" "CHR 0x00 \<notin> set (CHR ''-'' # cs)" using assms(1) by simp_all
  from parse_i32_results [OF nul(1) assms(2), of s] parse_i32_results [OF nul(2) assms(2), of s] assms(3) low
  show ?thesis by (auto simp: required_i32_def Let_def INT_MAX_def INT_MIN_def)
qed

theorem parse_i32_required_witness:
  "parse_i32 (Some ''+42'') True = Inr (0, Some 42) \<and> parse_i32 (Some ''+2147483648'') True = Inr (-5, None)
   \<and> parse_i32 (Some ''+4x'') True = Inr (-4, None) \<and> parse_i32 (Some ''-2147483649'') True = Inr (-5, None)
   \<and> parse_i32 (Some ''-'') True = Inr (-3, None)"
  using parse_i32_required [of "''42''" None] parse_i32_required [of "''2147483648''" None]
    parse_i32_required [of "''4x''" None] parse_i32_required [of "''2147483649''" None] parse_i32_required [of "[]" None]
  by (simp add: required_i32_def is_digit_def decimal_def what_digit_def INT_MAX_def INT_MIN_def)

section \<open>The length labs\<close>

text \<open>\<open>memcpy\<close> of \<open>n\<close> bytes: undefined unless both objects have that many.\<close>

definition c_memcpy :: "'a list \<Rightarrow> 'a list \<Rightarrow> nat \<Rightarrow> 'a list cres" where
  "c_memcpy dst src n = (if n \<le> length dst \<and> n \<le> length src then Inr (take n src @ drop n dst) else Inl Out_Of_Bounds)"

text \<open>
  \<open>load_descs\<close>: \<open>sizeof(struct desc)\<close> is 16; \<open>alloc_ok\<close> says whether \<open>malloc\<close> succeeds, and the
  fresh block has unknown contents.
\<close>

definition sizeof_desc :: nat where
  "sizeof_desc = 16"

definition load_descs :: "bool \<Rightarrow> u8 list \<Rightarrow> u32 \<Rightarrow> int cres" where
  "load_descs alloc_ok host_buf count =
     (let bytes = count * of_nat sizeof_desc in
      if \<not> alloc_ok then Inr (-1)
      else cbind (c_memcpy (replicate (unat bytes) None) (map Some host_buf) (unat count * sizeof_desc)) (\<lambda>_. Inr 0))"

definition FW_MAX_DATA :: nat where
  "FW_MAX_DATA = 128"

record fw_packet =
  fp_len :: int
  fp_data :: "u8 list"

text \<open>The \<open>int16_t\<close> length is converted to \<open>size_t\<close> for \<open>memcpy\<close>, modulo \<open>2 ^ 64\<close>.\<close>

definition parse_fw_packet :: "u8 list \<Rightarrow> int \<Rightarrow> fw_packet \<Rightarrow> (int \<times> fw_packet) cres" where
  "parse_fw_packet src len pkt =
     (if int FW_MAX_DATA < len then Inr (-1, pkt)
      else cbind (c_memcpy (fp_data pkt) src (nat (len mod 2 ^ 64))) (\<lambda>d. Inr (0, pkt\<lparr>fp_len := len, fp_data := d\<rparr>)))"

definition MAX_PAYLOAD :: nat where
  "MAX_PAYLOAD = 64"

record mgmt_msg =
  mm_opcode :: u8
  mm_len :: u8
  mm_payload :: "u8 list"

definition parse_msg :: "u8 list \<Rightarrow> u32 \<Rightarrow> mgmt_msg \<Rightarrow> (int \<times> mgmt_msg) cres" where
  "parse_msg buf buf_len msg =
     (if buf_len < 2 then Inr (-1, msg)
      else cbind (arr_get buf 0) (\<lambda>op.
           cbind (arr_get buf 1) (\<lambda>l.
           cbind (c_memcpy (replicate 32 0) (drop 2 buf) (unat l)) (\<lambda>tmp.
           cbind (c_memcpy (mm_payload msg) tmp (unat l)) (\<lambda>p.
           Inr (0, msg\<lparr>mm_opcode := op, mm_len := l, mm_payload := p\<rparr>))))))"

lemma desc_bytes: "unat ((count :: u32) * 16) = (unat count * 16) mod 2 ^ 32"
  by (simp add: unat_word_ariths)

text \<open>
  Exactly which inputs of the three length labs are safe. \<open>load_descs\<close>, with a host
  buffer of \<open>count\<close> descriptors and an allocation that succeeds, is safe exactly below
  \<open>2 ^ 28\<close> descriptors, where the 32-bit byte count does not wrap. \<open>parse_fw_packet\<close>
  overruns its buffers for every negative length and copies exactly the accepted ones.
  \<open>parse_msg\<close> is safe exactly when the payload fits in the 32-byte temporary and in the
  message.
\<close>

theorem length_labs_safe_inputs:
  assumes desc: "length host_buf = unat count * sizeof_desc"
    and pkt: "length (fp_data pkt) = FW_MAX_DATA" "length src = FW_MAX_DATA" "- (2 ^ 15) \<le> len" "len < 2 ^ 15"
    and msg: "length (mm_payload m) = MAX_PAYLOAD" "length buf = unat buf_len" "2 \<le> buf_len"
  shows "load_descs True host_buf count = (if unat count < 2 ^ 28 then Inr 0 else Inl Out_Of_Bounds)
    \<and> parse_fw_packet src len pkt =
        (if len < 0 then Inl Out_Of_Bounds
         else if int FW_MAX_DATA < len then Inr (-1, pkt)
         else Inr (0, pkt\<lparr>fp_len := len, fp_data := take (nat len) src @ drop (nat len) (fp_data pkt)\<rparr>))
    \<and> parse_msg buf buf_len m =
        (if unat (buf ! 1) \<le> 32 \<and> unat (buf ! 1) + 2 \<le> unat buf_len
         then Inr (0, m\<lparr>mm_opcode := buf ! 0, mm_len := buf ! 1,
           mm_payload := take (unat (buf ! 1)) (drop 2 buf) @ drop (unat (buf ! 1)) (mm_payload m)\<rparr>)
         else Inl Out_Of_Bounds)"
proof (intro conjI)
  show "load_descs True host_buf count = (if unat count < 2 ^ 28 then Inr 0 else Inl Out_Of_Bounds)"
  proof (cases "unat count < 2 ^ 28")
    case True
    then show ?thesis using desc by (simp add: load_descs_def Let_def desc_bytes c_memcpy_def sizeof_desc_def)
  next
    case False
    have "unat count * 16 mod 2 ^ 32 < unat count * 16"
      using False by (intro less_le_trans [OF mod_less_divisor]) auto
    then show ?thesis
      using False desc by (simp add: load_descs_def Let_def desc_bytes c_memcpy_def sizeof_desc_def)
  qed
next
  show "parse_fw_packet src len pkt =
        (if len < 0 then Inl Out_Of_Bounds
         else if int FW_MAX_DATA < len then Inr (-1, pkt)
         else Inr (0, pkt\<lparr>fp_len := len, fp_data := take (nat len) src @ drop (nat len) (fp_data pkt)\<rparr>))"
  proof (cases "len < 0")
    case True
    then have "len mod 2 ^ 64 = len + 2 ^ 64"
      using pkt(3) by (subst mod_add_self2 [symmetric], subst mod_pos_pos_trivial) auto
    then show ?thesis using True pkt by (simp add: parse_fw_packet_def c_memcpy_def FW_MAX_DATA_def)
  next
    case False
    then have "len mod 2 ^ 64 = len" using pkt(4) by (intro mod_pos_pos_trivial) auto
    then show ?thesis using False pkt by (auto simp: parse_fw_packet_def c_memcpy_def FW_MAX_DATA_def)
  qed
next
  have n: "2 \<le> length buf" using msg by (simp add: word_le_nat_alt)
  have "unat (buf ! 1) \<le> length (drop 2 buf) \<longleftrightarrow> unat (buf ! 1) + 2 \<le> unat buf_len" using n msg(2) by auto
  then show "parse_msg buf buf_len m =
        (if unat (buf ! 1) \<le> 32 \<and> unat (buf ! 1) + 2 \<le> unat buf_len
         then Inr (0, m\<lparr>mm_opcode := buf ! 0, mm_len := buf ! 1,
           mm_payload := take (unat (buf ! 1)) (drop 2 buf) @ drop (unat (buf ! 1)) (mm_payload m)\<rparr>)
         else Inl Out_Of_Bounds)"
    using n msg by (simp add: parse_msg_def c_memcpy_def MAX_PAYLOAD_def not_less)
qed

theorem length_labs_safe_inputs_witness:
  "load_descs True (replicate 32 0) 2 = Inr 0
   \<and> parse_fw_packet (replicate 128 7) (-1) \<lparr>fp_len = 0, fp_data = replicate 128 0\<rparr> = Inl Out_Of_Bounds
   \<and> parse_msg [9, 33] 2 \<lparr>mm_opcode = 0, mm_len = 0, mm_payload = replicate 64 0\<rparr> = Inl Out_Of_Bounds"
  using length_labs_safe_inputs [of "replicate 32 0" 2 "\<lparr>fp_len = 0, fp_data = replicate 128 0\<rparr>" "replicate 128 7" "-1"
      "\<lparr>mm_opcode = 0, mm_len = 0, mm_payload = replicate 64 0\<rparr>" "[9, 33]" 2]
  by (simp add: sizeof_desc_def FW_MAX_DATA_def MAX_PAYLOAD_def)

section \<open>missing_barrier_before_doorbell.c\<close>

record cmd_desc =
  cd_opcode :: u32
  cd_len :: u32
  cd_addr :: u64

record cmd_queue =
  q_descs :: "cmd_desc list"
  q_head :: u32

text \<open>\<open>submit_cmd\<close> in program order: the updated queue and the value written to the doorbell.\<close>

definition submit_cmd :: "cmd_queue \<Rightarrow> cmd_desc \<Rightarrow> (cmd_queue \<times> u32) cres" where
  "submit_cmd q cmd =
     cbind (arr_set (q_descs q) (unat (q_head q AND 255)) cmd) (\<lambda>ds.
       let q = q\<lparr>q_descs := ds, q_head := q_head q + 1\<rparr> in Inr (q, q_head q))"

lemma submit_cmd_slot:
  assumes "length (q_descs q) = 256"
  shows "\<exists>q' d. submit_cmd q cmd = Inr (q', d) \<and> d = q_head q + 1 \<and> q_head q' = d
    \<and> q_descs q' ! unat ((d - 1) AND 255) = cmd \<and> length (q_descs q') = 256"
proof -
  have "q_head q AND 255 \<le> 255" by (rule word_and_le1)
  then have "unat (q_head q AND 255) < 256" by (simp add: word_le_nat_alt)
  then show ?thesis using assms by (simp add: submit_cmd_def Let_def)
qed

end
