(* ===== verification/C_Library.thy ===== *)
theory C_Library
  imports Parsers
begin

text \<open>
  What the command-line programs use of the C library: \<open>strtol\<close> in base 10,
  \<open>atoi\<close>, and \<open>getopt\<close> with short options (GNU: arguments that are not options are
  skipped and end up after the options). A C string is a \<open>string\<close> without the
  terminating zero; \<open>long\<close> has 64 bits.
\<close>

section \<open>Numbers\<close>

text \<open>Conversion to \<open>int\<close>, and arithmetic that wraps around at 32 bits.\<close>

definition wrap32 :: "int \<Rightarrow> int" where
  "wrap32 z = (z + 2 ^ 31) mod 2 ^ 32 - 2 ^ 31"

lemma wrap32_add: "wrap32 (wrap32 a + b) = wrap32 (a + b)"
proof -
  have "wrap32 a + b + 2 ^ 31 = (a + 2 ^ 31) mod 2 ^ 32 + b" by (simp add: wrap32_def)
  moreover have "((a + 2 ^ 31) mod 2 ^ 32 + b) mod 2 ^ 32 = (a + 2 ^ 31 + b) mod 2 ^ 32" by (rule mod_add_left_eq)
  moreover have "a + 2 ^ 31 + b = a + b + 2 ^ 31" by simp
  ultimately show ?thesis unfolding wrap32_def [of "wrap32 a + b"] wrap32_def [of "a + b"] by (simp only:)
qed

lemma wrap32_id: "int_range z \<Longrightarrow> wrap32 z = z"
  by (simp add: wrap32_def int_range_def INT_MAX_def INT_MIN_def)

definition c_isspace :: "char \<Rightarrow> bool" where
  "c_isspace c \<longleftrightarrow> c = CHR '' '' \<or> (9 \<le> (of_char c :: nat) \<and> (of_char c :: nat) \<le> 13)"

definition LONG_MAX :: int where
  "LONG_MAX = 2 ^ 63 - 1"

definition LONG_MIN :: int where
  "LONG_MIN = - (2 ^ 63)"

text \<open>The result, the offset of \<open>endptr\<close>, and whether \<open>errno\<close> becomes \<open>ERANGE\<close>.\<close>

definition c_strtol :: "string \<Rightarrow> int \<times> nat \<times> bool" where
  "c_strtol s =
     (let r = dropWhile c_isspace s;
          sign = (r \<noteq> [] \<and> (hd r = CHR ''-'' \<or> hd r = CHR ''+''));
          digits = takeWhile is_digit (if sign then tl r else r);
          v = (if sign \<and> hd r = CHR ''-'' then - decimal digits else decimal digits)
      in if digits = [] then (0, 0, False)
         else (max LONG_MIN (min LONG_MAX v),
               length (takeWhile c_isspace s) + (if sign then 1 else 0) + length digits,
               v < LONG_MIN \<or> LONG_MAX < v))"

text \<open>\<open>atoi\<close> of a number that no \<open>int\<close> holds is undefined.\<close>

definition c_atoi :: "string \<Rightarrow> int cres" where
  "c_atoi s = c_int (fst (c_strtol s))"

text \<open>The decimal digits of a number.\<close>

definition digit_char :: "nat \<Rightarrow> char" where
  "digit_char k = ''0123456789'' ! k"

fun dec :: "nat \<Rightarrow> string" where
  "dec n = (if n < 10 then [digit_char n] else dec (n div 10) @ [digit_char (n mod 10)])"

declare dec.simps [simp del]

lemma what_digit_char: "k < 10 \<Longrightarrow> what_digit (digit_char k) = int k"
proof -
  assume "k < 10"
  then have "k = 0 \<or> k = 1 \<or> k = 2 \<or> k = 3 \<or> k = 4 \<or> k = 5 \<or> k = 6 \<or> k = 7 \<or> k = 8 \<or> k = 9"
    by arith
  then show ?thesis by (elim disjE) (simp_all add: what_digit_def digit_char_def)
qed

lemma dec_ok: "dec n \<noteq> [] \<and> list_all is_digit (dec n) \<and> decimal (dec n) = int n"
proof (induction n rule: dec.induct)
  case (1 n)
  show ?case
  proof (cases "n < 10")
    case True
    then show ?thesis by (subst (1 2 3) dec.simps) (simp add: is_digit_def decimal_def what_digit_char)
  next
    case False
    with 1 have "list_all is_digit (dec (n div 10))" "decimal (dec (n div 10)) = int (n div 10)" by simp_all
    with False show ?thesis
      by (subst (1 2 3) dec.simps) (simp add: is_digit_def decimal_snoc what_digit_char zdiv_int zmod_int)
  qed
qed

lemma digit_not_space: "is_digit c \<Longrightarrow> \<not> c_isspace c"
  unfolding is_digit_def what_digit_def by (auto simp: c_isspace_def split: if_splits)

lemma takeWhile_digits: "list_all is_digit ds \<Longrightarrow> takeWhile is_digit ds = ds"
  by (simp add: list_all_iff takeWhile_eq_all_conv)

lemma strtol_digits:
  assumes "ds \<noteq> []" "list_all is_digit ds"
  shows "c_strtol ds = (min LONG_MAX (decimal ds), length ds, LONG_MAX < decimal ds)"
proof -
  obtain c cs where c: "ds = c # cs" "is_digit c" using assms by (cases ds) auto
  have "0 \<le> decimal ds" using assms(2) by (rule decimal_nonneg)
  have all: "takeWhile is_digit cs = cs" using assms(2) c by (intro takeWhile_digits) simp
  show ?thesis using c \<open>0 \<le> decimal ds\<close> digit_not_sign [of c] digit_not_space [of c]
    by (simp add: all c_strtol_def Let_def LONG_MIN_def LONG_MAX_def max_def min_def)
qed

lemma strtol_dec: "int n \<le> LONG_MAX \<Longrightarrow> c_strtol (dec n) = (int n, length (dec n), False)"
  using dec_ok [of n] by (simp add: strtol_digits)

lemma atoi_dec: "int n \<le> INT_MAX \<Longrightarrow> c_atoi (dec n) = Inr (int n)"
  using strtol_dec [of n] by (simp add: c_atoi_def INT_MAX_def LONG_MAX_def int_range_def INT_MIN_def)

lemma strtol_range: "LONG_MIN \<le> fst (c_strtol s) \<and> fst (c_strtol s) \<le> LONG_MAX"
  by (auto simp: c_strtol_def Let_def LONG_MIN_def LONG_MAX_def)

lemma strtol_end: "fst (snd (c_strtol s)) \<le> length s"
proof -
  let ?r = "dropWhile c_isspace s"
  have s: "length (takeWhile c_isspace s) + length ?r = length s"
    by (metis length_append takeWhile_dropWhile_id)
  have "length (takeWhile is_digit xs) \<le> length xs" for xs by (rule length_takeWhile_le)
  from this [of ?r] this [of "tl ?r"] s show ?thesis
    by (cases ?r) (auto simp: c_strtol_def Let_def simp del: dropWhile_eq_Nil_conv)
qed

section \<open>Options\<close>

text \<open>Whether \<open>optstring\<close> has the option, and whether it takes an argument.\<close>

fun opt_kind :: "string \<Rightarrow> char \<Rightarrow> bool option" where
  "opt_kind [] c = None"
| "opt_kind (x # os) c =
     (if x = c \<and> c \<noteq> CHR '':'' then Some (os \<noteq> [] \<and> hd os = CHR '':'') else opt_kind os c)"

text \<open>The options in one argument, and the last one if its own argument comes next.\<close>

fun opt_cluster :: "string \<Rightarrow> string \<Rightarrow> (char \<times> string) list \<times> char option" where
  "opt_cluster os [] = ([], None)"
| "opt_cluster os (c # cs) =
     (case opt_kind os c of
        None \<Rightarrow> apfst (Cons (CHR ''?'', [])) (opt_cluster os cs)
      | Some False \<Rightarrow> apfst (Cons (c, [])) (opt_cluster os cs)
      | Some True \<Rightarrow> if cs = [] then ([], Some c) else ([(c, cs)], None))"

text \<open>What the calls of \<open>getopt\<close> return, with \<open>optarg\<close>, and the arguments left over.\<close>

fun getopts :: "string \<Rightarrow> string list \<Rightarrow> (char \<times> string) list \<times> string list" where
  "getopts os [] = ([], [])"
| "getopts os (a # args) =
     (if a = ''--'' then ([], args)
      else if length a < 2 \<or> hd a \<noteq> CHR ''-'' then apsnd (Cons a) (getopts os args)
      else case opt_cluster os (tl a) of
        (opts, None) \<Rightarrow> apfst (append opts) (getopts os args)
      | (opts, Some c) \<Rightarrow>
          (case args of
             [] \<Rightarrow> (opts @ [(CHR ''?'', [])], [])
           | b # args' \<Rightarrow> apfst (append (opts @ [(c, b)])) (getopts os args')))"

end
