(* ===== verification/Locking.thy ===== *)
theory Locking
  imports Lock_Machine C_Library "HOL-Library.Product_Lexorder"
begin

text \<open>
  \<open>32_ConcurrencyBugs\<close>: the driver \<open>main-common.c\<close> with three of its
  implementations of \<open>vector_add\<close> (\<open>vector-deadlock.c\<close>,
  \<open>vector-global-order.c\<close>, \<open>vector-avoid-hold-and-wait.c\<close>), and
  \<open>coding_challenges/deadlock_free_multi_lock_transfer.c\<close>.

  Each function is the script its thread runs on the lock machine. The vectors
  are the elements of the array \<open>v\<close>, so comparing two pointers is comparing two
  indices. \<open>print_info\<close> takes its lock \<open>print_lock\<close>; the text it prints is not part of
  the memory.
\<close>

section \<open>Vectors\<close>

definition VECTOR_SIZE :: nat where
  "VECTOR_SIZE = 100"

definition MAX_THREADS :: nat where
  "MAX_THREADS = 100"

type_synonym vectors = "int list list"

datatype vlock = Vec nat | Global | Print

definition vector_init :: "int \<Rightarrow> int list" where
  "vector_init value = replicate VECTOR_SIZE value"

definition v_init :: vectors where
  "v_init = map (\<lambda>i. vector_init (int i)) [0..<2 * MAX_THREADS]"

text \<open>One round of the loop of \<open>vector_add\<close>.\<close>

definition add_elem :: "nat \<Rightarrow> nat \<Rightarrow> nat \<Rightarrow> vectors \<Rightarrow> vectors cres" where
  "add_elem dst src i vs =
     cbind (arr_get vs dst) (\<lambda>d. cbind (arr_get vs src) (\<lambda>s.
     cbind (arr_get d i) (\<lambda>a. cbind (arr_get s i) (\<lambda>b.
     cbind (c_int (a + b)) (\<lambda>c. Inr (vs[dst := d[i := c]]))))))"

definition add_loop :: "nat \<Rightarrow> nat \<Rightarrow> (vlock, vectors) instr list" where
  "add_loop dst src = map (\<lambda>i. Act [Vec dst, Vec src] (add_elem dst src i)) [0..<VECTOR_SIZE]"

definition vector_add_deadlock :: "nat \<Rightarrow> nat \<Rightarrow> (vlock, vectors) instr list" where
  "vector_add_deadlock dst src =
     [Lock (Vec dst), Lock (Vec src)] @ add_loop dst src @ [Unlock (Vec dst), Unlock (Vec src)]"

definition vector_add_global_order :: "nat \<Rightarrow> nat \<Rightarrow> (vlock, vectors) instr list" where
  "vector_add_global_order dst src =
     (if dst < src then [Lock (Vec dst), Lock (Vec src)]
      else if dst > src then [Lock (Vec src), Lock (Vec dst)]
      else [Lock (Vec src)])
     @ add_loop dst src @ [Unlock (Vec src)] @ (if dst \<noteq> src then [Unlock (Vec dst)] else [])"

definition vector_add_hold_and_wait :: "nat \<Rightarrow> nat \<Rightarrow> (vlock, vectors) instr list" where
  "vector_add_hold_and_wait dst src =
     [Lock Global, Lock (Vec dst), Lock (Vec src), Unlock Global]
     @ add_loop dst src @ [Unlock (Vec dst), Unlock (Vec src)]"

section \<open>The driver\<close>

record thread_arg =
  tid :: nat
  vector_add_order :: nat
  vector_0 :: nat
  vector_1 :: nat

definition print_info :: "bool \<Rightarrow> (vlock, vectors) instr list" where
  "print_info verbose = (if \<not> verbose then [] else [Lock Print, Act [Print] Inr, Unlock Print])"

definition worker :: "(nat \<Rightarrow> nat \<Rightarrow> (vlock, vectors) instr list) \<Rightarrow> bool \<Rightarrow> nat \<Rightarrow> thread_arg
    \<Rightarrow> (vlock, vectors) instr list" where
  "worker vector_add verbose loops args =
     (let (v0, v1) = (if vector_add_order args = 0 then (vector_0 args, vector_1 args)
                      else (vector_1 args, vector_0 args))
      in concat (replicate loops (print_info verbose @ vector_add v0 v1 @ print_info verbose)))"

definition main_arg :: "bool \<Rightarrow> bool \<Rightarrow> nat \<Rightarrow> thread_arg" where
  "main_arg enable_parallelism cause_deadlock i =
     \<lparr>tid = i, vector_add_order = (if cause_deadlock \<and> i mod 2 = 1 then 1 else 0),
      vector_0 = (if enable_parallelism then i * 2 else 0),
      vector_1 = (if enable_parallelism then i * 2 + 1 else 1)\<rparr>"

definition main_scripts :: "(nat \<Rightarrow> nat \<Rightarrow> (vlock, vectors) instr list) \<Rightarrow> bool \<Rightarrow> bool \<Rightarrow> bool
    \<Rightarrow> nat \<Rightarrow> nat \<Rightarrow> (vlock, vectors) instr list list" where
  "main_scripts vector_add verbose enable_parallelism cause_deadlock loops num_threads =
     map (\<lambda>i. worker vector_add verbose loops (main_arg enable_parallelism cause_deadlock i)) [0..<num_threads]"

lemma print_info_acts: "set (acts (print_info verbose)) \<subseteq> {Inr}"
  by (simp add: print_info_def)

lemma main_scripts_obey:
  assumes "\<And>i. obeys P {} (vector_add i (Suc i))" "dl \<Longrightarrow> (\<And>i. obeys P {} (vector_add (Suc i) i))"
    and "\<And>f. obeys P {} [Lock Print, Act [Print] f, Unlock Print]"
  shows "\<forall>cs \<in> set (main_scripts vector_add verbose par dl loops n). obeys P {} cs"
proof -
  have "obeys P {} (print_info verbose)" using assms(3) by (simp add: print_info_def)
  with assms(1,2) show ?thesis
    by (auto simp: main_scripts_def worker_def main_arg_def intro!: obeys_repeat obeys_append)
qed

section \<open>Locking disciplines of the variants\<close>

fun vrank :: "vlock \<Rightarrow> nat" where
  "vrank Global = 0"
| "vrank Print = 0"
| "vrank (Vec i) = Suc i"

lemma add_loop_obeys:
  assumes "\<And>f. P H (Act [Vec dst, Vec src] f)" "obeys P H cs"
  shows "obeys P H (add_loop dst src @ cs)"
proof -
  have "obeys P H (map (\<lambda>i. Act [Vec dst, Vec src] (add_elem dst src i)) is @ cs)" for "is"
    by (induction "is") (simp_all add: assms)
  then show ?thesis by (simp add: add_loop_def)
qed

lemma global_order_obeys: "obeys (in_order vrank) {} (vector_add_global_order dst src)"
  by (auto simp: vector_add_global_order_def intro!: add_loop_obeys)

lemma hold_and_wait_obeys:
  "dst \<noteq> src \<Longrightarrow> obeys (under_global Global {Print}) {} (vector_add_hold_and_wait dst src)"
  by (auto simp: vector_add_hold_and_wait_def intro!: add_loop_obeys)

lemma deadlock_obeys: "obeys (in_order vrank) {} (vector_add_deadlock i (Suc i))"
  by (auto simp: vector_add_deadlock_def intro!: add_loop_obeys)

section \<open>What the vectors hold\<close>

definition vec_ok :: "vectors \<Rightarrow> nat \<Rightarrow> bool" where
  "vec_ok vs i \<longleftrightarrow> i < length vs \<and> length (vs ! i) = VECTOR_SIZE"

definition vec_sum :: "vectors \<Rightarrow> nat \<Rightarrow> nat \<Rightarrow> nat \<Rightarrow> int list" where
  "vec_sum vs dst src k =
     map (\<lambda>i. if i < k then vs ! dst ! i + vs ! src ! i else vs ! dst ! i) [0..<VECTOR_SIZE]"

lemma add_elem_ok:
  assumes "vec_ok vs dst" "vec_ok vs src" "i < VECTOR_SIZE"
  shows "add_elem dst src i vs
       = cbind (c_int (vs ! dst ! i + vs ! src ! i)) (\<lambda>c. Inr (vs[dst := (vs ! dst)[i := c]]))"
  using assms by (simp add: add_elem_def vec_ok_def)

lemma add_elem_vec_sum:
  assumes "dst \<noteq> src" "vec_ok vs dst" "vec_ok vs src" "k < VECTOR_SIZE"
    and "int_range (vs ! dst ! k + vs ! src ! k)"
  shows "add_elem dst src k (vs[dst := vec_sum vs dst src k]) = Inr (vs[dst := vec_sum vs dst src (Suc k)])"
proof -
  have "(vec_sum vs dst src k)[k := vs ! dst ! k + vs ! src ! k] = vec_sum vs dst src (Suc k)"
    using assms(4)
    by (intro nth_equalityI) (simp_all add: vec_sum_def nth_list_update less_Suc_eq)
  then show ?thesis
    using assms by (subst add_elem_ok) (auto simp: vec_ok_def vec_sum_def)
qed

lemma run_add_loop:
  assumes "dst \<noteq> src" "vec_ok vs dst" "vec_ok vs src"
    and "\<forall>i < VECTOR_SIZE. int_range (vs ! dst ! i + vs ! src ! i)"
  shows "run_script (add_loop dst src) (Inr vs) = Inr (vs[dst := vec_sum vs dst src VECTOR_SIZE])"
proof -
  have "run_script (map (\<lambda>i. Act [Vec dst, Vec src] (add_elem dst src i)) [0..<k]) (Inr vs)
      = Inr (vs[dst := vec_sum vs dst src k])" if "k \<le> VECTOR_SIZE" for k
    using that
  proof (induction k)
    case 0
    have "vec_sum vs dst src 0 = vs ! dst"
      using assms(2) by (intro nth_equalityI) (simp_all add: vec_sum_def vec_ok_def)
    then show ?case by simp
  next
    case (Suc k)
    with add_elem_vec_sum [OF assms(1-3), of k] assms(4) show ?case by simp
  qed
  then show ?thesis by (simp add: add_loop_def)
qed

lemma commuting_add:
  "commuting (\<lambda>vs. vec_ok vs dst \<and> vec_ok vs src) (add_elem dst src ` {..<VECTOR_SIZE})" if "dst \<noteq> src"
proof -
  let ?D = "\<lambda>vs. vec_ok vs dst \<and> vec_ok vs src"
  have upd: "?D (vs[dst := (vs ! dst)[i := c]])" if "?D vs" for vs i c
    using that by (auto simp: vec_ok_def nth_list_update)
  have keep: "?D vs'" if "?D vs" "add_elem dst src i vs = Inr vs'" "i < VECTOR_SIZE" for vs vs' i
    using that add_elem_ok [of vs dst src i] upd [OF that(1)] by auto
  have "cbind (add_elem dst src i vs) (add_elem dst src j) = cbind (add_elem dst src j vs) (add_elem dst src i)"
    if D: "?D vs" and ij: "i < VECTOR_SIZE" "j < VECTOR_SIZE" "i \<noteq> j" for vs i j
  proof -
    have next_elem: "add_elem dst src b (vs[dst := (vs ! dst)[a := c]])
        = cbind (c_int (vs ! dst ! b + vs ! src ! b)) (\<lambda>e. Inr (vs[dst := (vs ! dst)[a := c, b := e]]))"
      if "a \<noteq> b" "a < VECTOR_SIZE" "b < VECTOR_SIZE" for a b c
      using D that upd [OF D, of a c] \<open>dst \<noteq> src\<close> by (subst add_elem_ok) (auto simp: vec_ok_def)
    have first: "add_elem dst src a vs
        = cbind (c_int (vs ! dst ! a + vs ! src ! a)) (\<lambda>c. Inr (vs[dst := (vs ! dst)[a := c]]))"
      if "a < VECTOR_SIZE" for a using D that by (intro add_elem_ok) auto
    have "cbind (c_int x) (\<lambda>c. cbind (c_int y) (\<lambda>e. Inr (h c e)))
        = cbind (c_int y) (\<lambda>e. cbind (c_int x) (\<lambda>c. Inr (h c e)))" for x y and h :: "int \<Rightarrow> int \<Rightarrow> vectors"
      by (simp add: c_int_def)
    moreover have "(vs ! dst)[i := c, j := e] = (vs ! dst)[j := e, i := c]" for c e
      using ij(3) by (rule list_update_swap)
    ultimately show ?thesis
      using ij by (simp add: first next_elem cbind_assoc)
  qed
  note swap_elem = this
  have swap: "cbind (f vs) g = cbind (g vs) f"
    if "?D vs" "f \<in> add_elem dst src ` {..<VECTOR_SIZE}" "g \<in> add_elem dst src ` {..<VECTOR_SIZE}" for vs f g
  proof -
    from that(2,3) obtain i j where "f = add_elem dst src i" "g = add_elem dst src j"
      "i < VECTOR_SIZE" "j < VECTOR_SIZE" by blast
    with that(1) swap_elem [of vs i j] show ?thesis by (cases "i = j") simp_all
  qed
  show ?thesis unfolding commuting_def using keep swap by blast
qed

lemma add_loop_acts: "acts (add_loop dst src) = map (add_elem dst src) [0..<VECTOR_SIZE]"
proof -
  have "acts (map (\<lambda>i. Act [Vec dst, Vec src] (add_elem dst src i)) is) = map (add_elem dst src) is" for "is"
    by (induction "is") simp_all
  then show ?thesis by (simp add: add_loop_def)
qed

text \<open>One more addition of \<open>v[1]\<close>, which holds ones throughout, to \<open>v[0]\<close>.\<close>

definition v_after :: "nat \<Rightarrow> vectors" where
  "v_after m = v_init[0 := replicate VECTOR_SIZE (int m)]"

lemma v_after_nth:
  "v_after m ! 0 = replicate VECTOR_SIZE (int m)" "v_after m ! 1 = replicate VECTOR_SIZE 1"
  "vec_ok (v_after m) 0" "vec_ok (v_after m) 1"
  by (simp_all add: v_after_def v_init_def vec_ok_def vector_init_def MAX_THREADS_def)

lemma v_after_0: "v_after 0 = v_init"
  by (simp add: v_after_def v_init_def vector_init_def list_update_same_conv MAX_THREADS_def)

lemma run_add_once:
  assumes "Suc m \<le> nat INT_MAX"
  shows "run_script (vector_add_global_order 0 1) (Inr (v_after m)) = Inr (v_after (Suc m))"
proof -
  have "int_range (1 + int m)" using assms by (simp add: int_range_def INT_MIN_def INT_MAX_def)
  then have "run_script (add_loop 0 1) (Inr (v_after m))
      = Inr ((v_after m)[0 := vec_sum (v_after m) 0 1 VECTOR_SIZE])"
    by (intro run_add_loop) (use v_after_nth [of m] in \<open>simp_all add: add.commute\<close>)
  moreover have "vec_sum (v_after m) 0 1 VECTOR_SIZE = replicate VECTOR_SIZE (int (Suc m))"
    using v_after_nth [of m] by (intro nth_equalityI) (simp_all add: vec_sum_def)
  ultimately show ?thesis by (simp add: vector_add_global_order_def v_after_def)
qed

lemma run_add_many:
  "m \<le> nat INT_MAX \<Longrightarrow>
   run_script (concat (replicate m (vector_add_global_order 0 1))) (Inr v_init) = Inr (v_after m)"
proof (induction m)
  case (Suc m)
  have "concat (replicate (Suc m) (vector_add_global_order 0 1))
      = concat (replicate m (vector_add_global_order 0 1)) @ vector_add_global_order 0 1"
    by (simp flip: replicate_append_same)
  with Suc run_add_once show ?case by simp
qed (simp add: v_after_0)

lemma main_scripts_same:
  "concat (main_scripts va False False False loops n) = concat (replicate (n * loops) (va 0 1))"
proof (induction n)
  case (Suc n)
  have "main_scripts va False False False loops (Suc n)
      = main_scripts va False False False loops n @ [concat (replicate loops (va 0 1))]"
    by (simp add: main_scripts_def worker_def main_arg_def print_info_def)
  moreover have "concat (replicate (Suc n * loops) (va 0 1))
      = concat (replicate (n * loops) (va 0 1)) @ concat (replicate loops (va 0 1))"
    unfolding concat_append [symmetric] replicate_add [symmetric] by (simp add: add.commute)
  ultimately show ?case using Suc by simp
qed (simp add: main_scripts_def)

section \<open>Properties of the vector programs\<close>

text \<open>
  C8. With \<open>vector-global-order.c\<close>, for any number of threads and loops and with any
  of the driver's options, every run can be completed from every state it gets into,
  and no two threads are ever about to touch the same vector. This includes the
  option that makes the threads add in opposite directions.
\<close>

theorem global_order_no_deadlock:
  assumes "lm_reach (main_scripts vector_add_global_order verbose par dl loops n) v_init s"
  shows "(\<exists>t. lm_step\<^sup>*\<^sup>* s t \<and> lm_done t) \<and> \<not> lm_race s"
proof -
  have "\<forall>cs \<in> set (main_scripts vector_add_global_order verbose par dl loops n). obeys (in_order vrank) {} cs"
    by (rule main_scripts_obey) (simp_all add: global_order_obeys)
  from rank_order.completes [OF this assms] rank_order.no_race [OF this assms] show ?thesis by blast
qed

lemma lm_reach_init: "lm_reach scripts d (lm_init scripts d)"
  by (simp add: lm_reach_def)

theorem global_order_no_deadlock_witness:
  "\<exists>t. lm_step\<^sup>*\<^sup>* (lm_init (main_scripts vector_add_global_order True False True 1 2) v_init) t \<and> lm_done t"
  using global_order_no_deadlock [OF lm_reach_init] by blast

text \<open>
  The same holds for \<open>vector-avoid-hold-and-wait.c\<close>, although its threads take
  the vector locks in opposite orders: they do so only while they hold \<open>global\<close>.
\<close>

theorem hold_and_wait_no_deadlock:
  assumes "lm_reach (main_scripts vector_add_hold_and_wait verbose par dl loops n) v_init s"
  shows "(\<exists>t. lm_step\<^sup>*\<^sup>* s t \<and> lm_done t) \<and> \<not> lm_race s"
proof -
  have "\<forall>cs \<in> set (main_scripts vector_add_hold_and_wait verbose par dl loops n). obeys (under_global Global {Print}) {} cs"
    by (rule main_scripts_obey) (simp_all add: hold_and_wait_obeys)
  from global_order.completes [OF this assms] global_order.no_race [OF this assms] show ?thesis by blast
qed

theorem hold_and_wait_no_deadlock_witness:
  "\<exists>t. lm_step\<^sup>*\<^sup>* (lm_init (main_scripts vector_add_hold_and_wait True False True 1 2) v_init) t \<and> lm_done t"
  using hold_and_wait_no_deadlock [OF lm_reach_init] by blast

text \<open>Two threads that take two locks in opposite orders can block each other.\<close>

lemma opposite_orders_stuck:
  assumes "a \<noteq> b"
  shows "\<exists>s. lm_reach [[Lock a, Lock b] @ r, [Lock b, Lock a] @ q] d s \<and> lm_stuck s"
proof -
  let ?s0 = "lm_init [[Lock a, Lock b] @ r, [Lock b, Lock a] @ q] d"
  let ?s1 = "\<lparr>holder = (\<lambda>_. None)(a := Some 0), todo = [Lock b # r, Lock b # Lock a # q], mem = Inr d\<rparr>"
  let ?s2 = "\<lparr>holder = (\<lambda>_. None)(a := Some 0, b := Some 1), todo = [Lock b # r, Lock a # q], mem = Inr d\<rparr>"
  have "lm_step ?s0 ?s1" using lm_lock [of 0 ?s0 a] by (simp add: lm_init_def)
  moreover have "lm_step ?s1 ?s2" using lm_lock [of 1 ?s1 b] assms by simp
  ultimately have "lm_reach [[Lock a, Lock b] @ r, [Lock b, Lock a] @ q] d ?s2"
    unfolding lm_reach_def by (meson converse_rtranclp_into_rtranclp rtranclp.rtrancl_refl)
  moreover have "\<not> lm_step ?s2 t" for t
  proof
    assume "lm_step ?s2 t"
    then show False by cases (auto simp: less_Suc_eq assms)
  qed
  then have "lm_stuck ?s2" by (simp add: lm_stuck_def lm_done_def)
  ultimately show ?thesis by blast
qed

text \<open>
  \<open>vector-deadlock.c\<close> takes the destination's lock first. When all threads add
  in the same direction that is harmless and every run can be completed; with the
  option \<open>-d\<close>, two threads and any positive number of loops, the program can get
  stuck for good.
\<close>

theorem vector_deadlock_only_with_d:
  "(lm_reach (main_scripts vector_add_deadlock verbose par False loops n) v_init s \<longrightarrow>
      (\<exists>t. lm_step\<^sup>*\<^sup>* s t \<and> lm_done t) \<and> \<not> lm_race s)
   \<and> (\<exists>s. lm_reach (main_scripts vector_add_deadlock False False True (Suc k) 2) v_init s \<and> lm_stuck s)"
proof (intro conjI impI)
  assume reach: "lm_reach (main_scripts vector_add_deadlock verbose par False loops n) v_init s"
  have ok: "\<forall>cs \<in> set (main_scripts vector_add_deadlock verbose par False loops n). obeys (in_order vrank) {} cs"
    by (rule main_scripts_obey) (simp_all add: deadlock_obeys)
  show "\<exists>t. lm_step\<^sup>*\<^sup>* s t \<and> lm_done t" "\<not> lm_race s"
    by (rule rank_order.completes [OF ok reach], rule rank_order.no_race [OF ok reach])
next
  define r where "r a b = add_loop a b @ [Unlock (Vec a), Unlock (Vec b)]
      @ concat (replicate k (vector_add_deadlock a b))" for a b
  have "main_scripts vector_add_deadlock False False True (Suc k) 2
      = [[Lock (Vec 0), Lock (Vec 1)] @ r 0 1, [Lock (Vec 1), Lock (Vec 0)] @ r 1 0]"
    by (simp add: main_scripts_def worker_def main_arg_def vector_add_deadlock_def print_info_def r_def upt_rec)
  with opposite_orders_stuck [of "Vec 0" "Vec 1" "r 0 1" "r 1 0" v_init]
  show "\<exists>s. lm_reach (main_scripts vector_add_deadlock False False True (Suc k) 2) v_init s \<and> lm_stuck s" by simp
qed

theorem vector_deadlock_only_with_d_witness:
  "(\<exists>t. lm_step\<^sup>*\<^sup>* (lm_init (main_scripts vector_add_deadlock False False False 1 2) v_init) t \<and> lm_done t)
   \<and> (\<exists>s. lm_reach (main_scripts vector_add_deadlock False False True 1 2) v_init s \<and> lm_stuck s)"
  using vector_deadlock_only_with_d [of False False 1 2 "lm_init (main_scripts vector_add_deadlock False False False 1 2) v_init" 0]
  by (simp add: lm_reach_init)

text \<open>
  C27. Without options, \<open>n\<close> threads of the global-order program that loop \<open>loops\<close>
  times each leave in \<open>v[0]\<close> exactly the initial value plus \<open>n * loops\<close> times
  \<open>v[1]\<close>, however they are interleaved (as long as that fits an \<open>int\<close>): no
  addition is lost.
\<close>

theorem global_order_result:
  assumes "lm_reach (main_scripts vector_add_global_order False False False loops n) v_init s" "lm_done s"
    and "n * loops \<le> nat INT_MAX"
  shows "mem s = Inr (v_init[0 := replicate VECTOR_SIZE (int (n * loops))])"
proof -
  have "set (acts (concat (replicate m (vector_add_global_order 0 1)))) \<subseteq> add_elem 0 1 ` {..<VECTOR_SIZE}" for m
    by (induction m) (auto simp: vector_add_global_order_def add_loop_acts)
  with lm_done_result [OF commuting_add _ _ assms(1,2), of 0 1] v_after_nth(3,4) [of 0, unfolded v_after_0]
    run_add_many [OF assms(3)]
  show ?thesis by (simp add: main_scripts_same v_after_def)
qed

theorem global_order_result_witness:
  "\<exists>s. lm_reach (main_scripts vector_add_global_order False False False 5 3) v_init s \<and> lm_done s
     \<and> mem s = Inr (v_init[0 := replicate VECTOR_SIZE 15])"
proof -
  let ?i = "lm_init (main_scripts vector_add_global_order False False False 5 3) v_init"
  have ok: "\<forall>cs \<in> set (main_scripts vector_add_global_order False False False 5 3). obeys (in_order vrank) {} cs"
    by (rule main_scripts_obey) (simp_all add: global_order_obeys)
  from rank_order.completes [OF ok lm_reach_init] obtain s where s: "lm_step\<^sup>*\<^sup>* ?i s" "lm_done s" by blast
  then have "lm_reach (main_scripts vector_add_global_order False False False 5 3) v_init s"
    by (simp add: lm_reach_def)
  with global_order_result [OF this s(2)] s(2) show ?thesis by (auto simp: INT_MAX_def)
qed

section \<open>Transfers between locked counters\<close>

text \<open>
  A counter is its place in an array (its address) with its fields; the memory also
  records what each call returned. \<open>id\<close> is never written, so the ids that
  \<open>transfer_value\<close> reads before it locks are a fixed function \<open>id_of\<close> of the
  address. The statements between the locks are one action: both counters are held.
\<close>

record locked_counter =
  lc_id :: u32
  lc_value :: int

record bank =
  counters :: "locked_counter list"
  returned :: "nat \<Rightarrow> int option"

definition int64_range :: "int \<Rightarrow> bool" where
  "int64_range i \<longleftrightarrow> - (2 ^ 63) \<le> i \<and> i < 2 ^ 63"

definition return_act :: "nat \<Rightarrow> int \<Rightarrow> (nat, bank) instr" where
  "return_act call r = Act [] (\<lambda>b. Inr (b\<lparr>returned := (returned b)(call \<mapsto> r)\<rparr>))"

definition transfer_body :: "nat \<Rightarrow> nat \<Rightarrow> nat \<Rightarrow> int \<Rightarrow> bank \<Rightarrow> bank cres" where
  "transfer_body call from to amount b =
     cbind (arr_get (counters b) from) (\<lambda>f. cbind (arr_get (counters b) to) (\<lambda>t.
       if lc_value f < amount then Inr (b\<lparr>returned := (returned b)(call \<mapsto> - 3)\<rparr>)
       else if \<not> int64_range (lc_value f - amount) \<or> \<not> int64_range (lc_value t + amount)
         then Inl Signed_Overflow
       else Inr (b\<lparr>counters := (counters b)[from := f\<lparr>lc_value := lc_value f - amount\<rparr>,
                     to := t\<lparr>lc_value := lc_value t + amount\<rparr>],
                   returned := (returned b)(call \<mapsto> 0)\<rparr>)))"

definition lock_order :: "(nat \<Rightarrow> u32) \<Rightarrow> nat \<Rightarrow> nat \<Rightarrow> nat \<times> nat" where
  "lock_order id_of from to =
     (if id_of from < id_of to then (from, to)
      else if id_of from > id_of to then (to, from)
      else if from < to then (from, to) else (to, from))"

definition transfer_value :: "(nat \<Rightarrow> u32) \<Rightarrow> nat \<Rightarrow> nat option \<Rightarrow> nat option \<Rightarrow> int \<Rightarrow> (nat, bank) instr list" where
  "transfer_value id_of call from to amount =
     (case (from, to) of
        (Some from, Some to) \<Rightarrow>
          if amount \<le> 0 then [return_act call (- 2)]
          else if from = to then [return_act call 0]
          else (case lock_order id_of from to of (first, second) \<Rightarrow>
            [Lock first, Lock second, Act [from, to] (transfer_body call from to amount),
             Unlock second, Unlock first])
      | _ \<Rightarrow> [return_act call (- 1)])"

lemma transfer_obeys: "obeys (in_order (\<lambda>a. (id_of a, a))) {} (transfer_value id_of call from to amount)"
  by (auto simp: transfer_value_def return_act_def lock_order_def split: option.splits)

text \<open>A call is made by each thread: source, destination, amount.\<close>

definition transfers :: "(nat \<Rightarrow> u32) \<Rightarrow> (nat option \<times> nat option \<times> int) list \<Rightarrow> (nat, bank) instr list list" where
  "transfers id_of calls =
     map (\<lambda>i. case calls ! i of (from, to, amount) \<Rightarrow> transfer_value id_of i from to amount) [0..<length calls]"

definition total :: "bank \<Rightarrow> int" where
  "total b = sum_list (map lc_value (counters b))"

lemma sum_list_upd: "k < length xs \<Longrightarrow> sum_list (xs[k := x]) = sum_list xs + x - xs ! k" for xs :: "int list"
  by (induction xs arbitrary: k) (auto split: nat.splits)

lemma sum_list_transfer:
  fixes f :: "'a \<Rightarrow> int"
  assumes "i < length xs" "j < length xs" "i \<noteq> j" "f x + f y = f (xs ! i) + f (xs ! j)"
  shows "sum_list (map f (xs[i := x, j := y])) = sum_list (map f xs)"
  using assms by (simp add: map_update sum_list_upd)

lemma transfer_body_keeps:
  assumes "transfer_body call from to amount b = Inr b'" "from \<noteq> to" "0 < amount"
    "\<forall>c \<in> set (counters b). 0 \<le> lc_value c"
  shows "total b' = total b" "\<forall>c \<in> set (counters b'). 0 \<le> lc_value c"
proof -
  have bounds: "from < length (counters b)" "to < length (counters b)"
    using assms(1) by (auto simp: transfer_body_def arr_get_def split: if_splits)
  then show "total b' = total b"
    using assms(1,2) by (auto simp: transfer_body_def total_def sum_list_transfer split: if_splits)
  have "0 \<le> lc_value (counters b ! to)" using assms(4) bounds by simp
  then show "\<forall>c \<in> set (counters b'). 0 \<le> lc_value c"
    using assms bounds
    by (auto simp: transfer_body_def split: if_splits dest!: set_update_subset_insert [THEN subsetD])
qed

lemma transfer_acts:
  assumes "f \<in> set (acts (transfer_value id_of call from to amount))"
  shows "(\<exists>a b. a \<noteq> b \<and> 0 < amount \<and> f = transfer_body call a b amount)
       \<or> (\<exists>r. f = (\<lambda>b. Inr (b\<lparr>returned := (returned b)(call \<mapsto> r)\<rparr>)))"
proof (cases "from = None \<or> to = None \<or> amount \<le> 0 \<or> from = to")
  case True
  with assms show ?thesis
    by (auto simp: transfer_value_def return_act_def split: option.splits if_splits)
next
  case False
  then obtain x y where xy: "from = Some x" "to = Some y" "0 < amount" "x \<noteq> y" by auto
  with assms have "f = transfer_body call x y amount"
    by (simp add: transfer_value_def split: prod.splits)
  with xy show ?thesis by blast
qed

text \<open>
  C7. Any number of threads may call \<open>transfer_value\<close> at once, on any counters (also
  with equal ids), with null pointers or bad amounts: every run can be completed, no
  counter is touched by two threads at once, and whenever the memory is defined (no \<open>int64_t\<close> sum overflowed, the pointers are valid) the
  total over all counters is what it was and no counter is negative.
\<close>

theorem transfers_safe:
  assumes "lm_reach (transfers id_of calls) b s" "\<forall>c \<in> set (counters b). 0 \<le> lc_value c"
  shows "(\<exists>t. lm_step\<^sup>*\<^sup>* s t \<and> lm_done t) \<and> \<not> lm_race s
       \<and> (\<forall>b'. mem s = Inr b' \<longrightarrow> total b' = total b \<and> (\<forall>c \<in> set (counters b'). 0 \<le> lc_value c))"
proof -
  have ok: "\<forall>cs \<in> set (transfers id_of calls). obeys (in_order (\<lambda>a. (id_of a, a))) {} cs"
    by (auto simp: transfers_def transfer_obeys split: prod.splits)
  let ?Q = "\<lambda>x. total x = total b \<and> (\<forall>c \<in> set (counters x). 0 \<le> lc_value c)"
  have "?Q d'" if f: "f \<in> set (acts (concat (transfers id_of calls)))" and d: "?Q d" "f d = Inr d'" for f d d'
  proof -
    have "set (acts (concat xss)) = (\<Union>xs \<in> set xss. set (acts xs))" for xss :: "(nat, bank) instr list list"
      by (induction xss) auto
    then obtain i where i: "f \<in> set (acts (case calls ! i of (x, y, a) \<Rightarrow> transfer_value id_of i x y a))"
      using f by (auto simp: transfers_def)
    obtain x y amount where "calls ! i = (x, y, amount)" by (cases "calls ! i")
    with i have "f \<in> set (acts (transfer_value id_of i x y amount))" by simp
    from transfer_acts [OF this] show ?thesis
      using d transfer_body_keeps [of i _ _ amount d d'] by (auto simp: total_def)
  qed
  then have "cres_all ?Q (mem s)" using assms by (intro lm_mem_inv [OF _ _ assms(1)]) blast+
  with rank_order.completes [OF ok assms(1)] rank_order.no_race [OF ok assms(1)] show ?thesis
    by (auto split: sum.splits)
qed

definition two_counters :: bank where
  "two_counters = \<lparr>counters = [\<lparr>lc_id = 7, lc_value = 50\<rparr>, \<lparr>lc_id = 3, lc_value = 10\<rparr>],
                   returned = Map.empty\<rparr>"

definition two_ids :: "nat \<Rightarrow> u32" where
  "two_ids i = (if i = 0 then 7 else 3)"

theorem transfers_safe_witness:
  "(\<exists>t. lm_step\<^sup>*\<^sup>* (lm_init (transfers two_ids [(Some 0, Some 1, 30), (Some 1, Some 0, 5)]) two_counters) t
      \<and> lm_done t) \<and> total two_counters = 60"
  using transfers_safe [OF lm_reach_init, of two_counters two_ids "[(Some 0, Some 1, 30), (Some 1, Some 0, 5)]"]
  by (simp add: two_counters_def total_def)

text \<open>
  A single call, branch by branch: -1 for a null pointer, -2 for an amount that is
  not positive, 0 and no change when source and destination are the same, -3 and no
  change when the source has too little, and else the amount is moved.
\<close>

theorem transfer_value_result:
  assumes "\<forall>a \<in> {from, to}. case a of None \<Rightarrow> True | Some i \<Rightarrow> i < length (counters b)"
    and "\<forall>c \<in> set (counters b). 0 \<le> lc_value c \<and> lc_value c + amount < 2 ^ 63"
  shows "run_script (transfer_value id_of call from to amount) (Inr b) = Inr (
     if from = None \<or> to = None then b\<lparr>returned := (returned b)(call \<mapsto> - 1)\<rparr>
     else if amount \<le> 0 then b\<lparr>returned := (returned b)(call \<mapsto> - 2)\<rparr>
     else if from = to then b\<lparr>returned := (returned b)(call \<mapsto> 0)\<rparr>
     else let f = the from; t = the to; cf = counters b ! f; ct = counters b ! t in
       if lc_value cf < amount then b\<lparr>returned := (returned b)(call \<mapsto> - 3)\<rparr>
       else b\<lparr>counters := (counters b)[f := cf\<lparr>lc_value := lc_value cf - amount\<rparr>,
                t := ct\<lparr>lc_value := lc_value ct + amount\<rparr>], returned := (returned b)(call \<mapsto> 0)\<rparr>)"
proof (cases "from = None \<or> to = None \<or> amount \<le> 0 \<or> from = to")
  case True
  then show ?thesis by (auto simp: transfer_value_def return_act_def split: option.splits)
next
  case False
  then obtain x y where xy: "from = Some x" "to = Some y" "0 < amount" "x \<noteq> y" by auto
  then have len: "x < length (counters b)" "y < length (counters b)" using assms(1) by auto
  with assms(2) have "0 \<le> lc_value (counters b ! x)" "lc_value (counters b ! x) + amount < 2 ^ 63"
    "0 \<le> lc_value (counters b ! y)" "lc_value (counters b ! y) + amount < 2 ^ 63" by auto
  with xy len show ?thesis
    by (auto simp: transfer_value_def lock_order_def transfer_body_def int64_range_def Let_def)
qed

theorem transfer_value_result_witness:
  "run_script (transfer_value two_ids 0 (Some 0) (Some 1) 30) (Inr two_counters)
   = Inr \<lparr>counters = [\<lparr>lc_id = 7, lc_value = 20\<rparr>, \<lparr>lc_id = 3, lc_value = 40\<rparr>], returned = [0 \<mapsto> 0]\<rparr>
   \<and> run_script (transfer_value two_ids 0 (Some 1) (Some 0) 30) (Inr two_counters)
   = Inr (two_counters\<lparr>returned := [0 \<mapsto> - 3]\<rparr>)"
  using transfer_value_result [of "Some 0" "Some 1" two_counters 30 two_ids 0]
    transfer_value_result [of "Some 1" "Some 0" two_counters 30 two_ids 0]
  by (simp add: two_counters_def)

end
