(* ===== verification/Blocking_Queue.thy ===== *)
theory Blocking_Queue
  imports Circular Bounded_Fifo
begin

text \<open>
  \<open>coding_challenges/thread_safe_bounded_queue.c\<close>: a queue of 8 values with a mutex
  and two condition variables. The source writes \<open>&mu\<close> for \<open>&q->mu\<close> and
  \<open>data[tail]\<close> for \<open>data[q->tail]\<close>; the definitions read them so.

  The mutex makes everything from its acquisition (or from a wake-up) to the next
  wait or unlock one step: \<open>bq_push\<close> and \<open>bq_pop\<close> say whether that step waits or
  returns. \<open>bq_step\<close> lets any number of callers take such steps in any order, with
  the wake-ups that \<open>signal\<close> and \<open>broadcast\<close> cause and with spurious ones.
\<close>

section \<open>One step of a caller\<close>

definition BQ_CAPACITY :: u64 where
  "BQ_CAPACITY = 8"

record blocking_queue =
  data :: "u32 list"
  head :: u64
  tail :: u64
  count :: u64
  closed :: bool

definition bq_push :: "blocking_queue option \<Rightarrow> u32 \<Rightarrow> (int, blocking_queue option) attempt cres" where
  "bq_push p value = (case p of None \<Rightarrow> Inr (Ret (- 1) p False) | Some q \<Rightarrow>
     if count q = BQ_CAPACITY \<and> \<not> closed q then Inr Wait
     else if closed q then Inr (Ret (- 2) p False)
     else cbind (arr_set (data q) (unat (head q)) value) (\<lambda>d.
       Inr (Ret 0 (Some (q\<lparr>data := d, head := (head q + 1) mod BQ_CAPACITY, count := count q + 1\<rparr>)) True)))"

definition bq_pop :: "blocking_queue option \<Rightarrow> u32 option \<Rightarrow> (int, blocking_queue option \<times> u32 option) attempt cres" where
  "bq_pop p out = (case (p, out) of (Some q, Some _) \<Rightarrow>
     if count q = 0 \<and> \<not> closed q then Inr Wait
     else if closed q \<and> count q = 0 then Inr (Ret (- 2) (p, out) False)
     else cbind (arr_get (data q) (unat (tail q))) (\<lambda>v.
       Inr (Ret 0 (Some (q\<lparr>tail := (tail q + 1) mod BQ_CAPACITY, count := count q - 1\<rparr>), Some v) True))
   | _ \<Rightarrow> Inr (Ret (- 1) (p, out) False))"

definition bq_close :: "blocking_queue option \<Rightarrow> int \<times> blocking_queue option" where
  "bq_close p = (case p of None \<Rightarrow> (- 1, None) | Some q \<Rightarrow> (0, Some (q\<lparr>closed := True\<rparr>)))"

section \<open>Invariant and contents\<close>

definition bq_inv :: "blocking_queue \<Rightarrow> bool" where
  "bq_inv q \<longleftrightarrow> length (data q) = 8 \<and> unat (tail q) < 8 \<and> unat (count q) \<le> 8
     \<and> unat (head q) = (unat (tail q) + unat (count q)) mod 8"

definition bq_contents :: "blocking_queue \<Rightarrow> u32 list" where
  "bq_contents q = slots (data q) (unat (tail q)) (unat (count q))"

lemma unat_capacity: "unat BQ_CAPACITY = 8"
  by (simp add: BQ_CAPACITY_def)

lemma count_full_iff: "count q = BQ_CAPACITY \<longleftrightarrow> unat (count q) = 8"
  by (simp add: BQ_CAPACITY_def word_unat_eq_iff)

lemma bq_push_full:
  "length (bq_contents q) = 8 \<Longrightarrow> \<not> closed q \<Longrightarrow> bq_push (Some q) v = Inr Wait"
  by (simp add: bq_push_def bq_contents_def count_full_iff)

lemma bq_push_closed: "closed q \<Longrightarrow> bq_push (Some q) v = Inr (Ret (- 2) (Some q) False)"
  by (simp add: bq_push_def)

lemma bq_push_room:
  assumes inv: "bq_inv q" and room: "length (bq_contents q) < 8" and "\<not> closed q"
  shows "\<exists>q'. bq_push (Some q) v = Inr (Ret 0 (Some q') True) \<and> bq_inv q'
       \<and> bq_contents q' = bq_contents q @ [v] \<and> \<not> closed q'"
proof -
  have c: "unat (count q) < 8" using room by (simp add: bq_contents_def)
  have q: "length (data q) = 8" "unat (head q) = (unat (tail q) + unat (count q)) mod 8"
    using inv by (simp_all add: bq_inv_def)
  from inv c mod_ring_push [OF q(1) unat_capacity c q(2)] assms(3) show ?thesis
    by (auto simp: bq_push_def bq_inv_def bq_contents_def count_full_iff unat_capacity)
qed

lemma bq_pop_empty:
  "bq_contents q = [] \<Longrightarrow> bq_pop (Some q) (Some out)
     = Inr (if closed q then Ret (- 2) (Some q, Some out) False else Wait)"
  by (simp add: bq_pop_def bq_contents_def unat_eq_0)

lemma bq_pop_some:
  assumes inv: "bq_inv q" and c: "bq_contents q = x # xs"
  shows "\<exists>q'. bq_pop (Some q) (Some out) = Inr (Ret 0 (Some q', Some x) True) \<and> bq_inv q'
       \<and> bq_contents q' = xs \<and> closed q' = closed q"
proof -
  have "count q \<noteq> 0" using c by (auto simp: bq_contents_def)
  moreover have q: "length (data q) = 8" "unat (tail q) < 8"
    "unat (head q) = (unat (tail q) + unat (count q)) mod 8" using inv by (simp_all add: bq_inv_def)
  ultimately show ?thesis
    using inv c mod_ring_pop [OF q(1) unat_capacity _ q(2,3)]
    by (auto simp: bq_pop_def bq_inv_def bq_contents_def unat_capacity)
qed

text \<open>While the queue is open, calls that do not wait behave like a bounded FIFO queue.\<close>

definition bq_push_now :: "blocking_queue \<Rightarrow> u32 \<Rightarrow> bool \<times> blocking_queue" where
  "bq_push_now q v = (case bq_push (Some q) v of Inr (Ret r (Some q') _) \<Rightarrow> (r = 0, q') | _ \<Rightarrow> (False, q))"

definition bq_pop_now :: "blocking_queue \<Rightarrow> u32 \<Rightarrow> bool \<times> u32 \<times> blocking_queue" where
  "bq_pop_now q out = (case bq_pop (Some q) (Some out) of
     Inr (Ret r (Some q', Some v) _) \<Rightarrow> (r = 0, v, q') | _ \<Rightarrow> (False, out, q))"

interpretation bq_fifo: bounded_fifo bq_push_now bq_pop_now bq_contents "\<lambda>q. bq_inv q \<and> \<not> closed q" 8
proof
  fix q and v out :: u32
  assume inv: "bq_inv q \<and> \<not> closed q"
  then show "length (bq_contents q) \<le> 8" by (simp add: bq_inv_def bq_contents_def)
  show "bq_push_now q v = (False, q)" if "length (bq_contents q) = 8"
    using that inv by (simp add: bq_push_now_def bq_push_full)
  show "\<exists>q'. bq_push_now q v = (True, q') \<and> (bq_inv q' \<and> \<not> closed q') \<and> bq_contents q' = bq_contents q @ [v]"
    if "length (bq_contents q) < 8"
    using bq_push_room [of q v] that inv by (auto simp: bq_push_now_def)
  show "bq_pop_now q out = (False, out, q)" if "bq_contents q = []"
    using that inv by (simp add: bq_pop_now_def bq_pop_empty)
  show "\<exists>q'. bq_pop_now q out = (True, x, q') \<and> (bq_inv q' \<and> \<not> closed q') \<and> bq_contents q' = xs"
    if "bq_contents q = x # xs" for x xs
    using bq_pop_some [of q x xs out] that inv by (auto simp: bq_pop_now_def)
qed

section \<open>Any number of callers\<close>

text \<open>
  \<open>ready_push\<close> holds the values of the \<open>bq_push\<close> calls that will next try to take
  the mutex, \<open>wait_push\<close> of those asleep on \<open>not_full\<close>; for \<open>bq_pop\<close> calls their
  numbers suffice. \<open>pushed\<close> and \<open>popped\<close> record the values in the order in which
  the successful calls let go of the mutex.
\<close>

record bq_sys =
  bq :: blocking_queue
  ready_push :: "u32 list"
  wait_push :: "u32 list"
  ready_pop :: nat
  wait_pop :: nat
  pushed :: "u32 list"
  popped :: "u32 list"

definition bq_start :: bq_sys where
  "bq_start = \<lparr>bq = \<lparr>data = replicate 8 0, head = 0, tail = 0, count = 0, closed = False\<rparr>,
     ready_push = [], wait_push = [], ready_pop = 0, wait_pop = 0, pushed = [], popped = []\<rparr>"

text \<open>\<open>pthread_cond_signal\<close> wakes one waiter if there is one.\<close>

definition signal_not_empty :: "bool \<Rightarrow> bq_sys \<Rightarrow> bq_sys" where
  "signal_not_empty sig s =
     (if sig \<and> 0 < wait_pop s then s\<lparr>wait_pop := wait_pop s - 1, ready_pop := ready_pop s + 1\<rparr> else s)"

inductive bq_step :: "bq_sys \<Rightarrow> bq_sys \<Rightarrow> bool" where
  call_push: "bq_step s (s\<lparr>ready_push := v # ready_push s\<rparr>)"
| call_pop: "bq_step s (s\<lparr>ready_pop := ready_pop s + 1\<rparr>)"
| push_waits:
    "ready_push s = as @ v # bs \<Longrightarrow> bq_push (Some (bq s)) v = Inr Wait \<Longrightarrow>
     bq_step s (s\<lparr>ready_push := as @ bs, wait_push := v # wait_push s\<rparr>)"
| push_returns:
    "ready_push s = as @ v # bs \<Longrightarrow> bq_push (Some (bq s)) v = Inr (Ret r (Some q) sig) \<Longrightarrow>
     bq_step s (signal_not_empty sig (s\<lparr>bq := q, ready_push := as @ bs,
       pushed := pushed s @ (if r = 0 then [v] else [])\<rparr>))"
| pop_waits:
    "0 < ready_pop s \<Longrightarrow> bq_pop (Some (bq s)) (Some out) = Inr Wait \<Longrightarrow>
     bq_step s (s\<lparr>ready_pop := ready_pop s - 1, wait_pop := wait_pop s + 1\<rparr>)"
| pop_returns_silent:
    "0 < ready_pop s \<Longrightarrow> bq_pop (Some (bq s)) (Some out) = Inr (Ret r (Some q, Some v) sig) \<Longrightarrow>
     \<not> sig \<or> wait_push s = [] \<Longrightarrow>
     bq_step s (s\<lparr>bq := q, ready_pop := ready_pop s - 1,
       popped := popped s @ (if r = 0 then [v] else [])\<rparr>)"
| pop_returns_wakes:
    "0 < ready_pop s \<Longrightarrow> bq_pop (Some (bq s)) (Some out) = Inr (Ret r (Some q, Some v) True) \<Longrightarrow>
     wait_push s = as @ w # bs \<Longrightarrow>
     bq_step s (s\<lparr>bq := q, ready_pop := ready_pop s - 1, popped := popped s @ (if r = 0 then [v] else []),
       wait_push := as @ bs, ready_push := w # ready_push s\<rparr>)"
| close:
    "bq_close (Some (bq s)) = (r, Some q) \<Longrightarrow>
     bq_step s (s\<lparr>bq := q, ready_push := wait_push s @ ready_push s, wait_push := [],
       ready_pop := ready_pop s + wait_pop s, wait_pop := 0\<rparr>)"
| spurious_push:
    "wait_push s = as @ w # bs \<Longrightarrow>
     bq_step s (s\<lparr>wait_push := as @ bs, ready_push := w # ready_push s\<rparr>)"
| spurious_pop:
    "0 < wait_pop s \<Longrightarrow> bq_step s (s\<lparr>wait_pop := wait_pop s - 1, ready_pop := ready_pop s + 1\<rparr>)"

definition bq_sys_inv :: "bq_sys \<Rightarrow> bool" where
  "bq_sys_inv s \<longleftrightarrow> bq_inv (bq s) \<and> pushed s = popped s @ bq_contents (bq s)
     \<and> (0 < wait_pop s \<longrightarrow> \<not> closed (bq s) \<and> length (bq_contents (bq s)) \<le> ready_pop s)
     \<and> (wait_push s \<noteq> [] \<longrightarrow> \<not> closed (bq s) \<and> 8 \<le> length (bq_contents (bq s)) + length (ready_push s))"

text \<open>What the outcome of an attempt says about the queue.\<close>

lemma bq_push_cases:
  assumes "bq_inv q" "bq_push (Some q) v = Inr a"
  shows "(a = Wait \<and> length (bq_contents q) = 8 \<and> \<not> closed q)
       \<or> (a = Ret (- 2) (Some q) False \<and> closed q)
       \<or> (\<exists>q'. a = Ret 0 (Some q') True \<and> \<not> closed q \<and> bq_inv q'
            \<and> bq_contents q' = bq_contents q @ [v] \<and> \<not> closed q')"
proof (cases "closed q")
  case False
  show ?thesis
  proof (cases "length (bq_contents q) = 8")
    case True
    with False assms(2) bq_push_full [of q v] show ?thesis by simp
  next
    case neq: False
    then have "length (bq_contents q) < 8" using assms(1) by (simp add: bq_inv_def bq_contents_def)
    from bq_push_room [OF assms(1) this False, of v] False assms(2) show ?thesis by auto
  qed
qed (use assms(2) bq_push_closed in auto)

lemma bq_pop_cases:
  assumes "bq_inv q" "bq_pop (Some q) (Some out) = Inr a"
  shows "(a = Wait \<and> bq_contents q = [] \<and> \<not> closed q)
       \<or> (a = Ret (- 2) (Some q, Some out) False \<and> bq_contents q = [] \<and> closed q)
       \<or> (\<exists>x xs q'. a = Ret 0 (Some q', Some x) True \<and> bq_contents q = x # xs \<and> bq_inv q'
            \<and> bq_contents q' = xs \<and> closed q' = closed q)"
proof (cases "bq_contents q")
  case Nil
  with assms(2) bq_pop_empty [of q out] show ?thesis by (cases "closed q") auto
next
  case (Cons x xs)
  from bq_pop_some [OF assms(1) Cons, of out] assms(2) Cons show ?thesis by auto
qed

lemma bq_step_inv:
  assumes "bq_step s t" "bq_sys_inv s"
  shows "bq_sys_inv t"
  using assms
proof induction
  case (push_waits s as v bs)
  then show ?case using bq_push_cases [of "bq s" v Wait] by (auto simp: bq_sys_inv_def)
next
  case (push_returns s as v bs r q sig)
  then show ?case
    using bq_push_cases [of "bq s" v "Ret r (Some q) sig"]
    by (auto simp: bq_sys_inv_def signal_not_empty_def)
next
  case (pop_waits s out)
  then show ?case using bq_pop_cases [of "bq s" out Wait] by (auto simp: bq_sys_inv_def)
next
  case (pop_returns_silent s out r q v sig)
  then show ?case
    using bq_pop_cases [of "bq s" out "Ret r (Some q, Some v) sig"] by (auto simp: bq_sys_inv_def)
next
  case (pop_returns_wakes s out r q v as w bs)
  then show ?case
    using bq_pop_cases [of "bq s" out "Ret r (Some q, Some v) True"] by (auto simp: bq_sys_inv_def)
next
  case (close s r q)
  then show ?case by (auto simp: bq_sys_inv_def bq_close_def bq_inv_def bq_contents_def)
qed (auto simp: bq_sys_inv_def)

lemma bq_start_inv: "bq_sys_inv bq_start"
  by (simp add: bq_sys_inv_def bq_start_def bq_inv_def bq_contents_def)

lemma bq_reach_inv: "bq_step\<^sup>*\<^sup>* bq_start s \<Longrightarrow> bq_sys_inv s"
  by (induction rule: rtranclp_induct) (auto intro: bq_start_inv bq_step_inv)

section \<open>Properties\<close>

text \<open>
  C6. However many threads push, pop and close, and however they are woken: what has
  come out and what is in the queue are together what has been pushed, in that order,
  and never more than 8 values are in the queue. No wake-up is lost: while a \<open>bq_push\<close>
  caller sleeps, at least as many other \<open>bq_push\<close> callers are on their way to the mutex
  as there is room, and while a \<open>bq_pop\<close> caller sleeps, at least as many other
  \<open>bq_pop\<close> callers as there are values. Nobody sleeps once the queue is closed.
\<close>

theorem bq_fifo_no_lost_wakeup:
  assumes "bq_step\<^sup>*\<^sup>* bq_start s"
  shows "pushed s = popped s @ bq_contents (bq s) \<and> length (bq_contents (bq s)) \<le> 8
       \<and> (wait_push s \<noteq> [] \<longrightarrow> 8 - length (bq_contents (bq s)) \<le> length (ready_push s))
       \<and> (0 < wait_pop s \<longrightarrow> length (bq_contents (bq s)) \<le> ready_pop s)
       \<and> (closed (bq s) \<longrightarrow> wait_push s = [] \<and> wait_pop s = 0)"
proof -
  from bq_reach_inv [OF assms] have inv: "bq_sys_inv s" .
  then have "length (bq_contents (bq s)) \<le> 8" by (simp add: bq_sys_inv_def bq_inv_def bq_contents_def)
  then show ?thesis using inv by (auto simp: bq_sys_inv_def)
qed

text \<open>A consumer that went to sleep is woken by the first value.\<close>

definition bq_woken :: bq_sys where
  "bq_woken = bq_start\<lparr>bq := \<lparr>data = [7, 0, 0, 0, 0, 0, 0, 0], head = 1, tail = 0, count = 1, closed = False\<rparr>,
     ready_pop := 1, pushed := [7]\<rparr>"

lemma replicate_8: "replicate 8 x = [x, x, x, x, x, x, x, x]"
  by (simp add: numeral_eq_Suc)

lemma bq_woken_reach: "bq_step\<^sup>*\<^sup>* bq_start bq_woken"
proof -
  let ?s1 = "bq_start\<lparr>ready_pop := 1\<rparr>" and ?s2 = "bq_start\<lparr>wait_pop := 1\<rparr>"
  let ?s3 = "bq_start\<lparr>wait_pop := 1, ready_push := [7]\<rparr>"
  have "bq_step bq_start ?s1" using call_pop [of bq_start] by (simp add: bq_start_def)
  moreover have "bq_step ?s1 ?s2"
    using pop_waits [of ?s1 0] by (simp add: bq_start_def bq_pop_def)
  moreover have "bq_step ?s2 ?s3" using call_push [of ?s2 7] by (simp add: bq_start_def)
  moreover have "bq_step ?s3 bq_woken"
    using push_returns [of ?s3 "[]" 7 "[]" 0 "bq bq_woken" True]
    by (simp add: bq_start_def bq_push_def bq_woken_def signal_not_empty_def BQ_CAPACITY_def replicate_8)
  ultimately show ?thesis by (meson converse_rtranclp_into_rtranclp rtranclp.rtrancl_refl)
qed

theorem bq_fifo_no_lost_wakeup_witness:
  "bq_step\<^sup>*\<^sup>* bq_start bq_woken \<and> pushed bq_woken = bq_contents (bq bq_woken) \<and> ready_pop bq_woken = 1"
proof -
  have "popped bq_woken = []" "ready_pop bq_woken = 1" by (simp_all add: bq_woken_def bq_start_def)
  moreover have "pushed bq_woken = popped bq_woken @ bq_contents (bq bq_woken)"
    by (rule conjunct1 [OF bq_fifo_no_lost_wakeup [OF bq_woken_reach]])
  ultimately show ?thesis by (intro conjI bq_woken_reach) simp_all
qed

text \<open>
  The return codes: -1 for a null pointer, -2 once the queue is closed (a pop only
  when it is also empty, so closing loses no value), 0 when a value is moved, and a
  wait exactly on a full or empty open queue.
\<close>

theorem bq_return_codes:
  assumes "bq_inv q"
  shows "bq_push None v = Inr (Ret (- 1) None False)
       \<and> bq_pop None out = Inr (Ret (- 1) (None, out) False)
       \<and> bq_pop p None = Inr (Ret (- 1) (p, None) False)
       \<and> (bq_push (Some q) v = Inr Wait \<longleftrightarrow> length (bq_contents q) = 8 \<and> \<not> closed q)
       \<and> (bq_push (Some q) v = Inr (Ret (- 2) (Some q) False) \<longleftrightarrow> closed q)
       \<and> (bq_pop (Some q) (Some o1) = Inr Wait \<longleftrightarrow> bq_contents q = [] \<and> \<not> closed q)
       \<and> (bq_pop (Some q) (Some o1) = Inr (Ret (- 2) (Some q, Some o1) False) \<longleftrightarrow> bq_contents q = [] \<and> closed q)
       \<and> (bq_contents q = x # xs \<longrightarrow>
           (\<exists>q'. bq_pop (Some q) (Some o1) = Inr (Ret 0 (Some q', Some x) True) \<and> bq_contents q' = xs))"
proof -
  have "unat (head q) < length (data q)" "unat (tail q) < length (data q)"
    using assms by (simp_all add: bq_inv_def)
  then have "\<exists>a. bq_push (Some q) v = Inr a" "\<exists>b. bq_pop (Some q) (Some o1) = Inr b"
    by (simp_all add: bq_push_def bq_pop_def)
  then obtain a b where ab: "bq_push (Some q) v = Inr a" "bq_pop (Some q) (Some o1) = Inr b" by blast
  have push: "a = Wait \<longleftrightarrow> length (bq_contents q) = 8 \<and> \<not> closed q"
    "a = Ret (- 2) (Some q) False \<longleftrightarrow> closed q"
    using bq_push_cases [OF assms ab(1)] bq_push_full [of q v] ab(1) by auto
  have pop: "b = Wait \<longleftrightarrow> bq_contents q = [] \<and> \<not> closed q"
    "b = Ret (- 2) (Some q, Some o1) False \<longleftrightarrow> bq_contents q = [] \<and> closed q"
    "bq_contents q = x # xs \<longrightarrow> (\<exists>q'. b = Ret 0 (Some q', Some x) True \<and> bq_contents q' = xs)"
    using bq_pop_cases [OF assms ab(2)] by auto
  have "bq_push None v = Inr (Ret (- 1) None False)" "bq_pop None out = Inr (Ret (- 1) (None, out) False)"
    "bq_pop p None = Inr (Ret (- 1) (p, None) False)"
    by (simp_all add: bq_push_def bq_pop_def split: option.split)
  with push pop show ?thesis unfolding ab by simp
qed

theorem bq_return_codes_witness:
  "bq_inv (bq bq_woken) \<and> bq_contents (bq bq_woken) = [7] \<and> bq_push None 0 = Inr (Ret (- 1) None False)
   \<and> (\<exists>q'. bq_pop (Some (bq bq_woken)) (Some 0) = Inr (Ret 0 (Some q', Some 7) True) \<and> bq_contents q' = [])"
proof -
  have "bq_inv (bq bq_woken)" "bq_contents (bq bq_woken) = [7]"
    by (simp_all add: bq_woken_def bq_inv_def bq_contents_def slots_def)
  with bq_return_codes [of "bq bq_woken" 0 None None 0 7 "[]"] show ?thesis by simp
qed

end
