(* ===== verification/Resource_Pool.thy ===== *)
theory Resource_Pool
  imports Prelude
begin

text \<open>
  \<open>coding_challenges/semaphore_resource_pool.c\<close>: eight resources, a semaphore that
  counts permits and a mutex that protects the table. The functions below are the
  parts of \<open>rp_acquire\<close>, \<open>rp_release\<close> and \<open>rp_close\<close> that run under the mutex,
  with the flag \<open>held\<close> telling whether the mutex is still locked on return.
  \<open>rp_step\<close> lets any number of clients run them: \<open>sem_wait\<close>, the critical section and
  the \<open>sem_post\<close> after the unlock are separate steps, so other clients run in between;
  a client returns only resources it holds, and the pointers are not null. The pool's set-up is not in the source: the system starts with all resources
  free, one permit each, and distinct ids.
\<close>

definition RP_CAP :: nat where
  "RP_CAP = 8"

record resource_pool =
  ids :: "u32 list"
  in_use :: "bool list"
  closed :: bool

text \<open>The search loops of both functions: the first index from \<open>i\<close> on that satisfies \<open>P\<close>.\<close>

fun first_idx :: "(nat \<Rightarrow> bool) \<Rightarrow> nat \<Rightarrow> nat \<Rightarrow> nat option" where
  "first_idx P i 0 = None"
| "first_idx P i (Suc n) = (if P i then Some i else first_idx P (Suc i) n)"

text \<open>
  \<open>rp_acquire\<close> after \<open>sem_wait\<close>: the return code, the index whose id it delivers, the
  pool, and whether it gives its permit back. \<open>free_idx\<close> stays 0 if nothing is free.
\<close>

definition rp_acquire :: "resource_pool \<Rightarrow> int \<times> nat \<times> resource_pool \<times> bool" where
  "rp_acquire p =
     (if closed p then (- 2, 0, p, True)
      else case first_idx (\<lambda>i. \<not> in_use p ! i) 0 RP_CAP of
        Some i \<Rightarrow> (0, i, p\<lparr>in_use := (in_use p)[i := True]\<rparr>, False)
      | None \<Rightarrow> (0, 0, p, False))"

text \<open>\<open>rp_release\<close>: the code, the pool, whether the mutex is still held, whether it posts.\<close>

definition rp_release :: "resource_pool \<Rightarrow> u32 \<Rightarrow> int \<times> resource_pool \<times> bool \<times> bool" where
  "rp_release p i =
     (case first_idx (\<lambda>j. i = ids p ! j) 0 RP_CAP of
        None \<Rightarrow> (- 1, p, True, False)
      | Some j \<Rightarrow> (0, p\<lparr>in_use := (in_use p)[j := False]\<rparr>, False, True))"

definition rp_close :: "resource_pool \<Rightarrow> resource_pool" where
  "rp_close p = p\<lparr>closed := True\<rparr>"

section \<open>Clients\<close>

text \<open>
  \<open>available\<close> is the semaphore's value, \<open>arrived\<close> counts the callers past \<open>sem_wait\<close>
  and before the mutex, \<open>posting\<close> those past the unlock and before \<open>sem_post\<close>, and
  \<open>owned\<close> lists the table entries that callers hold.
\<close>

record rp_sys =
  pool :: resource_pool
  available :: nat
  arrived :: nat
  posting :: nat
  owned :: "nat list"
  mu_held :: bool

definition rp_start :: "u32 list \<Rightarrow> rp_sys" where
  "rp_start is = \<lparr>pool = \<lparr>ids = is, in_use = replicate RP_CAP False, closed = False\<rparr>,
     available = RP_CAP, arrived = 0, posting = 0, owned = [], mu_held = False\<rparr>"

inductive rp_step :: "rp_sys \<Rightarrow> rp_sys \<Rightarrow> bool" where
  acquire_permit:
    "0 < available s \<Longrightarrow> rp_step s (s\<lparr>available := available s - 1, arrived := arrived s + 1\<rparr>)"
| acquire_resource:
    "0 < arrived s \<Longrightarrow> \<not> mu_held s \<Longrightarrow> rp_acquire (pool s) = (r, i, p, post) \<Longrightarrow>
     rp_step s (s\<lparr>pool := p, arrived := arrived s - 1,
       owned := (if r = 0 then i # owned s else owned s),
       posting := (if post then posting s + 1 else posting s)\<rparr>)"
| release:
    "owned s = as @ i # bs \<Longrightarrow> \<not> mu_held s \<Longrightarrow> rp_release (pool s) (ids (pool s) ! i) = (r, p, keep, post) \<Longrightarrow>
     rp_step s (s\<lparr>pool := p, owned := as @ bs, mu_held := keep,
       posting := (if post then posting s + 1 else posting s)\<rparr>)"
| post_permit:
    "0 < posting s \<Longrightarrow> rp_step s (s\<lparr>posting := posting s - 1, available := available s + 1\<rparr>)"
| close:
    "\<not> mu_held s \<Longrightarrow> rp_step s (s\<lparr>pool := rp_close (pool s)\<rparr>)"

definition rp_inv :: "u32 list \<Rightarrow> rp_sys \<Rightarrow> bool" where
  "rp_inv is s \<longleftrightarrow> ids (pool s) = is \<and> length (in_use (pool s)) = RP_CAP \<and> distinct (owned s)
     \<and> set (owned s) = {i. i < RP_CAP \<and> in_use (pool s) ! i}
     \<and> available s + arrived s + posting s + length (owned s) = RP_CAP \<and> \<not> mu_held s"

lemma first_idx_Some:
  "first_idx P i n = Some j \<Longrightarrow> i \<le> j \<and> j < i + n \<and> P j"
  by (induction P i n rule: first_idx.induct) (auto split: if_splits)

lemma first_idx_None: "first_idx P i n = None \<Longrightarrow> i \<le> j \<Longrightarrow> j < i + n \<Longrightarrow> \<not> P j"
proof (induction P i n rule: first_idx.induct)
  case (2 P i n)
  then show ?case by (cases "j = i") (auto split: if_splits)
qed simp

lemma first_idx_the:
  assumes "i < n" "P i" "\<And>j. j < n \<Longrightarrow> P j \<Longrightarrow> j = i"
  shows "first_idx P 0 n = Some i"
proof (cases "first_idx P 0 n")
  case None
  with first_idx_None [OF None, of i] assms(1,2) show ?thesis by simp
next
  case (Some j)
  with first_idx_Some [OF Some] assms(3) [of j] show ?thesis by simp
qed

lemma rp_acquire_inv:
  assumes "rp_inv is s" "0 < arrived s" "rp_acquire (pool s) = (r, i, p, post)"
  shows "rp_inv is (s\<lparr>pool := p, arrived := arrived s - 1,
       owned := (if r = 0 then i # owned s else owned s),
       posting := (if post then posting s + 1 else posting s)\<rparr>)"
proof (cases "closed (pool s)")
  case True
  with assms show ?thesis by (auto simp: rp_inv_def rp_acquire_def)
next
  case False
  obtain j where j: "first_idx (\<lambda>i. \<not> in_use (pool s) ! i) 0 RP_CAP = Some j"
  proof (cases "first_idx (\<lambda>i. \<not> in_use (pool s) ! i) 0 RP_CAP")
    case None
    from first_idx_None [OF None] assms(1) have "set (owned s) = {i. i < RP_CAP}" by (auto simp: rp_inv_def)
    then have "length (owned s) = RP_CAP" using assms(1) by (metis card_Collect_less_nat distinct_card rp_inv_def)
    with assms(1,2) show ?thesis by (simp add: rp_inv_def)
  qed blast
  have free: "j < RP_CAP" "\<not> in_use (pool s) ! j" using first_idx_Some [OF j] by auto
  with False j assms(1,3) have res: "r = 0" "i = j" "p = (pool s)\<lparr>in_use := (in_use (pool s))[j := True]\<rparr>" "\<not> post"
    by (auto simp: rp_acquire_def)
  have "{i. i < RP_CAP \<and> (in_use (pool s))[j := True] ! i} = insert j {i. i < RP_CAP \<and> in_use (pool s) ! i}"
    using free assms(1) by (auto simp: rp_inv_def nth_list_update)
  with assms(1,2) free res show ?thesis by (auto simp: rp_inv_def)
qed

lemma rp_release_owned:
  assumes "distinct (ids p)" "length (ids p) = RP_CAP" "i < RP_CAP"
  shows "rp_release p (ids p ! i) = (0, p\<lparr>in_use := (in_use p)[i := False]\<rparr>, False, True)"
proof -
  have "first_idx (\<lambda>j. ids p ! i = ids p ! j) 0 RP_CAP = Some i"
    using assms by (intro first_idx_the) (auto simp: nth_eq_iff_index_eq)
  then show ?thesis by (simp add: rp_release_def)
qed

lemma rp_step_inv:
  assumes "rp_step s t" "rp_inv is s" "distinct is" "length is = RP_CAP"
  shows "rp_inv is t"
  using assms(1,2)
proof induction
  case (acquire_resource s r i p post)
  then show ?case by (intro rp_acquire_inv)
next
  case (release s as i bs r p keep post)
  then have i: "i < RP_CAP" "in_use (pool s) ! i" "distinct (as @ i # bs)"
    "{i. i < RP_CAP \<and> in_use (pool s) ! i} = insert i (set (as @ bs))" "i \<notin> set (as @ bs)"
    by (auto simp: rp_inv_def)
  with release assms(3,4) rp_release_owned [of "pool s" i]
  have res: "p = (pool s)\<lparr>in_use := (in_use (pool s))[i := False]\<rparr>" "\<not> keep" "post" by (auto simp: rp_inv_def)
  have "{j. j < RP_CAP \<and> (in_use (pool s))[i := False] ! j} = {i. i < RP_CAP \<and> in_use (pool s) ! i} - {i}"
    using i(1) release(4) by (auto simp: rp_inv_def nth_list_update)
  with i release res show ?case by (auto simp: rp_inv_def)
qed (auto simp: rp_inv_def rp_close_def)

lemma rp_reach_inv:
  assumes "distinct is" "length is = RP_CAP"
  shows "rp_step\<^sup>*\<^sup>* (rp_start is) s \<Longrightarrow> rp_inv is s"
proof (induction rule: rtranclp_induct)
  case base
  then show ?case by (simp add: rp_inv_def rp_start_def)
qed (use assms rp_step_inv in blast)

section \<open>Properties\<close>

text \<open>
  C16. As long as clients return only what they hold, no resource is handed out twice,
  the table marks exactly the resources that are out, and the mutex is free between the
  critical sections. The free entries equal the semaphore's value plus the callers
  between \<open>sem_wait\<close> and the mutex plus those between the unlock and \<open>sem_post\<close>, so a
  caller past the semaphore always finds a free entry. Closing does not disturb this.
\<close>

theorem rp_resources_exclusive:
  assumes "distinct is" "length is = RP_CAP" "rp_step\<^sup>*\<^sup>* (rp_start is) s"
  shows "distinct (map (\<lambda>i. is ! i) (owned s))
       \<and> set (owned s) = {i. i < RP_CAP \<and> in_use (pool s) ! i}
       \<and> available s + arrived s + posting s = RP_CAP - length (owned s) \<and> \<not> mu_held s"
proof -
  from rp_reach_inv [OF assms] have inv: "rp_inv is s" .
  moreover have "inj_on (\<lambda>i. is ! i) (set (owned s))"
    using inv assms(1,2) by (auto simp: rp_inv_def inj_on_def nth_eq_iff_index_eq)
  moreover have "available s + arrived s + posting s = RP_CAP - length (owned s)"
    using inv unfolding rp_inv_def by linarith
  ultimately show ?thesis by (simp add: rp_inv_def distinct_map)
qed

definition some_ids :: "u32 list" where
  "some_ids = [10, 11, 12, 13, 14, 15, 16, 17]"

definition rp_one_out :: rp_sys where
  "rp_one_out = \<lparr>pool = \<lparr>ids = some_ids, in_use = (replicate RP_CAP False)[0 := True], closed = False\<rparr>,
     available = 7, arrived = 0, posting = 0, owned = [0], mu_held = False\<rparr>"

lemma rp_one_out_reach: "rp_step\<^sup>*\<^sup>* (rp_start some_ids) rp_one_out"
proof -
  let ?s1 = "rp_start some_ids\<lparr>available := 7, arrived := 1\<rparr>"
  have "rp_step (rp_start some_ids) ?s1"
    using acquire_permit [of "rp_start some_ids"] by (simp add: rp_start_def RP_CAP_def)
  moreover have "first_idx (\<lambda>i. \<not> replicate RP_CAP False ! i) 0 RP_CAP = Some 0"
    by (simp add: RP_CAP_def first_idx.simps(2) [of _ _ 7, simplified])
  then have "rp_step ?s1 rp_one_out"
    using acquire_resource [of ?s1 0 0 "pool rp_one_out" False]
    by (simp add: rp_start_def rp_one_out_def rp_acquire_def)
  ultimately show ?thesis by (meson converse_rtranclp_into_rtranclp rtranclp.rtrancl_refl)
qed

theorem rp_resources_exclusive_witness:
  "distinct some_ids \<and> rp_step\<^sup>*\<^sup>* (rp_start some_ids) rp_one_out \<and> owned rp_one_out = [0]
   \<and> set (owned rp_one_out) = {i. i < RP_CAP \<and> in_use (pool rp_one_out) ! i}"
proof -
  have "distinct some_ids" "length some_ids = RP_CAP" by (simp_all add: some_ids_def RP_CAP_def)
  with rp_resources_exclusive [OF this rp_one_out_reach] rp_one_out_reach show ?thesis
    by (simp add: rp_one_out_def)
qed

text \<open>
  Returning an id the pool does not know gives -1 and leaves the mutex locked (the
  early return skips the unlock); returning a known id that is not in use posts a permit
  although nothing was freed.
\<close>

theorem rp_release_errors:
  "(i \<notin> set (take RP_CAP (ids p)) \<and> length (ids p) = RP_CAP \<longrightarrow> rp_release p i = (- 1, p, True, False))
   \<and> (distinct (ids p) \<and> length (ids p) = RP_CAP \<and> length (in_use p) = RP_CAP \<and> j < RP_CAP \<and> \<not> in_use p ! j
      \<longrightarrow> rp_release p (ids p ! j) = (0, p, False, True))"
proof (intro conjI impI)
  assume "i \<notin> set (take RP_CAP (ids p)) \<and> length (ids p) = RP_CAP"
  then have "i \<noteq> ids p ! k" if "k < RP_CAP" for k using that by auto
  then have "first_idx (\<lambda>j. i = ids p ! j) 0 RP_CAP = None"
    using first_idx_Some [of "\<lambda>j. i = ids p ! j" 0 RP_CAP] by (cases "first_idx (\<lambda>j. i = ids p ! j) 0 RP_CAP") auto
  then show "rp_release p i = (- 1, p, True, False)" by (simp add: rp_release_def)
next
  assume a: "distinct (ids p) \<and> length (ids p) = RP_CAP \<and> length (in_use p) = RP_CAP \<and> j < RP_CAP \<and> \<not> in_use p ! j"
  then have "(in_use p)[j := False] = in_use p" by (metis list_update_id)
  with a rp_release_owned [of p j] show "rp_release p (ids p ! j) = (0, p, False, True)" by simp
qed

theorem rp_release_errors_witness:
  "rp_release (pool (rp_start some_ids)) 99 = (- 1, pool (rp_start some_ids), True, False)
   \<and> rp_release (pool (rp_start some_ids)) 12 = (0, pool (rp_start some_ids), False, True)"
  using rp_release_errors [of 99 "pool (rp_start some_ids)" 2]
  by (simp add: rp_start_def RP_CAP_def some_ids_def)

end
