(* ===== verification/Worker_Pools.thy ===== *)
theory Worker_Pools
  imports Circular
begin

text \<open>
  \<open>coding_challenges/worker_queue_shutdown.c\<close> and
  \<open>coding_challenges/thread_pool_shutdown.c\<close>: queues of jobs that worker threads take
  and run. As for the blocking queue, a function is the step from taking the mutex to
  the next wait or to the end of the call. Function and data pointers are opaque
  numbers, a null pointer is \<open>None\<close>.
\<close>

section \<open>worker\_queue\_shutdown.c\<close>

definition Q_MAX :: u32 where
  "Q_MAX = 16"

definition Q_MASK :: u64 where
  "Q_MASK = 15"

record job =
  fn :: nat
  arg :: nat

record worker_pool =
  queue :: "job list"
  head :: u64
  tail :: u64
  stopping :: bool

text \<open>The function has no return type, so its value is converted to a 32-bit \<open>int\<close>.\<close>

definition get_queue_count :: "worker_pool \<Rightarrow> u32" where
  "get_queue_count p = ucast (tail p - head p)"

text \<open>
  A successful \<open>submit_job\<close> runs off the end of the function: its effects are defined,
  but it leaves the caller no code to use (\<open>Inl Missing_Return\<close> in its place). The
  unlocked test of \<open>stopping\<close> at the start is repeated under the mutex. The condition
  variable functions are read with the mutex argument of \<open>signal\<close> left out.
\<close>

definition submit_job :: "worker_pool option \<Rightarrow> nat option \<Rightarrow> nat option
    \<Rightarrow> (int cres, worker_pool option) attempt cres" where
  "submit_job pp f a = (case (pp, f, a) of
     (Some p, Some f, Some a) \<Rightarrow>
       if stopping p then Inr (Ret (Inr (- 2)) pp False)
       else if get_queue_count p = Q_MAX \<and> \<not> stopping p then Inr Wait
       else cbind (arr_set (queue p) (unat (tail p AND Q_MASK)) \<lparr>fn = f, arg = a\<rparr>) (\<lambda>q.
         Inr (Ret (Inl Missing_Return) (Some (p\<lparr>queue := q, tail := tail p + 1\<rparr>)) True))
   | _ \<Rightarrow> Inr (Ret (Inr (- 1)) pp False))"

definition request_stop :: "worker_pool \<Rightarrow> worker_pool" where
  "request_stop p = p\<lparr>stopping := True\<rparr>"

text \<open>
  The exit test of \<open>worker_main\<close> compares \<open>get_queue_count\<close>, without calling it, to 0:
  the address of a function is never null.
\<close>

definition get_queue_count_is_null :: bool where
  "get_queue_count_is_null = False"

text \<open>One round of \<open>worker_main\<close>: it waits, breaks out of its loop (\<open>None\<close>), or takes a job.\<close>

definition worker_round :: "worker_pool \<Rightarrow> (job option, worker_pool) attempt cres" where
  "worker_round p =
     (if get_queue_count p = 0 \<and> \<not> stopping p then Inr Wait
      else if stopping p \<and> get_queue_count_is_null then Inr (Ret None p False)
      else cbind (arr_get (queue p) (unat (head p AND Q_MASK))) (\<lambda>curr.
        Inr (Ret (Some curr) (p\<lparr>head := head p + 1\<rparr>) True)))"

subsection \<open>The jobs in the queue\<close>

definition wp_inv :: "worker_pool \<Rightarrow> bool" where
  "wp_inv p \<longleftrightarrow> length (queue p) = 16 \<and> unat (tail p - head p) \<le> 16"

definition wp_contents :: "worker_pool \<Rightarrow> job list" where
  "wp_contents p = slots (queue p) (unat (head p)) (unat (tail p - head p))"

lemma mask_16: "unat (x AND Q_MASK) = unat x mod 16"
  using unat_and_mask [of x 4] by (simp add: Q_MASK_def mask_eq_exp_minus_1)









subsection \<open>Any number of submitters and workers\<close>













definition wp_fresh :: worker_pool where
  "wp_fresh = \<lparr>queue = replicate 16 \<lparr>fn = 0, arg = 0\<rparr>, head = 0, tail = 0, stopping = False\<rparr>"

lemma wp_fresh_inv: "wp_inv wp_fresh" "wp_contents wp_fresh = []" "\<not> stopping wp_fresh"
  by (simp_all add: wp_fresh_def wp_inv_def wp_contents_def)





text \<open>
  After \<open>request_stop\<close> new jobs are refused, but a worker never leaves its loop: it
  takes the remaining jobs, and on the empty queue it goes on with the stale entry at
  \<open>head\<close>, a job that was never submitted again, and pushes \<open>head\<close> past \<open>tail\<close>.
\<close>

theorem worker_never_stops:
  assumes "wp_inv p"
  shows "submit_job (Some (request_stop p)) (Some f) (Some a) = Inr (Ret (Inr (- 2)) (Some (request_stop p)) False)
       \<and> (\<exists>j p'. worker_round (request_stop p) = Inr (Ret (Some j) p' True))
       \<and> (wp_contents p = [] \<longrightarrow> worker_round (request_stop p)
            = Inr (Ret (Some (queue p ! (unat (head p) mod 16))) (request_stop (p\<lparr>head := tail p + 1\<rparr>)) True))"
proof -
  have "length (queue p) = 16" using assms by (simp add: wp_inv_def)
  then show ?thesis
    by (auto simp: submit_job_def request_stop_def worker_round_def get_queue_count_is_null_def mask_16 wp_contents_def)
qed

theorem worker_never_stops_witness:
  "worker_round (request_stop wp_fresh) = Inr (Ret (Some \<lparr>fn = 0, arg = 0\<rparr>) (request_stop (wp_fresh\<lparr>head := 1\<rparr>)) True)"
  using worker_never_stops [OF wp_fresh_inv(1)] wp_fresh_inv(2) by (simp add: wp_fresh_def)

section \<open>thread\_pool\_shutdown.c\<close>

definition TP_CAP :: u64 where
  "TP_CAP = 16"

datatype tp_state = TP_RUNNING | TP_DRAINING | TP_CANCELING | TP_STOPPED

record tp_job =
  tp_fn :: nat
  tp_arg :: nat
  tp_destroy :: nat

record thread_pool =
  tp_queue :: "tp_job list"
  tp_head :: u64
  tp_tail :: u64
  tp_count :: u64
  tp_active :: u64
  tp_st :: tp_state

text \<open>
  The wait condition of \<open>tp_submit\<close> is unfinished in the source (\<open>count == TP_CAP &&\<close>
  and nothing after it); \<open>missing\<close> stands for the missing conjunct. The result pairs the
  code with whether the mutex is still locked on return. The field written as
  \<open>destory\<close> is read as \<open>destroy\<close>.
\<close>

definition tp_submit :: "(thread_pool \<Rightarrow> bool) \<Rightarrow> thread_pool option \<Rightarrow> nat option \<Rightarrow> nat option \<Rightarrow> nat option
    \<Rightarrow> (int \<times> bool, thread_pool option) attempt cres" where
  "tp_submit missing pp f a d = (case (pp, f, a, d) of
     (Some p, Some f, Some a, Some d) \<Rightarrow>
       if tp_st p \<noteq> TP_RUNNING then Inr (Ret (- 2, True) pp False)
       else if tp_count p = TP_CAP \<and> missing p then Inr Wait
       else if tp_st p \<noteq> TP_RUNNING then Inr (Ret (- 2, True) pp False)
       else cbind (arr_set (tp_queue p) (unat (tp_tail p)) \<lparr>tp_fn = f, tp_arg = a, tp_destroy = d\<rparr>) (\<lambda>q.
         Inr (Ret (0, False) (Some (p\<lparr>tp_queue := q, tp_count := tp_count p + 1,
                tp_tail := (tp_tail p + 1) mod TP_CAP\<rparr>)) True))
   | _ \<Rightarrow> Inr (Ret (- 1, False) pp False))"

text \<open>
  \<open>tp_worker_main\<close> up to the call of the job: \<open>None\<close> if it returns because of a cancel,
  else the job it will run. The argument of the job is copied from \<open>fn\<close>.
\<close>

definition tp_worker_take :: "thread_pool \<Rightarrow> (tp_job option, thread_pool) attempt cres" where
  "tp_worker_take p =
     (if tp_count p = 0 \<and> tp_st p = TP_RUNNING then Inr Wait
      else if tp_st p = TP_CANCELING then Inr (Ret None p False)
      else cbind (arr_get (tp_queue p) (unat (tp_head p))) (\<lambda>j.
        Inr (Ret (Some \<lparr>tp_fn = tp_fn j, tp_arg = tp_fn j, tp_destroy = tp_destroy j\<rparr>)
               (p\<lparr>tp_count := tp_count p - 1, tp_head := (tp_head p + 1) mod TP_CAP,
                  tp_active := tp_active p + 1\<rparr>) True)))"

text \<open>Its second critical section, after the job has run.\<close>

definition tp_worker_finish :: "thread_pool \<Rightarrow> thread_pool" where
  "tp_worker_finish p = p\<lparr>tp_active := tp_active p - 1\<rparr>"

definition tp_inv :: "thread_pool \<Rightarrow> bool" where
  "tp_inv p \<longleftrightarrow> length (tp_queue p) = 16 \<and> unat (tp_head p) < 16 \<and> unat (tp_count p) \<le> 16
     \<and> unat (tp_tail p) = (unat (tp_head p) + unat (tp_count p)) mod 16"

definition tp_contents :: "thread_pool \<Rightarrow> tp_job list" where
  "tp_contents p = slots (tp_queue p) (unat (tp_head p)) (unat (tp_count p))"

lemma unat_TP_CAP: "unat TP_CAP = 16"
  by (simp add: TP_CAP_def)

lemma tp_full_iff: "tp_count p = TP_CAP \<longleftrightarrow> unat (tp_count p) = 16"
  by (simp add: TP_CAP_def word_unat_eq_iff)

lemma tp_submit_room:
  assumes inv: "tp_inv p" and room: "length (tp_contents p) < 16" and "tp_st p = TP_RUNNING"
  shows "\<exists>p'. tp_submit missing (Some p) (Some f) (Some a) (Some d) = Inr (Ret (0, False) (Some p') True) \<and> tp_inv p'
       \<and> tp_contents p' = tp_contents p @ [\<lparr>tp_fn = f, tp_arg = a, tp_destroy = d\<rparr>]
       \<and> tp_st p' = TP_RUNNING \<and> tp_active p' = tp_active p"
proof -
  have c: "unat (tp_count p) < 16" using room by (simp add: tp_contents_def)
  have q: "length (tp_queue p) = 16" "unat (tp_tail p) = (unat (tp_head p) + unat (tp_count p)) mod 16"
    using inv by (simp_all add: tp_inv_def)
  from inv c mod_ring_push [OF q(1) unat_TP_CAP c q(2)] assms(3) show ?thesis
    by (auto simp: tp_submit_def tp_inv_def tp_contents_def tp_full_iff)
qed

lemma tp_worker_takes:
  assumes inv: "tp_inv p" and c: "tp_contents p = j # js" and "tp_st p \<noteq> TP_CANCELING"
  shows "\<exists>p'. tp_worker_take p = Inr (Ret (Some (j\<lparr>tp_arg := tp_fn j\<rparr>)) p' True) \<and> tp_inv p'
       \<and> tp_contents p' = js \<and> tp_active p' = tp_active p + 1 \<and> tp_st p' = tp_st p"
proof -
  have "tp_count p \<noteq> 0" using c by (auto simp: tp_contents_def)
  moreover have q: "length (tp_queue p) = 16" "unat (tp_head p) < 16"
    "unat (tp_tail p) = (unat (tp_head p) + unat (tp_count p)) mod 16" using inv by (simp_all add: tp_inv_def)
  ultimately show ?thesis
    using inv c assms(3) mod_ring_pop [OF q(1) unat_TP_CAP _ q(2,3)]
    by (auto simp: tp_worker_take_def tp_inv_def tp_contents_def)
qed

text \<open>
  The thread pool hands jobs out in the order of submission, but each with its
  \<open>arg\<close> replaced by its function pointer; a submission that is refused because the pool
  is shutting down returns -2 with the mutex still locked. (A worker in the drain state
  with an empty queue decrements \<open>count\<close> below zero.)
\<close>

theorem thread_pool_behaviour:
  assumes "tp_inv p"
  shows "(tp_st p = TP_RUNNING \<and> length (tp_contents p) < 16 \<longrightarrow>
          (\<exists>p'. tp_submit missing (Some p) (Some f) (Some a) (Some d) = Inr (Ret (0, False) (Some p') True)
              \<and> tp_inv p' \<and> tp_contents p' = tp_contents p @ [\<lparr>tp_fn = f, tp_arg = a, tp_destroy = d\<rparr>]))
       \<and> (tp_st p \<noteq> TP_RUNNING \<longrightarrow>
          tp_submit missing (Some p) (Some f) (Some a) (Some d) = Inr (Ret (- 2, True) (Some p) False))
       \<and> (tp_st p \<noteq> TP_CANCELING \<and> tp_contents p = j # js \<longrightarrow>
          (\<exists>p'. tp_worker_take p = Inr (Ret (Some (j\<lparr>tp_arg := tp_fn j\<rparr>)) p' True) \<and> tp_inv p' \<and> tp_contents p' = js))
       \<and> (tp_st p = TP_DRAINING \<and> tp_contents p = [] \<longrightarrow>
          (\<exists>k p'. tp_worker_take p = Inr (Ret (Some k) p' True) \<and> tp_count p' = - 1))"
proof -
  have "\<exists>k p'. tp_worker_take p = Inr (Ret (Some k) p' True) \<and> tp_count p' = - 1"
    if "tp_st p = TP_DRAINING" "tp_contents p = []"
    using assms that by (auto simp: tp_worker_take_def tp_inv_def tp_contents_def unat_eq_0)
  with tp_submit_room [OF assms, of missing f a d] tp_worker_takes [OF assms, of j js] show ?thesis
    by (auto simp: tp_submit_def)
qed

definition tp_one_job :: "tp_state \<Rightarrow> thread_pool" where
  "tp_one_job st = \<lparr>tp_queue = \<lparr>tp_fn = 5, tp_arg = 6, tp_destroy = 7\<rparr> # replicate 15 \<lparr>tp_fn = 0, tp_arg = 0, tp_destroy = 0\<rparr>,
     tp_head = 0, tp_tail = 1, tp_count = 1, tp_active = 0, tp_st = st\<rparr>"

theorem thread_pool_behaviour_witness:
  "tp_inv (tp_one_job TP_DRAINING)
   \<and> tp_submit (\<lambda>_. True) (Some (tp_one_job TP_DRAINING)) (Some 1) (Some 2) (Some 3)
     = Inr (Ret (- 2, True) (Some (tp_one_job TP_DRAINING)) False)
   \<and> (\<exists>p'. tp_worker_take (tp_one_job TP_DRAINING)
           = Inr (Ret (Some \<lparr>tp_fn = 5, tp_arg = 5, tp_destroy = 7\<rparr>) p' True) \<and> tp_contents p' = [])"
proof -
  let ?p = "tp_one_job TP_DRAINING"
  have inv: "tp_inv ?p" by (simp add: tp_one_job_def tp_inv_def)
  moreover have "tp_contents ?p = [\<lparr>tp_fn = 5, tp_arg = 6, tp_destroy = 7\<rparr>]" "tp_st ?p = TP_DRAINING"
    by (simp_all add: tp_one_job_def tp_contents_def slots_def)
  ultimately show ?thesis
    using thread_pool_behaviour [OF inv, of "\<lambda>_. True" 1 2 3 "\<lparr>tp_fn = 5, tp_arg = 6, tp_destroy = 7\<rparr>" "[]"] by auto
qed

end
