(* ===== verification/Mem_Basics.thy ===== *)
theory Mem_Basics
  imports Prelude
begin

text \<open>
  \<open>coding_challenges/mem_basics.c\<close>: \<open>my_memcpy\<close>, \<open>my_memmove\<close> and \<open>my_memset\<close>. Memory
  is a flat function from addresses to bytes; address 0 is the null pointer, and the
  theorems take regions inside the 64-bit address space. 32-bit accesses are little
  endian. A pointer converted to \<open>uint32_t *\<close> must be a multiple of 4, or the
  conversion and the accesses are undefined: the value \<open>Inl Misaligned\<close>. The types with
  which the caller accesses the bytes (strict aliasing) are not modelled. The functions
  return \<open>dst\<close>; the definitions give the memory they leave.
\<close>

type_synonym memory = "nat \<Rightarrow> u8"

section \<open>32-bit accesses\<close>

definition load32 :: "memory \<Rightarrow> nat \<Rightarrow> u32" where
  "load32 m a = ucast (m a) OR push_bit 8 (ucast (m (a + 1)))
     OR push_bit 16 (ucast (m (a + 2))) OR push_bit 24 (ucast (m (a + 3)))"

definition store32 :: "memory \<Rightarrow> nat \<Rightarrow> u32 \<Rightarrow> memory" where
  "store32 m a w = m(a := ucast w, a + 1 := ucast (drop_bit 8 w),
     a + 2 := ucast (drop_bit 16 w), a + 3 := ucast (drop_bit 24 w))"

lemma store_load: "store32 m d (load32 m' s) = m(d := m' s, d + 1 := m' (s + 1), d + 2 := m' (s + 2), d + 3 := m' (s + 3))"
proof -
  have "ucast (load32 m' s) = m' s" "ucast (drop_bit 8 (load32 m' s)) = m' (s + 1)"
    "ucast (drop_bit 16 (load32 m' s)) = m' (s + 2)" "ucast (drop_bit 24 (load32 m' s)) = m' (s + 3)"
    unfolding load32_def by (rule bit_word_eqI; simp add: bit_simps bit_unsigned_iff; auto dest: bit_imp_le_length)+
  then show ?thesis by (simp add: store32_def)
qed

section \<open>The functions\<close>

fun copy32 :: "nat \<Rightarrow> nat \<Rightarrow> nat \<Rightarrow> memory \<Rightarrow> memory" where
  "copy32 0 dst32 src32 m = m"
| "copy32 (Suc k) dst32 src32 m = copy32 k (dst32 + 4) (src32 + 4) (store32 m dst32 (load32 m src32))"

fun copy8 :: "nat \<Rightarrow> nat \<Rightarrow> nat \<Rightarrow> memory \<Rightarrow> memory" where
  "copy8 0 dst8 src8 m = m"
| "copy8 (Suc k) dst8 src8 m = copy8 k (dst8 + 1) (src8 + 1) (m(dst8 := m src8))"

text \<open>The conversion of a pointer to \<open>uint32_t *\<close>.\<close>

definition to_u32_ptr :: "nat \<Rightarrow> nat cres" where
  "to_u32_ptr a = (if a mod 4 = 0 then Inr a else Inl Misaligned)"

definition my_memcpy :: "nat \<Rightarrow> nat \<Rightarrow> nat \<Rightarrow> memory \<Rightarrow> memory cres" where
  "my_memcpy dst src n m =
     (if dst = 0 \<or> src = 0 \<or> n = 0 then Inr m
      else cbind (to_u32_ptr dst) (\<lambda>dst32. cbind (to_u32_ptr src) (\<lambda>src32.
        Inr (copy8 (n mod 4) (dst32 + 4 * (n div 4)) (src32 + 4 * (n div 4)) (copy32 (n div 4) dst32 src32 m)))))"

fun copy_back :: "nat \<Rightarrow> nat \<Rightarrow> nat \<Rightarrow> memory \<Rightarrow> memory" where
  "copy_back 0 dst_end src_end m = m"
| "copy_back (Suc k) dst_end src_end m = copy_back k (dst_end - 1) (src_end - 1) (m(dst_end := m src_end))"

definition my_memmove :: "nat \<Rightarrow> nat \<Rightarrow> nat \<Rightarrow> memory \<Rightarrow> memory cres" where
  "my_memmove dst src n m =
     (if dst = 0 \<or> src = 0 \<or> n = 0 \<or> src = dst then Inr m
      else if dst > src \<and> dst \<le> src + (n - 1) then Inr (copy_back n (dst + (n - 1)) (src + (n - 1)) m)
      else my_memcpy dst src n m)"

fun fill32 :: "nat \<Rightarrow> nat \<Rightarrow> u32 \<Rightarrow> memory \<Rightarrow> memory" where
  "fill32 0 dst32 v m = m"
| "fill32 (Suc k) dst32 v m = fill32 k (dst32 + 4) v (store32 m dst32 v)"

fun fill8 :: "nat \<Rightarrow> nat \<Rightarrow> u8 \<Rightarrow> memory \<Rightarrow> memory" where
  "fill8 0 dst8 v m = m"
| "fill8 (Suc k) dst8 v m = fill8 k (dst8 + 1) v (m(dst8 := v))"

definition memset_pattern :: "int \<Rightarrow> u32" where
  "memset_pattern value = (let val = of_int value in
     push_bit 24 val OR push_bit 16 val OR push_bit 8 val OR val)"

definition my_memset :: "nat \<Rightarrow> int \<Rightarrow> nat \<Rightarrow> memory \<Rightarrow> memory cres" where
  "my_memset dst value n m =
     (if dst = 0 \<or> value > 255 \<or> n = 0 then Inr m
      else cbind (to_u32_ptr dst) (\<lambda>dst32.
        Inr (fill8 (n mod 4) (dst32 + 4 * (n div 4)) (of_int value)
          (fill32 (n div 4) dst32 (memset_pattern value) m))))"

section \<open>Reference behaviour\<close>

text \<open>The bytes of the destination become the bytes the source had; nothing else changes.\<close>

definition copied :: "nat \<Rightarrow> nat \<Rightarrow> nat \<Rightarrow> memory \<Rightarrow> memory" where
  "copied dst src n m = (\<lambda>a. if dst \<le> a \<and> a < dst + n then m (src + (a - dst)) else m a)"

definition filled :: "nat \<Rightarrow> u8 \<Rightarrow> nat \<Rightarrow> memory \<Rightarrow> memory" where
  "filled dst v n m = (\<lambda>a. if dst \<le> a \<and> a < dst + n then v else m a)"

lemma copied_0 [simp]: "copied dst src 0 m = m"
  by (auto simp: copied_def fun_eq_iff)

lemma filled_0 [simp]: "filled dst v 0 m = m"
  by (auto simp: filled_def fun_eq_iff)

text \<open>Copying forward, byte by byte, is safe if the destination does not run into the source.\<close>

lemma copied_byte:
  assumes "dst \<le> src \<or> src + Suc j \<le> dst"
  shows "(copied dst src j m)(dst + j := copied dst src j m (src + j)) = copied dst src (Suc j) m"
  using assms by (auto simp: copied_def fun_eq_iff)

lemma copied_word:
  assumes "dst \<le> src \<or> src + (j + 4) \<le> dst"
  shows "store32 (copied dst src j m) (dst + j) (load32 (copied dst src j m) (src + j)) = copied dst src (j + 4) m"
proof -
  have read: "copied dst src j m (src + j + i) = m (src + (j + i))" if "i < 4" for i
    using assms that by (auto simp: copied_def add.assoc)
  have "store32 (copied dst src j m) (dst + j) (load32 (copied dst src j m) (src + j))
      = (copied dst src j m)(dst + j := m (src + j), dst + j + 1 := m (src + (j + 1)),
          dst + j + 2 := m (src + (j + 2)), dst + j + 3 := m (src + (j + 3)))"
    unfolding store_load using read [of 0] read [of 1] read [of 2] read [of 3] by simp
  also have "\<dots> = copied dst src (j + 4) m"
    by (auto simp: copied_def fun_eq_iff)
  finally show ?thesis .
qed

lemma copy32_copied:
  assumes "dst \<le> src \<or> src + n \<le> dst"
  shows "j + 4 * k \<le> n \<Longrightarrow> copy32 k (dst + j) (src + j) (copied dst src j m) = copied dst src (j + 4 * k) m"
proof (induction k arbitrary: j)
  case (Suc k)
  have "dst \<le> src \<or> src + (j + 4) \<le> dst" using assms Suc.prems by auto
  from Suc.IH [of "j + 4"] Suc.prems copied_word [OF this, of m] show ?case by (simp add: ac_simps)
qed simp

lemma copy8_copied:
  assumes "dst \<le> src \<or> src + n \<le> dst"
  shows "j + k \<le> n \<Longrightarrow> copy8 k (dst + j) (src + j) (copied dst src j m) = copied dst src (j + k) m"
proof (induction k arbitrary: j)
  case (Suc k)
  have "dst \<le> src \<or> src + Suc j \<le> dst" using assms Suc.prems by auto
  from Suc.IH [of "Suc j"] Suc.prems copied_byte [OF this, of m] show ?case by simp
qed simp

lemma memcpy_copied:
  assumes "dst \<noteq> 0" "src \<noteq> 0" "dst \<le> src \<or> src + n \<le> dst"
  shows "my_memcpy dst src n m = (if n = 0 \<or> dst mod 4 = 0 \<and> src mod 4 = 0
     then Inr (copied dst src n m) else Inl Misaligned)"
  using assms(1,2) copy32_copied [OF assms(3), of 0 "n div 4" m]
    copy8_copied [OF assms(3), of "4 * (n div 4)" "n mod 4" m]
  by (auto simp: my_memcpy_def to_u32_ptr_def)

lemma copy_back_copied:
  assumes "src < dst"
  shows "k \<le> n \<Longrightarrow> copy_back k (dst + k - 1) (src + k - 1)
           (\<lambda>a. if dst + k \<le> a \<and> a < dst + n then m (src + (a - dst)) else m a) = copied dst src n m"
proof (induction k)
  case 0
  then show ?case by (simp add: copied_def [abs_def])
next
  case (Suc k)
  have "(\<lambda>a. if dst + Suc k \<le> a \<and> a < dst + n then m (src + (a - dst)) else m a)
      (dst + k := (if dst + Suc k \<le> src + k \<and> src + k < dst + n then m (src + (src + k - dst)) else m (src + k)))
    = (\<lambda>a. if dst + k \<le> a \<and> a < dst + n then m (src + (a - dst)) else m a)"
    using assms Suc.prems by (auto simp: fun_eq_iff)
  with Suc show ?case by simp
qed

lemma copied_same: "copied dst dst n m = m"
  by (auto simp: copied_def fun_eq_iff)

text \<open>Filling.\<close>

lemma memset_pattern_bytes:
  assumes "0 \<le> value" "value \<le> 255"
  shows "store32 m a (memset_pattern value) = m(a := of_int value, a + 1 := of_int value,
           a + 2 := of_int value, a + 3 := of_int value)"
proof -
  obtain k where k: "value = int k" "k \<le> 255" using assms by (metis nat_le_iff nat_numeral of_nat_le_iff of_nat_numeral zero_le_imp_eq_int)
  define v :: u8 where "v = of_nat k"
  have v: "(of_int value :: u32) = ucast v" "(of_int value :: u8) = v"
    using k by (simp_all add: v_def unsigned_of_nat take_bit_nat_eq_self)
  have "memset_pattern value = load32 (\<lambda>_. v) 0"
    unfolding memset_pattern_def load32_def v Let_def by (simp add: ac_simps)
  then show ?thesis by (simp add: store_load v)
qed

lemma fill32_filled:
  assumes "0 \<le> value" "value \<le> 255"
  shows "fill32 k (dst + j) (memset_pattern value) (filled dst (of_int value) j m) = filled dst (of_int value) (j + 4 * k) m"
proof (induction k arbitrary: j)
  case (Suc k)
  have "store32 (filled dst (of_int value) j m) (dst + j) (memset_pattern value) = filled dst (of_int value) (j + 4) m"
    unfolding memset_pattern_bytes [OF assms] by (auto simp: filled_def fun_eq_iff)
  with Suc.IH [of "j + 4"] show ?case by (simp add: ac_simps)
qed simp

lemma fill8_filled: "fill8 k (dst + j) v (filled dst v j m) = filled dst v (j + k) m"
proof (induction k arbitrary: j)
  case (Suc k)
  have "(filled dst v j m)(dst + j := v) = filled dst v (Suc j) m" by (auto simp: filled_def fun_eq_iff)
  with Suc.IH [of "Suc j"] show ?case by simp
qed simp

section \<open>Properties\<close>

text \<open>
  C17. On regions in the address space, \<open>my_memmove\<close> gives the destination the bytes the
  source had before the call and changes no other byte. If the destination starts inside
  the source this holds for all addresses; in the other cases, which it leaves to the
  word loop of \<open>my_memcpy\<close>, it holds if both addresses are multiples of 4, and the
  call is undefined if one is not. \<open>my_memcpy\<close> behaves like the second case, whenever
  the destination does not start inside the source.
\<close>

theorem memmove_copies:
  assumes "dst \<noteq> 0" "src \<noteq> 0" "dst + n \<le> 2 ^ 64" "src + n \<le> 2 ^ 64"
  shows "my_memmove dst src n m =
          (if n = 0 \<or> src \<le> dst \<and> dst < src + n \<or> dst mod 4 = 0 \<and> src mod 4 = 0
           then Inr (copied dst src n m) else Inl Misaligned)
       \<and> (dst \<le> src \<or> src + n \<le> dst \<longrightarrow> my_memcpy dst src n m =
          (if n = 0 \<or> dst mod 4 = 0 \<and> src mod 4 = 0 then Inr (copied dst src n m) else Inl Misaligned))"
proof (intro conjI impI)
  show "my_memmove dst src n m =
          (if n = 0 \<or> src \<le> dst \<and> dst < src + n \<or> dst mod 4 = 0 \<and> src mod 4 = 0
           then Inr (copied dst src n m) else Inl Misaligned)"
  proof (cases "n = 0 \<or> src = dst")
    case True
    then show ?thesis by (auto simp: my_memmove_def copied_same)
  next
    case False
    show ?thesis
    proof (cases "src < dst \<and> dst \<le> src + (n - 1)")
      case True
      then have "dst \<le> src + n - Suc 0" using False by simp
      moreover have "(\<lambda>a. if dst + n \<le> a \<and> a < dst + n then m (src + (a - dst)) else m a) = m" by (auto simp: fun_eq_iff)
      moreover have "dst < src + n" using True False by linarith
      ultimately show ?thesis using True False assms(1,2) copy_back_copied [of src dst n n m] by (simp add: my_memmove_def)
    next
      case apart: False
      then have "dst \<le> src \<or> src + n \<le> dst" by linarith
      moreover from apart False have "\<not> (src \<le> dst \<and> dst < src + n)" by linarith
      ultimately show ?thesis using False assms(1,2) apart memcpy_copied [of dst src n m]
        by (auto simp: my_memmove_def)
    qed
  qed
qed (rule memcpy_copied [OF assms(1,2)])

theorem memmove_copies_witness:
  "my_memmove 12 10 6 (\<lambda>a. of_nat a) = Inr (copied 12 10 6 (\<lambda>a. of_nat a))
   \<and> map (copied 12 10 6 (\<lambda>a. of_nat a)) [9..<19] = [9, 10, 11, 10, 11, 12, 13, 14, 15, 18]
   \<and> my_memmove 8 12 6 (\<lambda>_. 0) = Inr (copied 8 12 6 (\<lambda>_. 0)) \<and> my_memmove 8 14 6 (\<lambda>_. 0) = Inl Misaligned"
  using memmove_copies [of 12 10 6 "\<lambda>a. of_nat a"] memmove_copies [of 8 12 6 "\<lambda>_. 0"]
    memmove_copies [of 8 14 6 "\<lambda>_. 0"]
  by (simp add: copied_def upt_rec)

text \<open>
  \<open>my_memset\<close> of a multiple of 4 with a value from 0 to 255 sets exactly the \<open>n\<close> bytes
  from \<open>dst\<close> on; other addresses are undefined. A value above 255 changes nothing, although
  the requirement is to write its low byte; a negative value is not reduced either before
  it is spread over the word.
\<close>

theorem memset_fills:
  assumes "dst \<noteq> 0"
  shows "(0 \<le> value \<and> value \<le> 255 \<longrightarrow> my_memset dst value n m =
            (if n = 0 \<or> dst mod 4 = 0 then Inr (filled dst (of_int value) n m) else Inl Misaligned))
       \<and> (255 < value \<longrightarrow> my_memset dst value n m = Inr m)"
proof (intro conjI impI)
  assume v: "0 \<le> value \<and> value \<le> 255"
  then show "my_memset dst value n m =
      (if n = 0 \<or> dst mod 4 = 0 then Inr (filled dst (of_int value) n m) else Inl Misaligned)"
    using assms fill32_filled [of "value" "n div 4" dst 0 m] fill8_filled [of "n mod 4" dst "4 * (n div 4)" "of_int value" m]
    by (simp add: my_memset_def to_u32_ptr_def)
qed (simp add: my_memset_def)

theorem memset_fills_witness:
  "my_memset 8 0x2A 5 (\<lambda>_. 0) = Inr (filled 8 0x2A 5 (\<lambda>_. 0))
   \<and> my_memset 8 0x12A 5 (\<lambda>_. 0) = Inr (\<lambda>_. 0) \<and> my_memset 9 0x2A 5 (\<lambda>_. 0) = Inl Misaligned"
  using memset_fills [of 8 "0x2A" 5 "\<lambda>_. 0"] memset_fills [of 8 "0x12A" 5 "\<lambda>_. 0"]
    memset_fills [of 9 "0x2A" 5 "\<lambda>_. 0"] by simp

theorem memset_negative_value:
  "case my_memset 8 (- 2) 4 m of Inr m' \<Rightarrow> m' 9 = 255 | Inl e \<Rightarrow> False"
proof -
  have "memset_pattern (- 2) = 0xFFFFFFFE" by (simp add: memset_pattern_def)
  then show ?thesis
    by (simp add: my_memset_def to_u32_ptr_def store32_def drop_bit_eq_div fill32.simps(2) [of 0, simplified])
qed

end
