(* ===== verification/Submasks.thy ===== *)
theory Submasks
  imports Prelude
begin

text \<open>
  \<open>coding_challenges/bitmask_backtracking.c\<close>: \<open>generate_submasks\<close> writes every submask
  of a mask. The bit tricks of its two loops (\<open>i &= i - 1\<close> clears the lowest set bit,
  \<open>(s - 1) & mask\<close> is the next smaller submask) are first proved on natural numbers by
  halving, then carried over to \<open>uint32_t\<close>.
\<close>

section \<open>The function\<close>

lemma and_pred_less: "i \<noteq> 0 \<Longrightarrow> unat (i AND (i - 1) :: u32) < unat i" for i
proof -
  assume i: "i \<noteq> 0"
  have "i AND (i - 1) \<le> i - 1" by (rule word_and_le1)
  then have "unat (i AND (i - 1)) \<le> unat i - 1" using i by (simp add: word_le_nat_alt unat_minus_one)
  with i show ?thesis by (metis diff_less le_less_trans less_numeral_extra(1) unat_gt_0 word_neq_0_conv)
qed

lemma next_sub_less: "s \<noteq> 0 \<Longrightarrow> unat ((s - 1) AND msk :: u32) < unat s" for s
proof -
  assume s: "s \<noteq> 0"
  have "(s - 1) AND msk \<le> s - 1" by (rule word_and_le2)
  then have "unat ((s - 1) AND msk) \<le> unat s - 1" using s by (simp add: word_le_nat_alt unat_minus_one)
  with s show ?thesis by (metis diff_less le_less_trans less_numeral_extra(1) unat_gt_0 word_neq_0_conv)
qed

text \<open>The loop that counts the set bits.\<close>

function count_bits :: "u32 \<Rightarrow> nat \<Rightarrow> nat" where
  "count_bits i k = (if i \<noteq> 0 then count_bits (i AND (i - 1)) (k + 1) else k)"
  by pat_completeness auto
termination
  by (relation "measure (\<lambda>(i, k). unat i)") (auto intro: and_pred_less)

text \<open>The loop that writes the non-zero submasks from index \<open>idx\<close> on.\<close>

function write_subs :: "u32 \<Rightarrow> u32 \<Rightarrow> nat \<Rightarrow> u32 list \<Rightarrow> (u32 list \<times> nat) cres" where
  "write_subs msk s idx out =
     (if s \<noteq> 0 then cbind (arr_set out idx s) (\<lambda>out'. write_subs msk ((s - 1) AND msk) (idx + 1) out')
      else Inr (out, idx))"
  by pat_completeness auto
termination
  by (relation "measure (\<lambda>(msk, s, idx, out). unat s)") (auto intro: next_sub_less)

text \<open>
  \<open>out\<close> is the caller's array, if any; \<open>has_count\<close> says whether \<open>out_count\<close> is not
  null. The result is the code, the array and \<open>*out_count\<close>. \<open>1 << k\<close> has type \<open>int\<close>:
  it is undefined from \<open>k = 31\<close> on.
\<close>

definition generate_submasks :: "u32 \<Rightarrow> u32 list option \<Rightarrow> nat \<Rightarrow> bool \<Rightarrow> (int \<times> u32 list option \<times> nat option) cres" where
  "generate_submasks msk out out_cap has_count =
     (if \<not> has_count then Inr (- 1, out, None)
      else case out of
        None \<Rightarrow> if msk \<noteq> 0 then Inr (- 2, out, Some 0) else Inr (0, out, Some 1)
      | Some xs \<Rightarrow> let k = count_bits msk 0 in
          if 31 \<le> k then Inl Shift_Width
          else if out_cap < 2 ^ k then Inr (- 3, out, Some 0)
          else cbind (arr_set xs 0 0) (\<lambda>xs. cbind (write_subs msk msk 1 xs) (\<lambda>(xs, idx).
            Inr (0, Some xs, Some idx))))"

declare count_bits.simps [simp del] write_subs.simps [simp del]

section \<open>Bits of natural numbers, by halving\<close>

definition sub :: "nat \<Rightarrow> nat \<Rightarrow> bool" where
  "sub t m \<longleftrightarrow> t AND m = t"

lemma and_halves: "(a AND b :: nat) = 2 * ((a div 2) AND (b div 2)) + (if odd a \<and> odd b then 1 else 0)"
  by (subst and_rec) (simp add: add.commute)

lemma sub_halves: "sub t m \<longleftrightarrow> sub (t div 2) (m div 2) \<and> (odd t \<longrightarrow> odd m)"
proof -
  have "t = 2 * (t div 2) + (if odd t then 1 else 0)" by (simp add: odd_two_times_div_two_succ)
  then have "t AND m = t \<longleftrightarrow> 2 * ((t div 2) AND (m div 2)) + (if odd t \<and> odd m then 1 else 0)
      = 2 * (t div 2) + (if odd t then 1 else 0)"
    using and_halves [of t m] by simp
  also have "\<dots> \<longleftrightarrow> (t div 2) AND (m div 2) = t div 2 \<and> (odd t \<longrightarrow> odd m)"
    by (cases "odd t"; cases "odd m") (simp_all, presburger+)
  finally show ?thesis by (simp add: sub_def)
qed

lemma sub_le: "sub t m \<Longrightarrow> t \<le> m"
proof (induction t arbitrary: m rule: less_induct)
  case (less t)
  show ?case
  proof (cases "t = 0")
    case False
    then have "t div 2 \<le> m div 2" using less.IH [of "t div 2" "m div 2"] less.prems sub_halves [of t m] by simp
    moreover have "odd t \<longrightarrow> odd m" using less.prems sub_halves [of t m] by simp
    ultimately show ?thesis by presburger
  qed simp
qed

text \<open>No submask lies strictly between \<open>(s - 1) AND m\<close> and the submask \<open>s\<close>.\<close>

lemma next_sub_greatest: "sub s m \<Longrightarrow> sub t m \<Longrightarrow> t < s \<Longrightarrow> t \<le> (s - 1) AND m"
proof (induction s arbitrary: t m rule: less_induct)
  case (less s)
  let ?h = "\<lambda>x. x div (2::nat)"
  from less.prems have s: "sub (?h s) (?h m)" "odd s \<longrightarrow> odd m" and t: "sub (?h t) (?h m)" "odd t \<longrightarrow> odd m"
    by (simp_all add: sub_halves [of s m] sub_halves [of t m])
  show ?case
  proof (cases "odd s")
    case True
    then have "(s - 1) AND m = 2 * ?h s"
      using s(1) and_halves [of "s - 1" m] by (auto simp: sub_def elim!: oddE)
    moreover have "s = 2 * ?h s + 1" using True by presburger
    ultimately show ?thesis using less.prems(3) by linarith
  next
    case False
    then obtain r where r: "s = 2 * r" by (auto elim: evenE)
    with less.prems(3) have pos: "0 < r" by simp
    then have half: "(s - 1) div 2 = r - 1" "odd (s - 1)" using r by simp_all
    then have eq: "(s - 1) AND m = 2 * ((r - 1) AND ?h m) + (if odd m then 1 else 0)"
      using and_halves [of "s - 1" m] by simp
    have "?h t < r" using less.prems(3) r by linarith
    with less.IH [of r "?h m" "?h t"] s(1) t(1) r pos have "?h t \<le> (r - 1) AND ?h m" by simp
    moreover have "t = 2 * ?h t + (if odd t then 1 else 0)" by (simp add: odd_two_times_div_two_succ)
    ultimately show ?thesis using eq t(2) by (cases "odd t") auto
  qed
qed

text \<open>The number of set bits, and of submasks.\<close>

fun pop :: "nat \<Rightarrow> nat" where
  "pop m = (if m = 0 then 0 else pop (m div 2) + m mod 2)"

declare pop.simps [simp del]

lemma pop_0 [simp]: "pop 0 = 0"
  by (simp add: pop.simps)

lemma pop_halves: "pop m = pop (m div 2) + m mod 2"
  by (cases "m = 0") (simp_all add: pop.simps [of m])

lemma pop_double: "pop (2 * m) = pop m"
  using pop_halves [of "2 * m"] by simp

lemma pop_clear: "0 < m \<Longrightarrow> pop m = Suc (pop (m AND (m - 1)))"
proof (induction m rule: less_induct)
  case (less m)
  show ?case
  proof (cases "odd m")
    case True
    then have eq: "m AND (m - 1) = 2 * (m div 2)" using and_halves [of m "m - 1"] by (auto elim!: oddE)
    have "pop (m AND (m - 1)) = pop (m div 2)" unfolding eq by (rule pop_double)
    with True pop_halves [of m] show ?thesis by (simp add: odd_iff_mod_2_eq_one)
  next
    case False
    then obtain r where r: "m = 2 * r" by (auto elim: evenE)
    with less.prems have "0 < r" "(m - 1) div 2 = r - 1" by simp_all
    then have "m AND (m - 1) = 2 * (r AND (r - 1))" using and_halves [of m "m - 1"] r by simp
    with less.IH [of r] r \<open>0 < r\<close> show ?thesis by (simp add: pop_double)
  qed
qed

lemma card_subs: "finite {t. sub t m} \<and> card {t. sub t m} = 2 ^ pop m"
proof (induction m rule: less_induct)
  case (less m)
  show ?case
  proof (cases "m = 0")
    case True
    have "{t. sub t m} = {0}" using True by (auto simp: sub_def)
    then show ?thesis using True by simp
  next
    case False
    let ?A = "{t. sub t (m div 2)}"
    have IH: "finite ?A" "card ?A = 2 ^ pop (m div 2)" using less [of "m div 2"] False by simp_all
    have split: "{t. sub t m} = (\<lambda>t. 2 * t) ` ?A \<union> (if odd m then (\<lambda>t. 2 * t + 1) ` ?A else {})"
    proof (intro set_eqI iffI)
      fix t
      assume "t \<in> {t. sub t m}"
      then have "t div 2 \<in> ?A" "odd t \<longrightarrow> odd m" by (simp_all add: sub_halves [of t m])
      moreover have "t = 2 * (t div 2) + 1" if "odd t" using that by simp
      ultimately show "t \<in> (\<lambda>t. 2 * t) ` ?A \<union> (if odd m then (\<lambda>t. 2 * t + 1) ` ?A else {})"
        using image_eqI [of t "\<lambda>t. 2 * t + 1" "t div 2" ?A] image_eqI [of t "\<lambda>t. 2 * t" "t div 2" ?A]
        by (cases "odd t") auto
    qed (auto simp: sub_halves [of _ m] split: if_splits)
    have "(\<lambda>t. 2 * t) ` ?A \<inter> (\<lambda>t. 2 * t + 1) ` ?A = {}" by (auto, presburger)
    moreover have "card ((\<lambda>t. 2 * t) ` ?A) = card ?A" "card ((\<lambda>t. 2 * t + 1) ` ?A) = card ?A"
      by (simp_all add: card_image inj_on_def)
    ultimately show ?thesis
      using IH pop_halves [of m] unfolding split
      by (cases "odd m") (simp_all add: card_Un_disjoint odd_iff_mod_2_eq_one even_iff_mod_2_eq_zero)
  qed
qed

section \<open>On 32-bit words\<close>

lemma unat_and: "unat (a AND b) = unat a AND unat b"
  by (simp add: unsigned_and_eq)

lemma count_bits_pop: "count_bits i k = k + pop (unat i)"
proof (induction i k rule: count_bits.induct)
  case (1 i k)
  show ?case
  proof (cases "i = 0")
    case False
    then have "pop (unat i) = Suc (pop (unat (i AND (i - 1))))"
      using pop_clear [of "unat i"] by (simp add: unat_and unat_minus_one unat_gt_0)
    with 1 False show ?thesis by (simp add: count_bits.simps [of i])
  qed (simp add: count_bits.simps)
qed

text \<open>The values the second loop visits.\<close>

function desc :: "u32 \<Rightarrow> u32 \<Rightarrow> u32 list" where
  "desc msk s = (if s \<noteq> 0 then s # desc msk ((s - 1) AND msk) else [])"
  by pat_completeness auto
termination
  by (relation "measure (\<lambda>(msk, s). unat s)") (auto intro: next_sub_less)

declare desc.simps [simp del]

lemma submask_iff: "t AND msk = t \<longleftrightarrow> sub (unat t) (unat msk)" for t msk :: u32
  by (metis sub_def unat_and word_unat_eq_iff)

lemma desc_submasks:
  assumes "s AND msk = s"
  shows "set (desc msk s) = {t. t \<noteq> 0 \<and> t AND msk = t \<and> t \<le> s} \<and> distinct (desc msk s)"
  using assms
proof (induction msk s rule: desc.induct)
  case (1 msk s)
  show ?case
  proof (cases "s = 0")
    case True
    then show ?thesis by (auto simp: desc.simps)
  next
    case False
    let ?n = "(s - 1) AND msk"
    have IH: "set (desc msk ?n) = {t. t \<noteq> 0 \<and> t AND msk = t \<and> t \<le> ?n} \<and> distinct (desc msk ?n)"
      using 1 False by (simp add: and.assoc)
    have less: "?n < s" using next_sub_less [OF False, of msk] by (simp add: word_less_nat_alt)
    have "t \<le> ?n" if "t AND msk = t" "t < s" for t
    proof -
      have "unat t \<le> (unat s - 1) AND unat msk"
        using that 1(2) by (intro next_sub_greatest) (simp_all add: submask_iff word_less_nat_alt)
      then show ?thesis using False by (simp add: word_le_nat_alt unat_and unat_minus_one)
    qed
    then have "{t. t \<noteq> 0 \<and> t AND msk = t \<and> t \<le> s} = insert s {t. t \<noteq> 0 \<and> t AND msk = t \<and> t \<le> ?n}"
      using False 1(2) less by (auto simp: le_less)
    moreover have d: "desc msk s = s # desc msk ?n" using False by (simp add: desc.simps [of msk s])
    moreover have "s \<notin> set (desc msk ?n)" using IH less by (simp add: not_le)
    ultimately show ?thesis unfolding d using IH by simp
  qed
qed

lemma write_subs_desc:
  "idx + length (desc msk s) \<le> length out \<Longrightarrow>
   write_subs msk s idx out
     = Inr (take idx out @ desc msk s @ drop (idx + length (desc msk s)) out, idx + length (desc msk s))"
proof (induction msk s idx out rule: write_subs.induct)
  case (1 msk s idx out)
  show ?case
  proof (cases "s = 0")
    case True
    then show ?thesis by (simp add: write_subs.simps desc.simps)
  next
    case False
    let ?r = "desc msk ((s - 1) AND msk)"
    have d: "desc msk s = s # ?r" using False by (simp add: desc.simps [of msk s])
    with 1(2) have idx: "idx < length out" by simp
    have "write_subs msk ((s - 1) AND msk) (idx + 1) (out[idx := s])
        = Inr (take (idx + 1) (out[idx := s]) @ ?r @ drop (idx + 1 + length ?r) (out[idx := s]), idx + 1 + length ?r)"
      using 1 False idx d by simp
    moreover have "take (idx + 1) (out[idx := s]) = take idx out @ [s]"
      using idx by (simp add: take_Suc_conv_app_nth)
    ultimately show ?thesis using False idx d by (simp add: write_subs.simps [of msk s])
  qed
qed

lemma submasks_card: "card {t. t AND msk = t} = 2 ^ count_bits msk 0" for msk :: u32
proof -
  have "unat ` {t. t AND msk = t} = {t. sub t (unat msk)}"
  proof (intro set_eqI iffI)
    fix t
    assume t: "t \<in> {t. sub t (unat msk)}"
    then have "t < 2 ^ 32" using sub_le [of t "unat msk"] unat_bound [of msk] by simp
    then have "unat (of_nat t :: u32) = t" by (simp add: unat_of_nat)
    with t show "t \<in> unat ` {t. t AND msk = t}"
      by (intro image_eqI [of _ _ "of_nat t"]) (simp_all add: submask_iff)
  qed (auto simp: submask_iff)
  moreover have "inj_on unat {t. t AND msk = t}" by (simp add: inj_on_def word_unat_eq_iff)
  ultimately show ?thesis using card_subs [of "unat msk"] card_image by (fastforce simp: count_bits_pop)
qed

lemma desc_all:
  "set (0 # desc msk msk) = {t. t AND msk = t}" "distinct (0 # desc msk msk)"
  "length (0 # desc msk msk) = 2 ^ count_bits msk 0"
proof -
  have le: "t \<le> msk" if "t AND msk = t" for t
    using that word_and_le1 [of t msk] by simp
  have d: "set (desc msk msk) = {t. t \<noteq> 0 \<and> t AND msk = t \<and> t \<le> msk}" "distinct (desc msk msk)"
    using desc_submasks [of msk msk] by simp_all
  then show "set (0 # desc msk msk) = {t. t AND msk = t}" "distinct (0 # desc msk msk)"
    using le by auto
  then show "length (0 # desc msk msk) = 2 ^ count_bits msk 0"
    using distinct_card [of "0 # desc msk msk"] submasks_card [of msk] by simp
qed

lemma desc_decreasing: "sorted_wrt (>) (desc msk s) \<and> (\<forall>t\<in>set (desc msk s). t \<le> s)"
proof (induction msk s rule: desc.induct)
  case (1 msk s)
  show ?case
  proof (cases "s = 0")
    case True
    then show ?thesis by (simp add: desc.simps)
  next
    case False
    then have "(s - 1) AND msk < s" by (simp add: word_less_nat_alt next_sub_less)
    with 1 False show ?thesis by (auto simp: desc.simps [of msk s] dest: le_less_trans)
  qed
qed

section \<open>Properties\<close>

text \<open>
  C32. With an array that is large enough and a mask of at most 30 bits,
  \<open>generate_submasks\<close> returns 0, reports \<open>2 ^ k\<close> submasks for \<open>k\<close> set bits, and has
  written each submask of the mask exactly once, 0 first and then the others from the
  largest to the smallest, without touching the rest of the array. With a smaller capacity it returns -3 and writes nothing; from 31 bits on the
  shift \<open>1 << k\<close> is undefined.
\<close>

theorem submasks_complete:
  assumes "out_cap \<le> length xs"
  shows "(count_bits msk 0 \<le> 30 \<and> 2 ^ count_bits msk 0 \<le> out_cap \<longrightarrow>
           (\<exists>ys. generate_submasks msk (Some xs) out_cap True = Inr (0, Some ys, Some (2 ^ count_bits msk 0))
              \<and> distinct (take (2 ^ count_bits msk 0) ys)
              \<and> set (take (2 ^ count_bits msk 0) ys) = {t. t AND msk = t}
              \<and> hd ys = 0 \<and> sorted_wrt (>) (tl (take (2 ^ count_bits msk 0) ys))
              \<and> drop (2 ^ count_bits msk 0) ys = drop (2 ^ count_bits msk 0) xs))
       \<and> (count_bits msk 0 \<le> 30 \<and> out_cap < 2 ^ count_bits msk 0 \<longrightarrow>
           generate_submasks msk (Some xs) out_cap True = Inr (- 3, Some xs, Some 0))
       \<and> (31 \<le> count_bits msk 0 \<longrightarrow> generate_submasks msk (Some xs) out_cap True = Inl Shift_Width)"
proof (intro conjI impI)
  let ?k = "count_bits msk 0" and ?d = "desc msk msk"
  assume k: "?k \<le> 30 \<and> 2 ^ ?k \<le> out_cap"
  have len: "2 ^ ?k \<le> length xs" "0 < length xs" using k assms by (auto intro: less_le_trans [of 0 "2 ^ ?k"])
  have "write_subs msk msk 1 (xs[0 := 0])
      = Inr (take 1 (xs[0 := 0]) @ ?d @ drop (1 + length ?d) (xs[0 := 0]), 1 + length ?d)"
    using desc_all(3) [of msk] len by (intro write_subs_desc) simp
  moreover have "take 1 (xs[0 := 0]) = [0]" using len by (cases xs) simp_all
  moreover have "drop (1 + length ?d) (xs[0 := 0]) = drop (2 ^ ?k) xs" using desc_all(3) [of msk] by simp
  ultimately have "generate_submasks msk (Some xs) out_cap True
      = Inr (0, Some ((0 # ?d) @ drop (2 ^ ?k) xs), Some (2 ^ ?k))"
    using k len desc_all(3) [of msk] by (simp add: generate_submasks_def Let_def)
  moreover have "take (2 ^ ?k) ((0 # ?d) @ drop (2 ^ ?k) xs) = 0 # ?d"
    "drop (2 ^ ?k) ((0 # ?d) @ drop (2 ^ ?k) xs) = drop (2 ^ ?k) xs"
    unfolding desc_all(3) [of msk, symmetric] by simp_all
  ultimately show "\<exists>ys. generate_submasks msk (Some xs) out_cap True = Inr (0, Some ys, Some (2 ^ ?k))
      \<and> distinct (take (2 ^ ?k) ys) \<and> set (take (2 ^ ?k) ys) = {t. t AND msk = t}
      \<and> hd ys = 0 \<and> sorted_wrt (>) (tl (take (2 ^ ?k) ys))
      \<and> drop (2 ^ ?k) ys = drop (2 ^ ?k) xs"
    using desc_all(1,2) [of msk] desc_decreasing [of msk msk] by (intro exI [of _ "(0 # ?d) @ drop (2 ^ ?k) xs"]) (simp only: simp_thms append_Cons list.sel)
qed (simp_all add: generate_submasks_def)

theorem submasks_complete_witness:
  "count_bits 0b1010 0 = 2 \<and> (\<exists>ys. generate_submasks 0b1010 (Some [9, 9, 9, 9, 9]) 5 True = Inr (0, Some ys, Some 4)
     \<and> distinct (take 4 ys) \<and> drop 4 ys = [9])"
proof -
  have "count_bits 0b1010 0 = 2" by (simp add: count_bits_pop pop.simps)
  with submasks_complete [of 5 "[9, 9, 9, 9, 9]" "0b1010"] show ?thesis by auto
qed

end
