(* ===== verification/Semaphores.thy ===== *)
theory Semaphores
  imports Prelude
begin

text \<open>
  The semaphore exercises of \<open>31_Semaphores\<close>: \<open>barrier.c\<close>, \<open>reader-writer.c\<close>,
  \<open>rendezvous.c\<close> and \<open>fork-join.c\<close>. A semaphore is its value; \<open>sem_wait\<close> is a step
  that is possible only when the value is positive. Threads that run the same code are
  interchangeable, so for the barrier and the read-write lock the state holds, for each
  point of the code, the number of threads that are there.
\<close>

section \<open>barrier.c\<close>

text \<open>
  The program points of \<open>child\<close> and \<open>barrier\<close>: before its first message, before
  \<open>Sem_wait(&b->lock)\<close>, with the lock before \<open>count++\<close>, before \<open>Sem_post(&b->barrier)\<close>
  inside the \<open>if\<close>, before \<open>Sem_post(&b->lock)\<close>, before \<open>Sem_wait(&b->barrier)\<close>, before
  the \<open>Sem_post\<close> that lets the next thread pass, and after the call.
\<close>

record barrier_sys =
  b_count :: nat
  num_threads :: nat
  b_lock :: nat
  b_barrier :: nat
  at_start :: nat
  at_lock :: nat
  at_count :: nat
  at_open :: nat
  at_unlock :: nat
  at_wait :: nat
  at_pass :: nat
  after_barrier :: nat

definition barrier_init :: "nat \<Rightarrow> barrier_sys" where
  "barrier_init n = \<lparr>b_count = 0, num_threads = n, b_lock = 1, b_barrier = 0, at_start = n, at_lock = 0,
     at_count = 0, at_open = 0, at_unlock = 0, at_wait = 0, at_pass = 0, after_barrier = 0\<rparr>"

inductive barrier_step :: "barrier_sys \<Rightarrow> barrier_sys \<Rightarrow> bool" where
  says_before:
    "at_start s = Suc k \<Longrightarrow> barrier_step s (s\<lparr>at_start := k, at_lock := at_lock s + 1\<rparr>)"
| takes_lock:
    "at_lock s = Suc k \<Longrightarrow> b_lock s = Suc v \<Longrightarrow>
     barrier_step s (s\<lparr>b_lock := v, at_lock := k, at_count := at_count s + 1\<rparr>)"
| counts_last:
    "at_count s = Suc k \<Longrightarrow> b_count s + 1 = num_threads s \<Longrightarrow>
     barrier_step s (s\<lparr>b_count := b_count s + 1, at_count := k, at_open := at_open s + 1\<rparr>)"
| counts:
    "at_count s = Suc k \<Longrightarrow> b_count s + 1 \<noteq> num_threads s \<Longrightarrow>
     barrier_step s (s\<lparr>b_count := b_count s + 1, at_count := k, at_unlock := at_unlock s + 1\<rparr>)"
| opens:
    "at_open s = Suc k \<Longrightarrow>
     barrier_step s (s\<lparr>b_barrier := b_barrier s + 1, at_open := k, at_unlock := at_unlock s + 1\<rparr>)"
| unlocks:
    "at_unlock s = Suc k \<Longrightarrow>
     barrier_step s (s\<lparr>b_lock := b_lock s + 1, at_unlock := k, at_wait := at_wait s + 1\<rparr>)"
| enters:
    "at_wait s = Suc k \<Longrightarrow> b_barrier s = Suc v \<Longrightarrow>
     barrier_step s (s\<lparr>b_barrier := v, at_wait := k, at_pass := at_pass s + 1\<rparr>)"
| passes:
    "at_pass s = Suc k \<Longrightarrow>
     barrier_step s (s\<lparr>b_barrier := b_barrier s + 1, at_pass := k, after_barrier := after_barrier s + 1\<rparr>)"

definition barrier_inv :: "nat \<Rightarrow> barrier_sys \<Rightarrow> bool" where
  "barrier_inv n s \<longleftrightarrow> num_threads s = n
     \<and> b_lock s + at_count s + at_open s + at_unlock s = 1
     \<and> b_count s = at_open s + at_unlock s + at_wait s + at_pass s + after_barrier s
     \<and> n = at_start s + at_lock s + at_count s + b_count s
     \<and> b_barrier s + at_pass s + at_open s = (if b_count s = n then 1 else 0)
     \<and> (0 < after_barrier s \<longrightarrow> b_count s = n)"

lemma barrier_step_inv: "barrier_step s t \<Longrightarrow> barrier_inv n s \<Longrightarrow> barrier_inv n t"
  by (induction rule: barrier_step.induct) (simp_all add: barrier_inv_def split: if_splits, linarith+)

lemma barrier_inv_safe:
  assumes "barrier_inv n s"
  shows "b_count s \<le> n"
    and "0 < at_pass s + after_barrier s \<Longrightarrow> at_start s = 0 \<and> at_lock s = 0 \<and> at_count s = 0"
  using assms by (cases "b_count s = n"; simp add: barrier_inv_def)+

lemma barrier_init_inv: "0 < n \<Longrightarrow> barrier_inv n (barrier_init n)"
  by (simp add: barrier_inv_def barrier_init_def)

lemma barrier_reach_inv: "barrier_step\<^sup>*\<^sup>* (barrier_init n) s \<Longrightarrow> 0 < n \<Longrightarrow> barrier_inv n s"
  by (induction rule: rtranclp_induct) (auto intro: barrier_init_inv barrier_step_inv)

definition barrier_left :: "barrier_sys \<Rightarrow> nat" where
  "barrier_left s = 7 * at_start s + 6 * at_lock s + 5 * at_count s + 4 * at_open s
     + 3 * at_unlock s + 2 * at_wait s + at_pass s"

lemma barrier_step_decreases: "barrier_step s t \<Longrightarrow> barrier_left t < barrier_left s"
  by (induction rule: barrier_step.induct) (simp_all add: barrier_left_def)

lemma barrier_can_step:
  assumes inv: "barrier_inv n s" and left: "after_barrier s \<noteq> n"
  shows "\<exists>t. barrier_step s t"
proof (rule ccontr)
  assume stuck: "\<nexists>t. barrier_step s t"
  have z: "at_start s = 0" "at_count s = 0" "at_open s = 0" "at_unlock s = 0" "at_pass s = 0"
    using stuck by (metis not0_implies_Suc barrier_step.intros)+
  have l: "at_lock s = 0 \<or> b_lock s = 0" and w: "at_wait s = 0 \<or> b_barrier s = 0"
    using stuck by (metis not0_implies_Suc takes_lock, metis not0_implies_Suc enters)
  show False
    using inv left z l w by (auto simp: barrier_inv_def split: if_splits)
qed

text \<open>
  C10. The barrier of \<open>barrier.c\<close> with at least one thread: in every interleaving, once any
  thread has got past it, every thread has printed its first message and has arrived at
  the barrier; the counter never exceeds the number of threads; and from every reachable
  state all threads can still get past it, each run having at most \<open>7 * n\<close> steps.
\<close>

theorem barrier_correct:
  assumes n: "0 < n" and run: "(barrier_step ^^ k) (barrier_init n) s"
  shows "(0 < at_pass s + after_barrier s \<longrightarrow> at_start s = 0 \<and> at_lock s = 0 \<and> at_count s = 0)
    \<and> b_count s \<le> n \<and> k \<le> 7 * n
    \<and> (\<exists>t. barrier_step\<^sup>*\<^sup>* s t \<and> after_barrier t = n)"
proof -
  have inv: "barrier_inv n s"
    using run n by (auto intro: barrier_reach_inv dest: relpowp_imp_rtranclp)
  have "k + barrier_left s \<le> barrier_left (barrier_init n)"
    using run by (rule steps_bounded) (rule barrier_step_decreases)
  then have "k \<le> 7 * n" by (simp add: barrier_left_def barrier_init_def)
  moreover have "\<exists>t. barrier_step\<^sup>*\<^sup>* s t \<and> barrier_inv n t \<and> after_barrier t = n"
    using inv
  proof (rule reach_goal [where f = barrier_left, rotated 2])
    fix u assume "barrier_inv n u" "after_barrier u \<noteq> n"
    then show "\<exists>t. barrier_step u t \<and> barrier_left t < barrier_left u"
      by (blast dest: barrier_can_step barrier_step_decreases)
  qed (rule barrier_step_inv)
  ultimately show ?thesis using barrier_inv_safe [OF inv] by blast
qed

theorem barrier_correct_witness:
  "0 < (2::nat) \<and> (barrier_step ^^ 1) (barrier_init 2) (barrier_init 2\<lparr>at_start := 1, at_lock := 1\<rparr>)
   \<and> (\<exists>t. barrier_step\<^sup>*\<^sup>* (barrier_init 2\<lparr>at_start := 1, at_lock := 1\<rparr>) t \<and> after_barrier t = 2)"
proof -
  have "barrier_step (barrier_init 2) (barrier_init 2\<lparr>at_start := 1, at_lock := 1\<rparr>)"
    using says_before [of "barrier_init 2" 1] by (simp add: barrier_init_def)
  then have run: "(barrier_step ^^ 1) (barrier_init 2) (barrier_init 2\<lparr>at_start := 1, at_lock := 1\<rparr>)"
    by (simp add: eq_OO)
  with barrier_correct [OF _ run] show ?thesis by simp
qed

section \<open>reader-writer.c\<close>

text \<open>
  The points of \<open>rwlock_acquire_readlock\<close> (\<open>r_\<close>), of \<open>rwlock_release_readlock\<close> (\<open>q_\<close>) and
  of the writer's calls (\<open>w_\<close>). \<open>r_count\<close> and \<open>q_count\<close> hold \<open>lock\<close> just before the counter
  changes, \<open>r_gate\<close> and \<open>q_gate\<close> are inside the \<open>if\<close>, \<open>r_unlock\<close> and \<open>q_unlock\<close> are
  before \<open>sem_post(&rw->lock)\<close>. Any number of \<open>reader\<close> and \<open>writer\<close> iterations may start at
  any time.
\<close>

record rwlock_sys =
  rw_lock :: nat
  write_lock :: nat
  num_readers :: nat
  r_lock :: nat
  r_count :: nat
  r_gate :: nat
  r_unlock :: nat
  reading :: nat
  q_lock :: nat
  q_count :: nat
  q_gate :: nat
  q_unlock :: nat
  w_wait :: nat
  writing :: nat
  w_release :: nat
  rw_value :: int

definition rwlock_init :: rwlock_sys where
  "rwlock_init = \<lparr>rw_lock = 1, write_lock = 1, num_readers = 0, r_lock = 0, r_count = 0, r_gate = 0,
     r_unlock = 0, reading = 0, q_lock = 0, q_count = 0, q_gate = 0, q_unlock = 0,
     w_wait = 0, writing = 0, w_release = 0, rw_value = 0\<rparr>"

inductive rwlock_acquire_readlock :: "rwlock_sys \<Rightarrow> rwlock_sys \<Rightarrow> bool" where
  ar_lock:
    "r_lock s = Suc k \<Longrightarrow> rw_lock s = Suc v \<Longrightarrow>
     rwlock_acquire_readlock s (s\<lparr>rw_lock := v, r_lock := k, r_count := r_count s + 1\<rparr>)"
| ar_first:
    "r_count s = Suc k \<Longrightarrow> num_readers s + 1 = 1 \<Longrightarrow>
     rwlock_acquire_readlock s (s\<lparr>num_readers := num_readers s + 1, r_count := k, r_gate := r_gate s + 1\<rparr>)"
| ar_other:
    "r_count s = Suc k \<Longrightarrow> num_readers s + 1 \<noteq> 1 \<Longrightarrow>
     rwlock_acquire_readlock s (s\<lparr>num_readers := num_readers s + 1, r_count := k, r_unlock := r_unlock s + 1\<rparr>)"
| ar_gate:
    "r_gate s = Suc k \<Longrightarrow> write_lock s = Suc v \<Longrightarrow>
     rwlock_acquire_readlock s (s\<lparr>write_lock := v, r_gate := k, r_unlock := r_unlock s + 1\<rparr>)"
| ar_unlock:
    "r_unlock s = Suc k \<Longrightarrow>
     rwlock_acquire_readlock s (s\<lparr>rw_lock := rw_lock s + 1, r_unlock := k, reading := reading s + 1\<rparr>)"

inductive rwlock_release_readlock :: "rwlock_sys \<Rightarrow> rwlock_sys \<Rightarrow> bool" where
  rr_lock:
    "q_lock s = Suc k \<Longrightarrow> rw_lock s = Suc v \<Longrightarrow>
     rwlock_release_readlock s (s\<lparr>rw_lock := v, q_lock := k, q_count := q_count s + 1\<rparr>)"
| rr_last:
    "q_count s = Suc k \<Longrightarrow> num_readers s - 1 = 0 \<Longrightarrow>
     rwlock_release_readlock s (s\<lparr>num_readers := num_readers s - 1, q_count := k, q_gate := q_gate s + 1\<rparr>)"
| rr_other:
    "q_count s = Suc k \<Longrightarrow> num_readers s - 1 \<noteq> 0 \<Longrightarrow>
     rwlock_release_readlock s (s\<lparr>num_readers := num_readers s - 1, q_count := k, q_unlock := q_unlock s + 1\<rparr>)"
| rr_gate:
    "q_gate s = Suc k \<Longrightarrow>
     rwlock_release_readlock s (s\<lparr>write_lock := write_lock s + 1, q_gate := k, q_unlock := q_unlock s + 1\<rparr>)"
| rr_unlock:
    "q_unlock s = Suc k \<Longrightarrow> rwlock_release_readlock s (s\<lparr>rw_lock := rw_lock s + 1, q_unlock := k\<rparr>)"

inductive rwlock_acquire_writelock :: "rwlock_sys \<Rightarrow> rwlock_sys \<Rightarrow> bool" where
  aw_wait:
    "w_wait s = Suc k \<Longrightarrow> write_lock s = Suc v \<Longrightarrow>
     rwlock_acquire_writelock s (s\<lparr>write_lock := v, w_wait := k, writing := writing s + 1\<rparr>)"

inductive rwlock_release_writelock :: "rwlock_sys \<Rightarrow> rwlock_sys \<Rightarrow> bool" where
  rw_post:
    "w_release s = Suc k \<Longrightarrow>
     rwlock_release_writelock s (s\<lparr>write_lock := write_lock s + 1, w_release := k\<rparr>)"

inductive rwlock_step :: "rwlock_sys \<Rightarrow> rwlock_sys \<Rightarrow> bool" where
  reader_starts: "rwlock_step s (s\<lparr>r_lock := r_lock s + 1\<rparr>)"
| reader_acquires: "rwlock_acquire_readlock s t \<Longrightarrow> rwlock_step s t"
| reader_reads: "reading s = Suc k \<Longrightarrow> rwlock_step s (s\<lparr>reading := k, q_lock := q_lock s + 1\<rparr>)"
| reader_releases: "rwlock_release_readlock s t \<Longrightarrow> rwlock_step s t"
| writer_starts: "rwlock_step s (s\<lparr>w_wait := w_wait s + 1\<rparr>)"
| writer_acquires: "rwlock_acquire_writelock s t \<Longrightarrow> rwlock_step s t"
| writer_writes:
    "writing s = Suc k \<Longrightarrow>
     rwlock_step s (s\<lparr>rw_value := rw_value s + 1, writing := k, w_release := w_release s + 1\<rparr>)"
| writer_releases: "rwlock_release_writelock s t \<Longrightarrow> rwlock_step s t"

lemmas rwlock_intros =
  rwlock_acquire_readlock.intros rwlock_release_readlock.intros
  rwlock_acquire_writelock.intros rwlock_release_writelock.intros rwlock_step.intros

definition rwlock_inv :: "rwlock_sys \<Rightarrow> bool" where
  "rwlock_inv s \<longleftrightarrow>
     rw_lock s + r_count s + r_gate s + r_unlock s + q_count s + q_gate s + q_unlock s = 1
     \<and> num_readers s = r_gate s + r_unlock s + reading s + q_lock s + q_count s
     \<and> write_lock s + writing s + w_release s + q_gate s
         + (if 0 < num_readers s \<and> r_gate s = 0 then 1 else 0) = 1
     \<and> (0 < r_gate s \<longrightarrow> num_readers s = 1) \<and> (0 < q_gate s \<longrightarrow> num_readers s = 0)"

lemma rwlock_acquire_inv: "rwlock_acquire_readlock s t \<Longrightarrow> rwlock_inv s \<Longrightarrow> rwlock_inv t"
  by (induction rule: rwlock_acquire_readlock.induct) (auto simp: rwlock_inv_def split: if_splits)

lemma rwlock_release_inv: "rwlock_release_readlock s t \<Longrightarrow> rwlock_inv s \<Longrightarrow> rwlock_inv t"
  by (induction rule: rwlock_release_readlock.induct) (auto simp: rwlock_inv_def split: if_splits)

lemma rwlock_step_inv: "rwlock_step s t \<Longrightarrow> rwlock_inv s \<Longrightarrow> rwlock_inv t"
proof (induction rule: rwlock_step.induct)
  case (writer_acquires s t)
  then show ?case by (auto elim!: rwlock_acquire_writelock.cases simp: rwlock_inv_def)
next
  case (writer_releases s t)
  then show ?case by (auto elim!: rwlock_release_writelock.cases simp: rwlock_inv_def)
next
  case (reader_acquires s t)
  then show ?case by (rule rwlock_acquire_inv)
next
  case (reader_releases s t)
  then show ?case by (rule rwlock_release_inv)
qed (auto simp: rwlock_inv_def split: if_splits)

lemma rwlock_reach_inv: "rwlock_step\<^sup>*\<^sup>* rwlock_init s \<Longrightarrow> rwlock_inv s"
proof (induction rule: rtranclp_induct)
  case base
  show ?case by (simp add: rwlock_inv_def rwlock_init_def)
qed (blast intro: rwlock_step_inv)

lemma rwlock_inv_safe:
  assumes "rwlock_inv s"
  shows "writing s + w_release s \<le> 1"
    and "0 < reading s \<Longrightarrow> writing s + w_release s = 0"
    and "rw_lock s = 1 \<Longrightarrow> num_readers s = reading s + q_lock s"
  using assms by (cases "r_gate s = 0"; simp add: rwlock_inv_def)+

definition rwlock_left :: "rwlock_sys \<Rightarrow> nat" where
  "rwlock_left s = 9 * r_lock s + 8 * r_count s + 7 * r_gate s + 6 * r_unlock s + 5 * reading s
     + 4 * q_lock s + 3 * q_count s + 2 * q_gate s + q_unlock s
     + 3 * w_wait s + 2 * writing s + w_release s"

lemma rwlock_calls_decrease:
  "rwlock_acquire_readlock s t \<Longrightarrow> rwlock_left t < rwlock_left s"
  "rwlock_release_readlock s t \<Longrightarrow> rwlock_left t < rwlock_left s"
  "rwlock_acquire_writelock s t \<Longrightarrow> rwlock_left t < rwlock_left s"
  "rwlock_release_writelock s t \<Longrightarrow> rwlock_left t < rwlock_left s"
  by (auto simp: rwlock_left_def elim!: rwlock_acquire_readlock.cases rwlock_release_readlock.cases
      rwlock_acquire_writelock.cases rwlock_release_writelock.cases)

text \<open>With an unfinished call, some call can move on: no reader and no writer blocks for ever.\<close>

lemma rwlock_can_step:
  assumes inv: "rwlock_inv s" and left: "rwlock_left s \<noteq> 0"
  shows "\<exists>t. rwlock_step s t \<and> rwlock_left t < rwlock_left s"
proof (rule ccontr)
  assume "\<not> ?thesis"
  then have no: "\<not> rwlock_left t < rwlock_left s" if "rwlock_step s t" for t using that by blast
  have st: "rwlock_acquire_readlock s t \<Longrightarrow> False" "rwlock_release_readlock s t \<Longrightarrow> False"
    "rwlock_acquire_writelock s t \<Longrightarrow> False" "rwlock_release_writelock s t \<Longrightarrow> False" for t
    using no [OF reader_acquires] no [OF reader_releases] no [OF writer_acquires] no [OF writer_releases]
      rwlock_calls_decrease [of s t] by metis+
  have "reading s \<noteq> Suc k" for k
    using no [OF reader_reads [of s k]] by (auto simp: rwlock_left_def)
  moreover have "writing s \<noteq> Suc k" for k
    using no [OF writer_writes [of s k]] by (auto simp: rwlock_left_def)
  ultimately have a: "reading s = 0" "writing s = 0"
    by (metis not0_implies_Suc)+
  have z: "r_unlock s = 0" "q_gate s = 0" "q_unlock s = 0" "w_release s = 0"
    using st(1) [OF ar_unlock] st(2) [OF rr_gate] st(2) [OF rr_unlock] st(4) [OF rw_post]
    by (metis not0_implies_Suc)+
  have c: "r_count s = 0" "q_count s = 0"
    using st(1) [OF ar_first] st(1) [OF ar_other] st(2) [OF rr_last] st(2) [OF rr_other]
    by (metis not0_implies_Suc)+
  have w: "r_lock s = 0 \<or> rw_lock s = 0" "q_lock s = 0 \<or> rw_lock s = 0"
    "r_gate s = 0 \<or> write_lock s = 0" "w_wait s = 0 \<or> write_lock s = 0"
    using st(1) [OF ar_lock] st(2) [OF rr_lock] st(1) [OF ar_gate] st(3) [OF aw_wait]
    by (metis not0_implies_Suc)+
  show False
    using inv left a z c w by (auto simp: rwlock_inv_def rwlock_left_def split: if_splits)
qed

text \<open>
  C9. The read-write lock of \<open>reader-writer.c\<close>, used by any number of readers and
  writers that start at any time: in every interleaving at most one writer is between
  acquire and release, while any reader is reading there is none, \<open>num_readers\<close> counts
  the readers, and every call in progress can finish, so there is no deadlock.
\<close>

theorem rwlock_exclusion:
  assumes "rwlock_step\<^sup>*\<^sup>* rwlock_init s"
  shows "writing s + w_release s \<le> 1 \<and> (0 < reading s \<longrightarrow> writing s + w_release s = 0)
    \<and> (rw_lock s = 1 \<longrightarrow> num_readers s = reading s + q_lock s)
    \<and> (\<exists>t. rwlock_step\<^sup>*\<^sup>* s t \<and> rwlock_left t = 0)"
proof -
  have inv: "rwlock_inv s" using assms by (rule rwlock_reach_inv)
  have "\<exists>t. rwlock_step\<^sup>*\<^sup>* s t \<and> rwlock_inv t \<and> rwlock_left t = 0"
    using inv by (rule reach_goal [where f = rwlock_left, rotated 2, OF _ rwlock_can_step rwlock_step_inv])
  with rwlock_inv_safe [OF inv] show ?thesis by blast
qed

theorem rwlock_exclusion_witness:
  "rwlock_step\<^sup>*\<^sup>* rwlock_init (rwlock_init\<lparr>r_lock := 1, w_wait := 1\<rparr>)
   \<and> (\<exists>t. rwlock_step\<^sup>*\<^sup>* (rwlock_init\<lparr>r_lock := 1, w_wait := 1\<rparr>) t \<and> rwlock_left t = 0)"
proof -
  have "rwlock_step rwlock_init (rwlock_init\<lparr>r_lock := 1\<rparr>)"
    using reader_starts [of rwlock_init] by (simp add: rwlock_init_def)
  moreover have "rwlock_step (rwlock_init\<lparr>r_lock := 1\<rparr>) (rwlock_init\<lparr>r_lock := 1, w_wait := 1\<rparr>)"
    using writer_starts [of "rwlock_init\<lparr>r_lock := 1\<rparr>"] by (simp add: rwlock_init_def)
  ultimately have run: "rwlock_step\<^sup>*\<^sup>* rwlock_init (rwlock_init\<lparr>r_lock := 1, w_wait := 1\<rparr>)"
    by (meson converse_rtranclp_into_rtranclp rtranclp.rtrancl_refl)
  with rwlock_exclusion [OF run] show ?thesis by simp
qed

section \<open>rendezvous.c and fork-join.c\<close>

text \<open>
  The two small programs run straight-line threads. A state is what each thread has still
  to do, the semaphore values and the lines printed so far. \<open>sp_next\<close> computes all next
  states, and \<open>sp_explore\<close> follows every interleaving to its end.
\<close>

datatype sem_op = Print string | Wait nat | Post nat | Join nat

record sem_prog =
  sp_todo :: "sem_op list list"
  sp_sems :: "nat list"
  sp_out :: "string list"

fun sp_exec :: "sem_op \<Rightarrow> sem_prog \<Rightarrow> sem_prog option" where
  "sp_exec (Print l) s = Some (s\<lparr>sp_out := sp_out s @ [l]\<rparr>)"
| "sp_exec (Wait m) s = (if sp_sems s ! m = 0 then None else Some (s\<lparr>sp_sems := (sp_sems s)[m := sp_sems s ! m - 1]\<rparr>))"
| "sp_exec (Post m) s = Some (s\<lparr>sp_sems := (sp_sems s)[m := sp_sems s ! m + 1]\<rparr>)"
| "sp_exec (Join i) s = (if sp_todo s ! i = [] then Some s else None)"

definition sp_turn :: "sem_prog \<Rightarrow> nat \<Rightarrow> sem_prog list" where
  "sp_turn s i = (case sp_todo s ! i of [] \<Rightarrow> []
     | x # xs \<Rightarrow> (case sp_exec x s of None \<Rightarrow> [] | Some t \<Rightarrow> [t\<lparr>sp_todo := (sp_todo s)[i := xs]\<rparr>]))"

definition sp_next :: "sem_prog \<Rightarrow> sem_prog list" where
  "sp_next s = concat (map (sp_turn s) [0..<length (sp_todo s)])"

fun sp_explore :: "nat \<Rightarrow> sem_prog \<Rightarrow> sem_prog list" where
  "sp_explore 0 s = [s]"
| "sp_explore (Suc k) s = (if sp_next s = [] then [s] else concat (map (sp_explore k) (sp_next s)))"

definition sp_step :: "sem_prog \<Rightarrow> sem_prog \<Rightarrow> bool" where
  "sp_step s t \<longleftrightarrow> t \<in> set (sp_next s)"

definition sp_left :: "sem_prog \<Rightarrow> nat" where
  "sp_left s = sum_list (map length (sp_todo s))"

lemma sum_list_update_less:
  "i < length xs \<Longrightarrow> xs ! i = Suc k \<Longrightarrow> sum_list (xs[i := k]) < sum_list (xs :: nat list)"
  by (induction xs arbitrary: i) (auto split: nat.splits)

lemma sp_step_decreases: "sp_step s t \<Longrightarrow> sp_left t < sp_left s"
  by (auto simp: sp_step_def sp_next_def sp_turn_def sp_left_def map_update
      split: list.splits option.splits intro!: sum_list_update_less) (metis length_Cons)

lemma sp_explore_complete:
  assumes "sp_step\<^sup>*\<^sup>* s t" "sp_next t = []" "sp_left s \<le> k"
  shows "t \<in> set (sp_explore k s)"
  using assms
proof (induction arbitrary: k rule: converse_rtranclp_induct)
  case base
  then show ?case by (cases k) auto
next
  case (step u v)
  from sp_step_decreases [OF step.hyps(1)] step.prems obtain k' where k: "k = Suc k'" "sp_left v \<le> k'"
    by (cases k) auto
  with step.IH step.prems have "t \<in> set (sp_explore k' v)" by blast
  with step.hyps(1) k show ?case by (auto simp: sp_step_def)
qed

lemma sp_explore_sound: "sp_step\<^sup>*\<^sup>* s (hd (sp_explore k s))"
proof (induction k arbitrary: s)
  case (Suc k)
  have ne: "sp_explore j u \<noteq> []" for j u
    by (induction j arbitrary: u) (auto simp: neq_Nil_conv [of "sp_next _"])
  show ?case
  proof (cases "sp_next s")
    case (Cons t ts)
    then have "sp_step s t" by (simp add: sp_step_def)
    moreover have "hd (sp_explore (Suc k) s) = hd (sp_explore k t)"
      using Cons ne [of k t] by simp
    ultimately show ?thesis using Suc [of t] by (metis converse_rtranclp_into_rtranclp)
  qed simp
qed simp

definition rendezvous_child_1 :: "sem_op list" where
  "rendezvous_child_1 = [Print ''child 1: before'', Wait 1, Post 0, Print ''child 1: after'']"

definition rendezvous_child_2 :: "sem_op list" where
  "rendezvous_child_2 = [Print ''child 2: before'', Post 1, Wait 0, Print ''child 2: after'']"

definition rendezvous_main :: sem_prog where
  "rendezvous_main = \<lparr>sp_todo = [[Join 1, Join 2, Print ''parent: end''], rendezvous_child_1, rendezvous_child_2],
     sp_sems = [0, 0], sp_out = [''parent: begin'']\<rparr>"

definition fork_join_child :: "sem_op list" where
  "fork_join_child = [Print ''child'', Post 0]"

definition fork_join_main :: sem_prog where
  "fork_join_main = \<lparr>sp_todo = [[Wait 0, Print ''parent: end''], fork_join_child], sp_sems = [0],
     sp_out = [''parent: begin'']\<rparr>"

definition before_lines :: "string list list" where
  "before_lines = [[''child 1: before'', ''child 2: before''], [''child 2: before'', ''child 1: before'']]"

definition after_lines :: "string list list" where
  "after_lines = [[''child 1: after'', ''child 2: after''], [''child 2: after'', ''child 1: after'']]"

lemma rendezvous_runs:
  "list_all (\<lambda>t. sp_todo t = [[], [], []] \<and> sp_out t \<in> set
     [''parent: begin'' # bs @ as @ [''parent: end''].
       bs \<leftarrow> before_lines, as \<leftarrow> after_lines])
   (sp_explore 11 rendezvous_main)"
  by code_simp

lemma fork_join_runs:
  "list_all (\<lambda>t. sp_left t = 0 \<and> sp_out t = [''parent: begin'', ''child'', ''parent: end'']) (sp_explore 4 fork_join_main)"
  by code_simp

text \<open>
  C33. Every run of \<open>rendezvous.c\<close> that cannot go on has finished both children and the
  parent, and prints both \<open>before\<close> lines before either \<open>after\<close> line and the parent's last
  line after all of them; every run of \<open>fork-join.c\<close> prints \<open>child\<close> between the parent's
  two lines.
\<close>

theorem rendezvous_fork_join_order:
  "(sp_step\<^sup>*\<^sup>* rendezvous_main s \<and> sp_next s = [] \<longrightarrow> sp_todo s = [[], [], []] \<and>
     (\<exists>bs\<in>set before_lines. \<exists>as\<in>set after_lines. sp_out s = ''parent: begin'' # bs @ as @ [''parent: end'']))
   \<and> (sp_step\<^sup>*\<^sup>* fork_join_main t \<and> sp_next t = [] \<longrightarrow>
        sp_out t = [''parent: begin'', ''child'', ''parent: end''])"
proof (intro conjI [of "_ \<longrightarrow> _"] impI; elim conjE)
  assume "sp_step\<^sup>*\<^sup>* rendezvous_main s" "sp_next s = []"
  then have "s \<in> set (sp_explore 11 rendezvous_main)"
    by (rule sp_explore_complete) (simp add: rendezvous_main_def sp_left_def rendezvous_child_1_def rendezvous_child_2_def)
  with rendezvous_runs show "sp_todo s = [[], [], []] \<and>
     (\<exists>bs\<in>set before_lines. \<exists>as\<in>set after_lines. sp_out s = ''parent: begin'' # bs @ as @ [''parent: end''])"
    by (fastforce simp: list_all_iff)
next
  assume "sp_step\<^sup>*\<^sup>* fork_join_main t" "sp_next t = []"
  then have "t \<in> set (sp_explore 4 fork_join_main)"
    by (rule sp_explore_complete) (simp add: fork_join_main_def sp_left_def fork_join_child_def)
  with fork_join_runs show "sp_out t = [''parent: begin'', ''child'', ''parent: end'']"
    by (auto simp: list_all_iff)
qed

theorem rendezvous_fork_join_order_witness:
  "sp_step\<^sup>*\<^sup>* rendezvous_main (hd (sp_explore 11 rendezvous_main))
   \<and> sp_next (hd (sp_explore 11 rendezvous_main)) = []
   \<and> sp_todo (hd (sp_explore 11 rendezvous_main)) = [[], [], []]
   \<and> sp_step\<^sup>*\<^sup>* fork_join_main (hd (sp_explore 4 fork_join_main))
   \<and> sp_out (hd (sp_explore 4 fork_join_main)) = [''parent: begin'', ''child'', ''parent: end'']"
proof -
  have ends: "sp_next (hd (sp_explore 11 rendezvous_main)) = []" "sp_next (hd (sp_explore 4 fork_join_main)) = []"
    by code_simp+
  with rendezvous_fork_join_order [of "hd (sp_explore 11 rendezvous_main)" "hd (sp_explore 4 fork_join_main)"]
  show ?thesis by (simp add: sp_explore_sound)
qed

end
