(* ===== verification/Counters.thy ===== *)
theory Counters
  imports Prelude
begin

text \<open>
  The counters of \<open>29_LockedDataStructures\<close>: the interface \<open>counter.h\<close> as a locale, its
  two implementations \<open>simple_counter.c\<close> and \<open>approx_counter.c\<close>, and the threads of
  \<open>main.c\<close>. A call of \<open>counter_increment\<close> holds the lock of everything it touches
  (\<open>glock\<close>, or the thread's own \<open>llock\<close> and \<open>glock\<close> around the global value), so a run of
  the program is a sequence of whole calls: the list of the thread ids that make them.
\<close>

section \<open>The interface counter.h\<close>

text \<open>The program \<open>increase_counter\<close> runs: a schedule of calls by the threads.\<close>

primrec increments :: "('c \<Rightarrow> nat \<Rightarrow> 'c cres) \<Rightarrow> nat list \<Rightarrow> 'c \<Rightarrow> 'c cres" where
  "increments incr [] c = Inr c"
| "increments incr (t # ts) c = cbind (incr c t) (increments incr ts)"

text \<open>
  An implementation publishes a thread's increments in batches of \<open>batch\<close>; \<open>pending c t\<close>
  are the increments of thread \<open>t\<close> that \<open>counter_get\<close> does not see yet. Signed overflow of
  the value is undefined behaviour in C, which the bound on the value rules out.
\<close>

locale batched_counter =
  fixes ok :: "nat \<Rightarrow> 'c \<Rightarrow> bool"
    and increment :: "'c \<Rightarrow> nat \<Rightarrow> 'c cres"
    and get :: "'c \<Rightarrow> int"
    and pending :: "'c \<Rightarrow> nat \<Rightarrow> int"
    and batch :: int
  assumes batch_pos: "0 < batch"
    and pending_range: "ok n c \<Longrightarrow> t < n \<Longrightarrow> 0 \<le> pending c t \<and> pending c t < batch"
    and increment_ok: "ok n c \<Longrightarrow> t < n \<Longrightarrow> 0 \<le> get c \<Longrightarrow> get c + pending c t < INT_MAX \<Longrightarrow>
      \<exists>c'. increment c t = Inr c' \<and> ok n c'
        \<and> pending c' = (pending c)(t := (pending c t + 1) mod batch)
        \<and> get c' + pending c' t = get c + pending c t + 1"
begin

lemma increments_run:
  assumes "ok n c" "set ts \<subseteq> {..<n}" "0 \<le> get c"
    and "get c + (\<Sum>t<n. pending c t) + int (length ts) \<le> INT_MAX"
  shows "\<exists>c'. increments increment ts c = Inr c' \<and> ok n c'
    \<and> (\<forall>t<n. pending c' t = (pending c t + int (count_list ts t)) mod batch)
    \<and> get c' + (\<Sum>t<n. pending c' t) = get c + (\<Sum>t<n. pending c t) + int (length ts)"
  using assms
proof (induction ts arbitrary: c)
  case Nil
  then show ?case using pending_range by simp
next
  case (Cons t ts)
  have t: "t < n" using Cons.prems by simp
  have others: "pending c t \<le> (\<Sum>t<n. pending c t)"
    using t pending_range [OF Cons.prems(1)] by (intro member_le_sum) auto
  with Cons.prems t increment_ok [of n c t] obtain c' where c': "increment c t = Inr c'" "ok n c'"
    "pending c' = (pending c)(t := (pending c t + 1) mod batch)"
    "get c' + pending c' t = get c + pending c t + 1" by auto
  have split: "(\<Sum>t<n. pending d t) = pending d t + (\<Sum>u\<in>{..<n} - {t}. pending d u)" for d
    using t by (simp add: sum.remove)
  have total: "get c' + (\<Sum>t<n. pending c' t) = get c + (\<Sum>t<n. pending c t) + 1"
    using c'(4) by (simp add: split) (simp add: c'(3))
  have "pending c' t \<le> pending c t + 1"
    using c'(3) pending_range [OF Cons.prems(1) t] batch_pos by (simp add: zmod_le_nonneg_dividend)
  then have nonneg: "0 \<le> get c'" using c'(4) Cons.prems(3) by linarith
  from Cons.IH [OF c'(2) _ nonneg] Cons.prems total obtain d where d:
    "increments increment ts c' = Inr d" "ok n d"
    "\<forall>u<n. pending d u = (pending c' u + int (count_list ts u)) mod batch"
    "get d + (\<Sum>t<n. pending d t) = get c' + (\<Sum>t<n. pending c' t) + int (length ts)" by auto
  have "pending d u = (pending c u + int (count_list (t # ts) u)) mod batch" if "u < n" for u
    using that d(3) c'(3) by (auto simp: mod_simps algebra_simps)
  with c' d total show ?case by auto
qed

text \<open>From a fresh counter: the value is the sum of every thread's complete batches.\<close>

lemma increments_value:
  assumes "ok n c" "set ts \<subseteq> {..<n}" "get c = 0" "\<forall>t<n. pending c t = 0" "int (length ts) \<le> INT_MAX"
  shows "\<exists>c'. increments increment ts c = Inr c' \<and> ok n c'
    \<and> get c' = (\<Sum>t<n. batch * (int (count_list ts t) div batch))"
proof -
  from increments_run [of n c ts] assms obtain c' where c': "increments increment ts c = Inr c'" "ok n c'"
    "\<forall>t<n. pending c' t = int (count_list ts t) mod batch"
    "get c' + (\<Sum>t<n. pending c' t) = int (length ts)" by auto
  have "int (length ts) = (\<Sum>t<n. int (count_list ts t))"
    using assms(2) by (simp add: sum_count_set flip: of_nat_sum)
  also have "\<dots> = (\<Sum>t<n. batch * (int (count_list ts t) div batch)) + (\<Sum>t<n. pending c' t)"
    using c'(3) by (simp flip: sum.distrib)
  finally show ?thesis using c' by auto
qed

end

section \<open>simple_counter.c\<close>

record simple_counter =
  sc_value :: int

definition sc_counter_init :: "nat \<Rightarrow> simple_counter" where
  "sc_counter_init num_threads = \<lparr>sc_value = 0\<rparr>"

definition sc_counter_increment :: "simple_counter \<Rightarrow> nat \<Rightarrow> simple_counter cres" where
  "sc_counter_increment c thread_id = cbind (c_int (sc_value c + 1)) (\<lambda>v. Inr (c\<lparr>sc_value := v\<rparr>))"

definition sc_counter_get :: "simple_counter \<Rightarrow> int" where
  "sc_counter_get c = sc_value c"

interpretation sc: batched_counter "\<lambda>n c. True" sc_counter_increment sc_counter_get "\<lambda>c t. 0" 1
  by unfold_locales (auto simp: sc_counter_increment_def sc_counter_get_def int_range_def INT_MAX_def INT_MIN_def)

section \<open>approx_counter.c\<close>

text \<open>\<open>local_value\<close> comes from \<open>malloc\<close>: an element is \<open>None\<close> until it is written.\<close>

definition threshold :: int where
  "threshold = 10000"

record approx_counter =
  ac_value :: int
  ac_num_threads :: nat
  local_value :: "int option list"

definition ac_counter_init :: "nat \<Rightarrow> approx_counter" where
  "ac_counter_init num_threads =
     \<lparr>ac_value = 0, ac_num_threads = num_threads, local_value = replicate num_threads None\<rparr>"

definition local_get :: "approx_counter \<Rightarrow> nat \<Rightarrow> int cres" where
  "local_get c thread_id = cbind (arr_get (local_value c) thread_id)
     (\<lambda>v. case v of None \<Rightarrow> Inl Uninit_Read | Some x \<Rightarrow> Inr x)"

definition local_set :: "approx_counter \<Rightarrow> nat \<Rightarrow> int \<Rightarrow> approx_counter cres" where
  "local_set c thread_id x = cbind (arr_set (local_value c) thread_id (Some x))
     (\<lambda>lv. Inr (c\<lparr>local_value := lv\<rparr>))"

definition ac_counter_increment :: "approx_counter \<Rightarrow> nat \<Rightarrow> approx_counter cres" where
  "ac_counter_increment c thread_id =
     cbind (local_get c thread_id) (\<lambda>l.
     cbind (c_int (l + 1)) (\<lambda>l.
     cbind (local_set c thread_id l) (\<lambda>c.
     if threshold \<le> l
     then cbind (c_int (ac_value c + l)) (\<lambda>v. local_set (c\<lparr>ac_value := v\<rparr>) thread_id 0)
     else Inr c)))"

definition ac_counter_get :: "approx_counter \<Rightarrow> int" where
  "ac_counter_get c = ac_value c"

definition local_pending :: "approx_counter \<Rightarrow> nat \<Rightarrow> int" where
  "local_pending c t = (if t < length (local_value c) then case local_value c ! t of None \<Rightarrow> 0 | Some x \<Rightarrow> x else 0)"

definition approx_ok :: "nat \<Rightarrow> approx_counter \<Rightarrow> bool" where
  "approx_ok n c \<longleftrightarrow> length (local_value c) = n
     \<and> (\<forall>t<n. \<exists>x. local_value c ! t = Some x \<and> 0 \<le> x \<and> x < threshold)"

lemma ac_increment_ok:
  assumes ok: "approx_ok n c" and t: "t < n" and v: "0 \<le> ac_value c" "ac_value c + local_pending c t < INT_MAX"
  shows "\<exists>c'. ac_counter_increment c t = Inr c' \<and> approx_ok n c'
    \<and> local_pending c' = (local_pending c)(t := (local_pending c t + 1) mod threshold)
    \<and> ac_value c' + local_pending c' t = ac_value c + local_pending c t + 1"
proof -
  from ok t obtain x where x: "local_value c ! t = Some x" "0 \<le> x" "x < threshold"
    and len: "length (local_value c) = n" by (auto simp: approx_ok_def)
  have p: "local_pending c t = x" using x t len by (simp add: local_pending_def)
  have r: "int_range (x + 1)" "int_range (ac_value c + (x + 1))"
    using x v p by (simp_all add: int_range_def INT_MAX_def INT_MIN_def threshold_def)
  have m: "(x + 1) mod 10000 = (if 10000 \<le> x + 1 then 0 else x + 1)"
    using x by (cases "x + 1 = 10000") (simp_all add: threshold_def mod_pos_pos_trivial)
  show ?thesis
    using x t len r ok p v m
    by (auto simp: ac_counter_increment_def local_get_def local_set_def approx_ok_def local_pending_def
        nth_list_update fun_eq_iff threshold_def)
qed

interpretation ac: batched_counter approx_ok ac_counter_increment ac_counter_get local_pending threshold
proof
  show "approx_ok n c \<Longrightarrow> t < n \<Longrightarrow> 0 \<le> local_pending c t \<and> local_pending c t < threshold" for n c t
    by (auto simp: approx_ok_def local_pending_def)
qed (simp_all add: threshold_def [THEN arg_cong, of "\<lambda>x. 0 < x"] ac_counter_get_def ac_increment_ok)

section \<open>main.c\<close>

definition PER_THREAD_INCREMENT :: nat where
  "PER_THREAD_INCREMENT = 10000000"

text \<open>
  \<open>increase_counter\<close> makes \<open>PER_THREAD_INCREMENT\<close> calls with its thread's id, so \<open>main\<close> runs
  with \<open>num_cores\<close> threads are the schedules in which every id occurs that often.
\<close>

definition increase_counter :: "nat \<Rightarrow> nat list" where
  "increase_counter thread_id = replicate PER_THREAD_INCREMENT thread_id"

definition main_schedule :: "nat \<Rightarrow> nat list \<Rightarrow> bool" where
  "main_schedule num_cores ts \<longleftrightarrow> set ts \<subseteq> {..<num_cores}
     \<and> (\<forall>t<num_cores. filter ((=) t) ts = increase_counter t)"

lemma main_schedule_count: "main_schedule n ts \<Longrightarrow> t < n \<Longrightarrow> count_list ts t = PER_THREAD_INCREMENT"
  by (simp add: main_schedule_def increase_counter_def count_list_eq_length_filter)

lemma schedule_length: "set ts \<subseteq> {..<n::nat} \<Longrightarrow> length ts = (\<Sum>t<n. count_list ts t)"
  using sum_count_set [of ts "{..<n}"] by simp

lemma main_schedule_length: "main_schedule n ts \<Longrightarrow> length ts = n * PER_THREAD_INCREMENT"
  using schedule_length [of ts n] by (simp add: main_schedule_count main_schedule_def)

text \<open>The counter with the array of local values set to zero, as \<open>counter_init\<close> leaves out.\<close>

definition zeroed :: "approx_counter \<Rightarrow> approx_counter" where
  "zeroed c = c\<lparr>local_value := map (\<lambda>_. Some 0) (local_value c)\<rparr>"

lemma zeroed_init: "approx_ok n (zeroed (ac_counter_init n))" "ac_value (zeroed (ac_counter_init n)) = 0"
  "local_pending (zeroed (ac_counter_init n)) t = 0"
  by (auto simp: approx_ok_def zeroed_def ac_counter_init_def threshold_def local_pending_def)

lemma batches_close:
  assumes "set ts \<subseteq> {..<n}" "v = (\<Sum>t<n. threshold * (int (count_list ts t) div threshold))"
  shows "v \<le> int (length ts)" "int (length ts) \<le> v + int n * (threshold - 1)"
proof -
  have len: "int (length ts) = (\<Sum>t<n. int (count_list ts t))"
    using schedule_length [OF assms(1)] by simp
  show "v \<le> int (length ts)"
    unfolding assms(2) len by (intro sum_mono) (simp add: threshold_def)
  have "int (length ts) \<le> (\<Sum>t<n. threshold * (int (count_list ts t) div threshold) + (threshold - 1))"
    unfolding len by (intro sum_mono) (simp add: threshold_def)
  then show "int (length ts) \<le> v + int n * (threshold - 1)"
    by (simp add: assms(2) sum.distrib)
qed

text \<open>
  C22. For every schedule of the calls of \<open>n\<close> threads that stays within \<open>int\<close>: both counters
  finish without undefined behaviour; the simple counter reads the exact number of calls;
  the approximate one, once its local values are zero, reads the sum of each thread's
  complete batches of \<open>threshold\<close>, so it is never above the number of calls and never
  behind by more than \<open>threshold - 1\<close> a thread; and at the end of \<open>main\<close> it is exact.
\<close>

theorem counters_count_increments:
  assumes ts: "set ts \<subseteq> {..<n}" and len: "int (length ts) \<le> INT_MAX"
  shows "(\<exists>c. increments sc_counter_increment ts (sc_counter_init n) = Inr c \<and> sc_counter_get c = int (length ts))
    \<and> (\<exists>c. increments ac_counter_increment ts (zeroed (ac_counter_init n)) = Inr c
      \<and> ac_counter_get c = (\<Sum>t<n. threshold * (int (count_list ts t) div threshold))
      \<and> ac_counter_get c \<le> int (length ts) \<and> int (length ts) \<le> ac_counter_get c + int n * (threshold - 1)
      \<and> (main_schedule n ts \<longrightarrow> ac_counter_get c = int n * int PER_THREAD_INCREMENT))"
proof -
  have "\<exists>c. increments sc_counter_increment ts (sc_counter_init n) = Inr c \<and> sc_counter_get c = int (length ts)"
    using sc.increments_value [of ts n "sc_counter_init n"] ts len schedule_length [OF ts]
    by (auto simp: sc_counter_init_def sc_counter_get_def)
  moreover from ac.increments_value [OF zeroed_init(1) ts] zeroed_init len obtain c where c:
    "increments ac_counter_increment ts (zeroed (ac_counter_init n)) = Inr c"
    "ac_counter_get c = (\<Sum>t<n. threshold * (int (count_list ts t) div threshold))"
    by (auto simp: ac_counter_get_def)
  moreover have "ac_counter_get c = int n * int PER_THREAD_INCREMENT" if "main_schedule n ts"
    using that c(2) by (simp add: main_schedule_count threshold_def PER_THREAD_INCREMENT_def)
  ultimately show ?thesis
    using batches_close [OF ts c(2)] by blast
qed

theorem counters_count_increments_witness:
  "set [0, 1, 0::nat] \<subseteq> {..<2} \<and> int (length [0, 1, 0::nat]) \<le> INT_MAX
   \<and> (\<exists>c. increments sc_counter_increment [0, 1, 0] (sc_counter_init 2) = Inr c \<and> sc_counter_get c = 3)
   \<and> (\<exists>c. increments ac_counter_increment [0, 1, 0] (zeroed (ac_counter_init 2)) = Inr c \<and> ac_counter_get c \<le> 3)"
  using counters_count_increments [of "[0, 1, 0]" 2] by (auto simp: INT_MAX_def)

text \<open>
  \<open>counter_init\<close> of the approximate counter leaves the malloced local values
  unwritten, so the first increment by any thread reads an uninitialised value, and an
  increment with a thread id beyond \<open>num_threads\<close> is out of bounds; all \<open>main\<close> runs of the
  approximate counter with a thread start with such a read.
\<close>

theorem approx_init_uninitialised:
  "ac_counter_increment (ac_counter_init n) t = Inl (if t < n then Uninit_Read else Out_Of_Bounds)
   \<and> (main_schedule (Suc n) ts \<longrightarrow> increments ac_counter_increment ts (ac_counter_init (Suc n)) = Inl Uninit_Read)"
proof -
  have u: "ac_counter_increment (ac_counter_init n) t = Inl (if t < n then Uninit_Read else Out_Of_Bounds)" for n t
    by (simp add: ac_counter_increment_def local_get_def ac_counter_init_def)
  have "increments ac_counter_increment ts (ac_counter_init (Suc n)) = Inl Uninit_Read" if "main_schedule (Suc n) ts"
    using main_schedule_length [OF that] that
    by (cases ts) (auto simp: u main_schedule_def PER_THREAD_INCREMENT_def)
  with u show ?thesis by blast
qed

theorem approx_init_uninitialised_witness:
  "main_schedule (Suc 0) (increase_counter 0)
   \<and> increments ac_counter_increment (increase_counter 0) (ac_counter_init (Suc 0)) = Inl Uninit_Read"
proof -
  have "main_schedule (Suc 0) (increase_counter 0)"
    by (auto simp: main_schedule_def increase_counter_def)
  with approx_init_uninitialised [of 0 0 "increase_counter 0"] show ?thesis by simp
qed

end
