(* ===== verification/Registers.thy ===== *)
theory Registers
  imports Prelude
begin

unbundle bit_operations_syntax

text \<open>
  Register fields and command headers of the firmware exercises: the helpers that decode,
  validate and build 32-bit register values. A pointer argument that may be null is an
  option; a register that is written is returned with the return code.
\<close>

section \<open>control_reg_field_update.c\<close>

definition CTRL_MODE_MASK :: u32 where
  "CTRL_MODE_MASK = push_bit 4 0x7"

definition CTRL_MODE_SHIFT :: nat where
  "CTRL_MODE_SHIFT = 4"

definition CTRL_TIMEOUT_MASK :: u32 where
  "CTRL_TIMEOUT_MASK = push_bit 8 0xff"

text \<open>A shift by the width of the type or more is undefined in C.\<close>

definition shl32 :: "u32 \<Rightarrow> nat \<Rightarrow> u32 cres" where
  "shl32 x k = (if k < 32 then Inr (push_bit k x) else Inl Shift_Width)"

definition ctrl_set_mode :: "u32 \<Rightarrow> u32 \<Rightarrow> (int \<times> u32) cres" where
  "ctrl_set_mode reg mode =
     (if 7 < mode then Inr (-1, reg)
      else cbind (shl32 mode CTRL_MODE_SHIFT) (\<lambda>m. Inr (0, (reg AND NOT CTRL_MODE_MASK) OR m)))"

definition ctrl_set_timeout :: "u32 \<Rightarrow> u32 \<Rightarrow> (int \<times> u32) cres" where
  "ctrl_set_timeout reg timeout =
     (if 255 < timeout then Inr (-1, reg)
      else cbind (shl32 timeout (unat CTRL_TIMEOUT_MASK))
        (\<lambda>m. Inr (0, (reg AND NOT CTRL_TIMEOUT_MASK) OR m)))"

subsection \<open>Bit fields\<close>

text \<open>A value below \<open>2 ^ w\<close> has no bit from \<open>w\<close> on, and all-ones masks are \<open>mask\<close>s.\<close>

lemma small_bits:
  assumes "unat x < 2 ^ w" "bit (x :: 'a::len word) i"
  shows "i < w"
proof -
  have "take_bit w (unat x) = unat x" using assms(1) by (simp add: take_bit_nat_eq_self)
  moreover have "bit (unat x) i"
    using assms(2) by (simp add: bit_unsigned_iff bit_imp_le_length)
  ultimately have "bit (take_bit w (unat x)) i" by simp
  then show ?thesis by (simp add: bit_take_bit_iff)
qed

lemma ones_masks: "(0x7 :: u32) = mask 3" "(0xf :: u32) = mask 4" "(0xff :: u32) = mask 8" "(0xfff :: u32) = mask 12"
  by (simp_all add: mask_eq_exp_minus_1)

text \<open>A field that is shifted in and masked out again is the value it was built from.\<close>

lemma field_get_set:
  assumes "unat v < 2 ^ w" "k + w \<le> 32"
  shows "drop_bit k (((r AND NOT (push_bit k (mask w))) OR push_bit k v) AND push_bit k (mask w)) = (v :: u32)"
    and "((r AND NOT (push_bit k (mask w))) OR push_bit k v) AND NOT (push_bit k (mask w))
      = r AND NOT (push_bit k (mask w))"
  using assms small_bits [OF assms(1)]
  by (auto intro!: bit_word_eqI simp: bit_simps dest: bit_imp_le_length) fastforce

text \<open>
  \<open>ctrl_set_mode\<close> changes the mode field only; \<open>ctrl_set_timeout\<close> is undefined for every
  valid timeout, because it shifts by the field's mask and not by its position.
\<close>

lemma ctrl_set_mode_fields:
  assumes "mode \<le> 7"
  shows "\<exists>r. ctrl_set_mode reg mode = Inr (0, r)
    \<and> drop_bit CTRL_MODE_SHIFT (r AND CTRL_MODE_MASK) = mode
    \<and> r AND NOT CTRL_MODE_MASK = reg AND NOT CTRL_MODE_MASK"
proof -
  have "unat mode < 2 ^ 3" using assms by (simp add: word_le_nat_alt)
  from field_get_set [OF this, of 4 reg] assms show ?thesis
    by (simp add: ctrl_set_mode_def shl32_def CTRL_MODE_SHIFT_def CTRL_MODE_MASK_def ones_masks not_less)
qed

lemma ctrl_set_mode_error: "7 < mode \<Longrightarrow> ctrl_set_mode reg mode = Inr (-1, reg)"
  by (simp add: ctrl_set_mode_def)

lemma ctrl_set_timeout_undefined:
  "ctrl_set_timeout reg timeout = (if 255 < timeout then Inr (-1, reg) else Inl Shift_Width)"
  by (simp add: ctrl_set_timeout_def shl32_def CTRL_TIMEOUT_MASK_def)

section \<open>doorbell_command_register.c\<close>

definition DB_QUEUE_MASK :: u32 where
  "DB_QUEUE_MASK = push_bit 0 0xff"

definition DB_OPCODE_MASK :: u32 where
  "DB_OPCODE_MASK = push_bit 8 0xff"

definition DB_SEQ_MASK :: u32 where
  "DB_SEQ_MASK = push_bit 16 0xfff"

definition DB_VALID :: u32 where
  "DB_VALID = push_bit 31 1"

text \<open>The list holds the values written to the register, in order.\<close>

definition ring_doorbell :: "u32 \<Rightarrow> u32 \<Rightarrow> u32 \<Rightarrow> int \<times> u32 list" where
  "ring_doorbell queue_id opcode seq =
     (if drop_bit 0 DB_QUEUE_MASK < queue_id \<or> drop_bit 8 DB_OPCODE_MASK < opcode \<or> drop_bit 16 DB_SEQ_MASK < seq
      then (-1, [])
      else (0, [(push_bit 0 queue_id AND DB_QUEUE_MASK) OR (push_bit 8 opcode AND DB_OPCODE_MASK)
        OR (push_bit 16 seq AND DB_SEQ_MASK) OR DB_VALID]))"

lemma doorbell_masks:
  "DB_QUEUE_MASK = mask 8" "DB_OPCODE_MASK = push_bit 8 (mask 8)" "DB_SEQ_MASK = push_bit 16 (mask 12)"
  by (simp_all add: DB_QUEUE_MASK_def DB_OPCODE_MASK_def DB_SEQ_MASK_def mask_eq_exp_minus_1)

lemma doorbell_limits:
  "drop_bit 0 DB_QUEUE_MASK = 255" "drop_bit 8 DB_OPCODE_MASK = 255" "drop_bit 16 DB_SEQ_MASK = 4095"
  by (simp_all add: DB_QUEUE_MASK_def DB_OPCODE_MASK_def DB_SEQ_MASK_def)

lemma bit_DB_VALID: "bit DB_VALID n \<longleftrightarrow> n = 31"
  unfolding DB_VALID_def bit_push_bit_iff bit_1_iff by auto

lemma doorbell_bits:
  "bit ((push_bit 0 q AND DB_QUEUE_MASK) OR (push_bit 8 op AND DB_OPCODE_MASK)
      OR (push_bit 16 sq AND DB_SEQ_MASK) OR DB_VALID) n \<longleftrightarrow>
   (n < 8 \<and> bit q n) \<or> (8 \<le> n \<and> n < 16 \<and> bit op (n - 8))
   \<or> (16 \<le> n \<and> n < 28 \<and> bit sq (n - 16)) \<or> n = 31"
  by (auto simp: doorbell_masks bit_DB_VALID bit_simps dest: bit_imp_le_length)

lemma doorbell_decode:
  assumes "unat q < 2 ^ 8" "unat op < 2 ^ 8" "unat sq < 2 ^ 12"
    and v: "v = (push_bit 0 q AND DB_QUEUE_MASK) OR (push_bit 8 op AND DB_OPCODE_MASK)
      OR (push_bit 16 sq AND DB_SEQ_MASK) OR DB_VALID"
  shows "v AND DB_QUEUE_MASK = q" "drop_bit 8 (v AND DB_OPCODE_MASK) = op"
    "drop_bit 16 (v AND DB_SEQ_MASK) = sq" "v AND DB_VALID = DB_VALID"
    "v AND push_bit 28 (mask 3) = 0"
proof -
  note b = small_bits [OF assms(1)] small_bits [OF assms(2)] small_bits [OF assms(3)]
  note vb = doorbell_bits [of q op sq, folded v]
  show "v AND DB_QUEUE_MASK = q"
    by (rule bit_word_eqI) (auto simp: vb bit_and_iff doorbell_masks bit_mask_iff dest: b)
  show "drop_bit 8 (v AND DB_OPCODE_MASK) = op"
    by (rule bit_word_eqI) (auto simp: vb bit_and_iff bit_drop_bit_eq doorbell_masks bit_simps dest: b)
  show "drop_bit 16 (v AND DB_SEQ_MASK) = sq"
    by (rule bit_word_eqI) (auto simp: vb bit_and_iff bit_drop_bit_eq doorbell_masks bit_simps dest: b)
  show "v AND DB_VALID = DB_VALID" "v AND push_bit 28 (mask 3) = 0"
    by (rule bit_word_eqI; auto simp: vb bit_and_iff bit_DB_VALID bit_simps)+
qed

text \<open>
  C36. A doorbell whose fields fit in 8, 8 and 12 bits is written exactly once, with the
  valid bit, no reserved bit, and fields that decode to the queue, the opcode and the
  sequence number it was built from; any other doorbell is refused and nothing is written.
\<close>

theorem doorbell_roundtrip:
  "(if queue_id \<le> 255 \<and> opcode \<le> 255 \<and> seq \<le> 4095
    then \<exists>v. ring_doorbell queue_id opcode seq = (0, [v]) \<and> v AND DB_QUEUE_MASK = queue_id
       \<and> drop_bit 8 (v AND DB_OPCODE_MASK) = opcode \<and> drop_bit 16 (v AND DB_SEQ_MASK) = seq
       \<and> v AND DB_VALID = DB_VALID \<and> v AND push_bit 28 (mask 3) = 0
    else ring_doorbell queue_id opcode seq = (-1, []))"
proof (cases "queue_id \<le> 255 \<and> opcode \<le> 255 \<and> seq \<le> 4095")
  case True
  then have "unat queue_id < 2 ^ 8" "unat opcode < 2 ^ 8" "unat seq < 2 ^ 12"
    by (simp_all add: word_le_nat_alt)
  from doorbell_decode [OF this refl] True show ?thesis
    unfolding ring_doorbell_def doorbell_limits by (simp add: not_less)
next
  case False
  then show ?thesis unfolding ring_doorbell_def doorbell_limits by auto
qed

section \<open>register_offset_validation.c\<close>

definition valid_mmio_access :: "u32 \<Rightarrow> u32 \<Rightarrow> u32 \<Rightarrow> bool" where
  "valid_mmio_access offset width region_size =
     (if \<not> (width = 1 \<or> width = 2 \<or> width = 4 \<or> width = 8) then False
      else if offset AND (width - 1) \<noteq> 0 then False
      else if region_size < width then False
      else if region_size - width < offset then False
      else True)"

lemma aligned_iff:
  assumes "width \<in> {1, 2, 4, 8}"
  shows "offset AND (width - 1) = 0 \<longleftrightarrow> unat offset mod unat (width :: u32) = 0"
proof -
  from assms obtain k where k: "width = 2 ^ k" "k < 32" "unat width = 2 ^ k"
    by (elim insertE) (rule that [of 0] that [of 1] that [of 2] that [of 3]; simp)+
  have e: "offset AND (width - 1) = take_bit k offset"
    by (simp add: k(1) take_bit_eq_mask mask_eq_exp_minus_1)
  have "unat (take_bit k offset) = unat offset mod 2 ^ k"
    by (simp add: take_bit_eq_mod unat_mod k flip: k(1))
  then show ?thesis
    unfolding e k(3) using unat_eq_0 [of "take_bit k offset"] by simp
qed

text \<open>
  \<open>valid_mmio_access\<close> accepts exactly the accesses of 1, 2, 4 or 8 bytes that are
  aligned to their width and end inside the region, with the end computed without
  wrap-around.
\<close>

theorem valid_mmio_access_iff:
  "valid_mmio_access offset width region_size \<longleftrightarrow>
     width \<in> {1, 2, 4, 8} \<and> unat offset mod unat width = 0 \<and> unat offset + unat width \<le> unat region_size"
proof (cases "width \<in> {1, 2, 4, 8}")
  case True
  have fits: "\<not> region_size < width \<and> \<not> region_size - width < offset \<longleftrightarrow>
    unat offset + unat width \<le> unat region_size"
  proof (cases "width \<le> region_size")
    case True
    then show ?thesis using unat_sub [OF True] by (auto simp: word_less_nat_alt word_le_nat_alt)
  qed (auto simp: word_less_nat_alt word_le_nat_alt)
  have w: "width = 1 \<or> width = 2 \<or> width = 4 \<or> width = 8" using True by simp
  show ?thesis unfolding valid_mmio_access_def fits [symmetric] aligned_iff [OF True] using w True by meson
qed (auto simp: valid_mmio_access_def)

section \<open>firmware_command_validator.c\<close>

definition CMD_FLAG_ASYNC :: u32 where
  "CMD_FLAG_ASYNC = push_bit 0 1"

definition CMD_FLAG_PRIVILEGED :: u32 where
  "CMD_FLAG_PRIVILEGED = push_bit 1 1"

definition CMD_FLAG_RESERVED :: u32 where
  "CMD_FLAG_RESERVED = NOT (CMD_FLAG_ASYNC OR CMD_FLAG_PRIVILEGED)"

definition CMD_MAX_PAYLOAD :: nat where
  "CMD_MAX_PAYLOAD = 256"

datatype fw_state = FW_BOOTING | FW_READY | FW_ACTIVE | FW_RESETTING | FW_FAULTED

record fw_cmd_hdr =
  hdr_opcode :: u16
  hdr_length :: u16
  hdr_flags :: u32

abbreviation CMD_GET_STATUS :: u16 where
  "CMD_GET_STATUS \<equiv> 1"

abbreviation CMD_GET_CAPS :: u16 where
  "CMD_GET_CAPS \<equiv> 2"

abbreviation CMD_RESET :: u16 where
  "CMD_RESET \<equiv> 3"

abbreviation CMD_PEEK :: u16 where
  "CMD_PEEK \<equiv> 4"

definition validate_fw_cmd :: "fw_cmd_hdr option \<Rightarrow> fw_state \<Rightarrow> bool \<Rightarrow> int" where
  "validate_fw_cmd cmd state caller_is_privileged = (case cmd of None \<Rightarrow> -1 | Some c \<Rightarrow>
     if hdr_opcode c < 1 \<or> 5 < hdr_opcode c then -2
     else if CMD_MAX_PAYLOAD < unat (hdr_length c) then -3
     else if hdr_flags c AND CMD_FLAG_RESERVED \<noteq> 0 then -4
     else if hdr_flags c AND CMD_FLAG_PRIVILEGED \<noteq> 0 \<and> \<not> caller_is_privileged then -5
     else if hdr_opcode c = CMD_GET_STATUS then 0
     else if hdr_opcode c = CMD_GET_CAPS then (if state = FW_BOOTING then -6 else 0)
     else if hdr_opcode c = CMD_RESET then
       (if state \<noteq> FW_READY \<or> state \<noteq> FW_ACTIVE \<or> state \<noteq> FW_FAULTED then -6 else 0)
     else if hdr_opcode c = CMD_PEEK then (if state = FW_BOOTING \<or> \<not> caller_is_privileged then -6 else 0)
     else (if state \<noteq> FW_READY \<or> \<not> caller_is_privileged then -6 else 0))"

text \<open>The requirements: a well-formed header, and the states in which each command is allowed.\<close>

definition hdr_ok :: "fw_cmd_hdr \<Rightarrow> bool \<Rightarrow> bool" where
  "hdr_ok c priv \<longleftrightarrow> unat (hdr_opcode c) \<in> {1..5} \<and> unat (hdr_length c) \<le> CMD_MAX_PAYLOAD
     \<and> (\<forall>i. bit (hdr_flags c) i \<longrightarrow> i = 0 \<or> (i = 1 \<and> priv))"

definition cmd_allowed :: "u16 \<Rightarrow> fw_state \<Rightarrow> bool \<Rightarrow> bool" where
  "cmd_allowed op state priv \<longleftrightarrow> op = 1
     \<or> (op = 2 \<and> state \<noteq> FW_BOOTING)
     \<or> (op = 3 \<and> state \<in> {FW_READY, FW_ACTIVE, FW_FAULTED})
     \<or> (op = 4 \<and> priv \<and> state \<noteq> FW_BOOTING)
     \<or> (op = 5 \<and> priv \<and> state = FW_READY)"

lemma word_zero_bits: "(x :: 'a::len word) = 0 \<longleftrightarrow> (\<forall>i. \<not> bit x i)"
  by (auto intro: bit_word_eqI)

lemma flags_ok:
  "(hdr_flags c AND CMD_FLAG_RESERVED = 0 \<and> (hdr_flags c AND CMD_FLAG_PRIVILEGED \<noteq> 0 \<longrightarrow> priv)) \<longleftrightarrow>
   (\<forall>i. bit (hdr_flags c) i \<longrightarrow> i = 0 \<or> (i = 1 \<and> priv))"
proof -
  have a: "bit CMD_FLAG_ASYNC i \<longleftrightarrow> i = 0" and p: "bit CMD_FLAG_PRIVILEGED i \<longleftrightarrow> i = 1" for i
    unfolding CMD_FLAG_ASYNC_def CMD_FLAG_PRIVILEGED_def bit_push_bit_iff bit_1_iff by auto
  have "hdr_flags c AND CMD_FLAG_RESERVED = 0 \<longleftrightarrow> (\<forall>i. bit (hdr_flags c) i \<longrightarrow> i = 0 \<or> i = 1)"
    using bit_imp_le_length [of "hdr_flags c"]
    by (auto simp: word_zero_bits bit_and_iff CMD_FLAG_RESERVED_def bit_not_iff bit_or_iff a p)
  moreover have "hdr_flags c AND CMD_FLAG_PRIVILEGED \<noteq> 0 \<longleftrightarrow> bit (hdr_flags c) 1"
    by (auto simp: word_zero_bits bit_and_iff p)
  ultimately show ?thesis by auto
qed

text \<open>
  A command is accepted exactly when its header is well formed, the requirements allow
  it in the state for the caller, and it is not \<open>CMD_RESET\<close>. A reset, which the requirements
  allow in three states, is answered \<open>-6\<close> in every state: its guard joins the
  inequalities with \<open>||\<close>.
\<close>

theorem validate_fw_cmd_accepts:
  "(validate_fw_cmd (Some c) state priv = 0 \<longleftrightarrow>
     hdr_ok c priv \<and> hdr_opcode c \<noteq> 3 \<and> cmd_allowed (hdr_opcode c) state priv)
   \<and> (hdr_ok c priv \<and> hdr_opcode c = 3 \<longrightarrow> validate_fw_cmd (Some c) state priv = -6)
   \<and> validate_fw_cmd None state priv = -1"
proof -
  have range: "hdr_opcode c < 1 \<or> 5 < hdr_opcode c \<longleftrightarrow> unat (hdr_opcode c) \<notin> {1..5}"
    by (auto simp: word_less_nat_alt)
  have ok: "hdr_ok c priv \<longleftrightarrow> \<not> (hdr_opcode c < 1 \<or> 5 < hdr_opcode c)
    \<and> \<not> CMD_MAX_PAYLOAD < unat (hdr_length c) \<and> \<not> hdr_flags c AND CMD_FLAG_RESERVED \<noteq> 0
    \<and> \<not> (hdr_flags c AND CMD_FLAG_PRIVILEGED \<noteq> 0 \<and> \<not> priv)"
    unfolding hdr_ok_def range flags_ok [symmetric] by auto
  have op: "hdr_opcode c \<in> {1, 2, 3, 4, 5}" if "\<not> (hdr_opcode c < 1 \<or> 5 < hdr_opcode c)"
  proof -
    have "unat (hdr_opcode c) \<in> {1..5}" using that range by blast
    then have "unat (hdr_opcode c) \<in> {1, 2, 3, 4, 5}" by auto
    then show ?thesis by (auto simp: word_unat_eq_iff)
  qed
  show ?thesis
  proof (cases "hdr_ok c priv")
    case True
    with ok op have "hdr_opcode c \<in> {1, 2, 3, 4, 5}" by blast
    with True show ?thesis
      unfolding ok by (elim insertE) (auto simp: validate_fw_cmd_def cmd_allowed_def)
  next
    case False
    then show ?thesis by (auto simp: ok validate_fw_cmd_def)
  qed
qed

theorem validate_fw_cmd_accepts_witness:
  "hdr_ok \<lparr>hdr_opcode = 3, hdr_length = 0, hdr_flags = 0\<rparr> False
   \<and> validate_fw_cmd (Some \<lparr>hdr_opcode = 3, hdr_length = 0, hdr_flags = 0\<rparr>) FW_READY False = -6"
proof -
  have "hdr_ok \<lparr>hdr_opcode = 3, hdr_length = 0, hdr_flags = 0\<rparr> False" by (simp add: hdr_ok_def)
  with validate_fw_cmd_accepts [of "\<lparr>hdr_opcode = 3, hdr_length = 0, hdr_flags = 0\<rparr>" FW_READY False]
  show ?thesis by simp
qed

section \<open>safe_ioctl_validator.c and bounded_copy_into_fw_buffer.c\<close>

text \<open>
  \<open>CMD_RESERVED_MASK\<close> and \<open>CMD_OPCODE_MAX\<close> are not defined in the sources: they are
  parameters of the check.
\<close>

definition CMD_VERSION :: u16 where
  "CMD_VERSION = 1"

record user_cmd =
  u_version :: u16
  u_opcode :: u16
  u_flags :: u32
  payload_len :: u32
  user_ptr :: u64

definition validate_user_cmd :: "u32 \<Rightarrow> u16 \<Rightarrow> user_cmd option \<Rightarrow> int" where
  "validate_user_cmd reserved_mask opcode_max cmd = (case cmd of None \<Rightarrow> -1 | Some c \<Rightarrow>
     if u_version c \<noteq> CMD_VERSION then -2
     else if u_flags c AND reserved_mask \<noteq> 0 then -2
     else if opcode_max < u_opcode c then -2
     else if 256 < payload_len c then -2
     else 0)"

lemma validate_user_cmd_accepts:
  "validate_user_cmd rm om cmd = 0 \<longleftrightarrow> (\<exists>c. cmd = Some c \<and> u_version c = CMD_VERSION
     \<and> (\<forall>i. bit rm i \<longrightarrow> \<not> bit (u_flags c) i) \<and> u_opcode c \<le> om \<and> unat (payload_len c) \<le> CMD_MAX_PAYLOAD)"
  by (auto simp: validate_user_cmd_def word_zero_bits bit_and_iff word_less_nat_alt word_le_nat_alt CMD_MAX_PAYLOAD_def
      split: option.splits)

record fw_cmd =
  cmd_opcode :: u16
  cmd_length :: u16
  cmd_payload :: "u8 list"

text \<open>The copy loop of \<open>fw_cmd_set_payload\<close>; \<open>src\<close> is the readable memory behind the pointer.\<close>

function copy_payload :: "u8 list \<Rightarrow> u8 list \<Rightarrow> nat \<Rightarrow> nat \<Rightarrow> u8 list cres" where
  "copy_payload payload src i len =
     (if i < len then cbind (arr_get src i) (\<lambda>b. cbind (arr_set payload i b) (\<lambda>p. copy_payload p src (Suc i) len))
      else Inr payload)"
  by pat_completeness auto
termination by (relation "measure (\<lambda>(p, s, i, len). len - i)") auto

declare copy_payload.simps [simp del]

definition fw_cmd_set_payload :: "fw_cmd option \<Rightarrow> u8 list option \<Rightarrow> u64 \<Rightarrow> (int \<times> fw_cmd option) cres" where
  "fw_cmd_set_payload cmd src len = (case cmd of None \<Rightarrow> Inr (-1, cmd) | Some c \<Rightarrow>
     if src = None \<and> 0 < len then Inr (-2, cmd)
     else if unat len > CMD_MAX_PAYLOAD then Inr (-3, cmd)
     else cbind (copy_payload (cmd_payload c) (case src of None \<Rightarrow> [] | Some s \<Rightarrow> s) 0 (unat len))
       (\<lambda>p. Inr (0, Some (c\<lparr>cmd_payload := p, cmd_length := ucast len\<rparr>))))"

lemma copy_payload_ok:
  assumes "i \<le> len" "len \<le> length src" "len \<le> length payload"
  shows "copy_payload payload src i len = Inr (take i payload @ take (len - i) (drop i src) @ drop len payload)"
  using assms
proof (induction payload src i len rule: copy_payload.induct)
  case (1 payload src i len)
  show ?case
  proof (cases "i < len")
    case True
    have "take (Suc i) (payload[i := src ! i]) = take i payload @ [src ! i]"
      using True 1 by (simp add: take_Suc_conv_app_nth)
    moreover have "take (len - i) (drop i src) = src ! i # take (len - Suc i) (drop (Suc i) src)"
      using True 1 by (simp add: Cons_nth_drop_Suc [symmetric] take_Cons')
    ultimately show ?thesis
      using True 1 by (subst copy_payload.simps) simp
  next
    case False
    with 1 show ?thesis by (subst copy_payload.simps) simp
  qed
qed

lemma fw_cmd_set_payload_copies:
  assumes "length (cmd_payload c) = CMD_MAX_PAYLOAD" "unat len \<le> CMD_MAX_PAYLOAD" "unat len \<le> length src"
  shows "\<exists>c'. fw_cmd_set_payload (Some c) (Some src) len = Inr (0, Some c')
    \<and> unat (cmd_length c') = unat len \<and> cmd_payload c' = take (unat len) src @ drop (unat len) (cmd_payload c)
    \<and> cmd_opcode c' = cmd_opcode c"
proof -
  have "unat (ucast len :: u16) = unat len"
    using assms(2) by (simp add: unsigned_ucast_eq unsigned_take_bit_eq take_bit_nat_eq_self CMD_MAX_PAYLOAD_def)
  then show ?thesis
    using assms by (simp add: fw_cmd_set_payload_def copy_payload_ok)
qed

lemma fw_cmd_set_payload_errors:
  "fw_cmd_set_payload None src len = Inr (-1, None)"
  "0 < len \<Longrightarrow> fw_cmd_set_payload (Some c) None len = Inr (-2, Some c)"
  "CMD_MAX_PAYLOAD < unat len \<Longrightarrow> fw_cmd_set_payload (Some c) (Some s) len = Inr (-3, Some c)"
  by (simp_all add: fw_cmd_set_payload_def)

section \<open>status_reg_parse_and_w1c.c\<close>

definition STAT_READY :: u32 where
  "STAT_READY = push_bit 0 1"

definition STAT_BUSY :: u32 where
  "STAT_BUSY = push_bit 1 1"

definition STAT_DONE :: u32 where
  "STAT_DONE = push_bit 2 1"

definition STAT_ERROR :: u32 where
  "STAT_ERROR = push_bit 3 1"

definition STAT_TIMEOUT :: u32 where
  "STAT_TIMEOUT = push_bit 4 1"

definition STAT_STATE_MASK :: u32 where
  "STAT_STATE_MASK = push_bit 8 0xf"

definition status_ready :: "u32 \<Rightarrow> bool" where
  "status_ready status \<longleftrightarrow> status AND STAT_READY \<noteq> 0"

definition status_busy :: "u32 \<Rightarrow> bool" where
  "status_busy status \<longleftrightarrow> status AND STAT_BUSY \<noteq> 0"

definition status_state :: "u32 \<Rightarrow> u32" where
  "status_state status = drop_bit 8 (status AND STAT_STATE_MASK)"

text \<open>The value written to the register.\<close>

definition clear_done_error_timeout :: u32 where
  "clear_done_error_timeout = STAT_DONE OR STAT_ERROR OR STAT_TIMEOUT"

text \<open>
  The documented register: a write clears the write-one-to-clear bits that are one in the
  value and leaves the others; read-only bits ignore it.
\<close>

definition w1c_write :: "u32 \<Rightarrow> u32 \<Rightarrow> u32 \<Rightarrow> u32" where
  "w1c_write w1c reg v = reg AND NOT (v AND w1c)"

lemma one_bit_test: "k < 32 \<Longrightarrow> (x :: u32) AND push_bit k 1 \<noteq> 0 \<longleftrightarrow> bit x k"
  unfolding word_zero_bits bit_and_iff bit_push_bit_iff bit_1_iff by auto

lemma status_bits:
  "status_ready s \<longleftrightarrow> bit s 0" "status_busy s \<longleftrightarrow> bit s 1" "status_state s = take_bit 4 (drop_bit 8 s)"
proof -
  show "status_ready s \<longleftrightarrow> bit s 0" "status_busy s \<longleftrightarrow> bit s 1"
    unfolding status_ready_def status_busy_def STAT_READY_def STAT_BUSY_def by (simp_all only: one_bit_test)
  show "status_state s = take_bit 4 (drop_bit 8 s)"
    unfolding status_state_def STAT_STATE_MASK_def ones_masks by (rule bit_word_eqI) (auto simp: bit_simps)
qed

lemma bit_clear: "bit clear_done_error_timeout i \<longleftrightarrow> i \<in> {2, 3, 4}"
  unfolding clear_done_error_timeout_def STAT_DONE_def STAT_ERROR_def STAT_TIMEOUT_def
    bit_or_iff bit_push_bit_iff bit_1_iff by auto

lemma clear_keeps_the_rest:
  "w1c_write (STAT_DONE OR STAT_ERROR OR STAT_TIMEOUT) reg clear_done_error_timeout
   = reg AND NOT (STAT_DONE OR STAT_ERROR OR STAT_TIMEOUT)"
  "status_ready (w1c_write m reg clear_done_error_timeout) = status_ready reg"
  "status_busy (w1c_write m reg clear_done_error_timeout) = status_busy reg"
  "status_state (w1c_write m reg clear_done_error_timeout) = status_state reg"
proof -
  show "w1c_write (STAT_DONE OR STAT_ERROR OR STAT_TIMEOUT) reg clear_done_error_timeout
   = reg AND NOT (STAT_DONE OR STAT_ERROR OR STAT_TIMEOUT)"
    by (simp add: w1c_write_def clear_done_error_timeout_def)
  show "status_ready (w1c_write m reg clear_done_error_timeout) = status_ready reg"
    "status_busy (w1c_write m reg clear_done_error_timeout) = status_busy reg"
    by (auto simp: status_bits w1c_write_def bit_and_iff bit_or_iff bit_not_iff bit_clear)
  show "status_state (w1c_write m reg clear_done_error_timeout) = status_state reg"
    unfolding status_bits w1c_write_def
    by (rule bit_word_eqI) (auto simp: bit_take_bit_iff bit_drop_bit_eq bit_and_iff bit_or_iff bit_not_iff bit_clear
        dest: bit_imp_le_length)
qed

section \<open>capability_register_parser.c\<close>

definition CAP_RTOS :: u32 where
  "CAP_RTOS = push_bit 0 1"

definition CAP_SECURE_BOOT :: u32 where
  "CAP_SECURE_BOOT = push_bit 1 1"

definition CAP_P2P :: u32 where
  "CAP_P2P = push_bit 2 1"

definition CAP_HBM :: u32 where
  "CAP_HBM = push_bit 3 1"

definition CAP_GEN_MASK :: u32 where
  "CAP_GEN_MASK = push_bit 8 0xf"

definition CAP_LINKS_MASK :: u32 where
  "CAP_LINKS_MASK = push_bit 16 0xff"

definition DRIVER_SUPPORTED_CAPS :: u32 where
  "DRIVER_SUPPORTED_CAPS = CAP_RTOS OR CAP_SECURE_BOOT OR CAP_P2P OR CAP_HBM OR CAP_GEN_MASK OR CAP_LINKS_MASK"

record fw_caps =
  has_rtos :: bool
  has_secure_boot :: bool
  has_p2p :: bool
  has_hbm :: bool
  generation :: u32
  num_links :: u32
  reserved_bits_detected :: bool

text \<open>
  The statement of the first \<open>if\<close> reads \<open>reserved_bits_detected\<close> and discards it: both
  branches leave the zero-initialised structure.
\<close>

definition parse_fw_caps :: "u32 \<Rightarrow> fw_caps" where
  "parse_fw_caps cap_reg =
     (let fwc = \<lparr>has_rtos = False, has_secure_boot = False, has_p2p = False, has_hbm = False,
        generation = 0, num_links = 0, reserved_bits_detected = False\<rparr>;
        fwc = (if cap_reg AND NOT DRIVER_SUPPORTED_CAPS \<noteq> 0 then fwc else fwc)
      in fwc\<lparr>has_rtos := cap_reg AND CAP_RTOS \<noteq> 0, has_secure_boot := cap_reg AND CAP_SECURE_BOOT \<noteq> 0,
        has_p2p := cap_reg AND CAP_P2P \<noteq> 0, has_hbm := cap_reg AND CAP_HBM \<noteq> 0,
        generation := drop_bit 8 (cap_reg AND CAP_GEN_MASK),
        num_links := drop_bit 16 (cap_reg AND CAP_LINKS_MASK)\<rparr>)"

lemma parse_fw_caps_fields:
  "has_rtos (parse_fw_caps r) \<longleftrightarrow> bit r 0" "has_secure_boot (parse_fw_caps r) \<longleftrightarrow> bit r 1"
  "has_p2p (parse_fw_caps r) \<longleftrightarrow> bit r 2" "has_hbm (parse_fw_caps r) \<longleftrightarrow> bit r 3"
  "generation (parse_fw_caps r) = take_bit 4 (drop_bit 8 r)"
  "num_links (parse_fw_caps r) = take_bit 8 (drop_bit 16 r)"
  "\<not> reserved_bits_detected (parse_fw_caps r)"
proof -
  have c: "r AND CAP_RTOS \<noteq> 0 \<longleftrightarrow> bit r 0" "r AND CAP_SECURE_BOOT \<noteq> 0 \<longleftrightarrow> bit r 1"
    "r AND CAP_P2P \<noteq> 0 \<longleftrightarrow> bit r 2" "r AND CAP_HBM \<noteq> 0 \<longleftrightarrow> bit r 3"
    unfolding CAP_RTOS_def CAP_SECURE_BOOT_def CAP_P2P_def CAP_HBM_def by (simp_all only: one_bit_test)
  have g: "drop_bit 8 (r AND CAP_GEN_MASK) = take_bit 4 (drop_bit 8 r)"
    unfolding CAP_GEN_MASK_def ones_masks by (rule bit_word_eqI) (auto simp: bit_simps)
  have l: "drop_bit 16 (r AND CAP_LINKS_MASK) = take_bit 8 (drop_bit 16 r)"
    unfolding CAP_LINKS_MASK_def ones_masks by (rule bit_word_eqI) (auto simp: bit_simps)
  show "has_rtos (parse_fw_caps r) \<longleftrightarrow> bit r 0" "has_secure_boot (parse_fw_caps r) \<longleftrightarrow> bit r 1"
    "has_p2p (parse_fw_caps r) \<longleftrightarrow> bit r 2" "has_hbm (parse_fw_caps r) \<longleftrightarrow> bit r 3"
    "generation (parse_fw_caps r) = take_bit 4 (drop_bit 8 r)"
    "num_links (parse_fw_caps r) = take_bit 8 (drop_bit 16 r)"
    "\<not> reserved_bits_detected (parse_fw_caps r)"
    using c g l by (simp_all add: parse_fw_caps_def Let_def)
qed

section \<open>i2c_spi_register_config_helper.c and pcie_link_status_parser.c\<close>

datatype bus_mode = BUS_I2C | BUS_SPI

record bus_config =
  bus_mode :: bus_mode
  clock_divider :: u32
  chip_select :: u32
  spi_cpol :: bool
  spi_cpha :: bool
  i2c_10bit_addr :: bool
  bus_enable :: bool

abbreviation BUS_CTRL_ENABLE :: u32 where
  "BUS_CTRL_ENABLE \<equiv> push_bit 0 1"

abbreviation BUS_CTRL_MODE_SPI :: u32 where
  "BUS_CTRL_MODE_SPI \<equiv> push_bit 1 1"

abbreviation BUS_CTRL_SPI_CPOL :: u32 where
  "BUS_CTRL_SPI_CPOL \<equiv> push_bit 2 1"

abbreviation BUS_CTRL_SPI_CPHA :: u32 where
  "BUS_CTRL_SPI_CPHA \<equiv> push_bit 3 1"

abbreviation BUS_CTRL_I2C_10BIT :: u32 where
  "BUS_CTRL_I2C_10BIT \<equiv> push_bit 4 1"

abbreviation BUS_CTRL_CLKDIV_MASK :: u32 where
  "BUS_CTRL_CLKDIV_MASK \<equiv> push_bit 8 0xff"

abbreviation BUS_CTRL_CLKDIV_SHIFT :: nat where
  "BUS_CTRL_CLKDIV_SHIFT \<equiv> 8"

abbreviation BUS_CTRL_CS_MASK :: u32 where
  "BUS_CTRL_CS_MASK \<equiv> push_bit 16 0xf"

abbreviation BUS_CTRL_CS_SHIFT :: nat where
  "BUS_CTRL_CS_SHIFT \<equiv> 16"

text \<open>
  The register value that the second half of \<open>build_bus_ctrl\<close> computes, or the error of the
  branch. The sources write \<open>*reg_val\<close> for the unchanged value of the variable.
\<close>

definition bus_reg_val :: "bus_config \<Rightarrow> int + u32" where
  "bus_reg_val cfg =
     (let finish = (\<lambda>v. Inr (((if bus_enable cfg then v OR BUS_CTRL_ENABLE else v) AND NOT BUS_CTRL_CLKDIV_MASK)
        OR push_bit BUS_CTRL_CLKDIV_SHIFT (clock_divider cfg)))
      in if bus_mode cfg = BUS_I2C then
        if spi_cpol cfg \<or> spi_cpha cfg \<or> chip_select cfg \<noteq> 0 then Inl (-2)
        else finish (if i2c_10bit_addr cfg then 0 OR BUS_CTRL_I2C_10BIT else 0)
      else if drop_bit BUS_CTRL_CS_SHIFT BUS_CTRL_CS_MASK < chip_select cfg \<or> i2c_10bit_addr cfg then Inl (-2)
      else let v = 0 OR BUS_CTRL_MODE_SPI OR push_bit BUS_CTRL_CS_SHIFT (chip_select cfg);
             v = (if spi_cpol cfg then v OR BUS_CTRL_SPI_CPOL else v)
           in finish (if spi_cpha cfg then v OR BUS_CTRL_SPI_CPHA else v))"

definition build_bus_ctrl :: "bus_config option \<Rightarrow> u32 option \<Rightarrow> int \<times> u32 option" where
  "build_bus_ctrl cfg out_reg = (case (cfg, out_reg) of
     (Some c, Some r) \<Rightarrow>
       if bus_mode c \<noteq> BUS_I2C \<or> bus_mode c \<noteq> BUS_SPI then (-2, out_reg)
       else if clock_divider c = 0 \<or> 255 < clock_divider c then (-3, out_reg)
       else (case bus_reg_val c of Inl e \<Rightarrow> (e, out_reg) | Inr v \<Rightarrow> (0, Some v))
   | _ \<Rightarrow> (-1, out_reg))"

text \<open>No configuration passes the mode check, which joins two inequalities with \<open>||\<close>.\<close>

lemma build_bus_ctrl_refuses:
  "build_bus_ctrl (Some c) (Some r) = (-2, Some r)"
  "cfg = None \<or> out_reg = None \<Longrightarrow> build_bus_ctrl cfg out_reg = (-1, out_reg)"
  by (cases "bus_mode c"; simp add: build_bus_ctrl_def) (auto simp: build_bus_ctrl_def split: option.splits)

record pcie_link_info =
  speed_gen :: u8
  link_width :: u8
  training :: bool
  degraded :: bool

text \<open>The masks and offsets of the link status register are not in the sources.\<close>

record link_layout =
  LINK_SPEED_GEN_MASK :: u16
  LINK_SPEED_GEN_OFFSET :: nat
  LINK_WIDTH_MASK :: u16
  LINK_WIDTH_OFFSET :: nat
  LINK_TRAINING_MASK :: u16
  LINK_TRAINING_OFFSET :: nat

definition parse_pcie_link_status ::
  "link_layout \<Rightarrow> u16 \<Rightarrow> u8 \<Rightarrow> u8 \<Rightarrow> pcie_link_info option \<Rightarrow> int \<times> pcie_link_info option" where
  "parse_pcie_link_status l link_status expected_gen expected_width out = (case out of None \<Rightarrow> (-1, None) | Some _ \<Rightarrow>
     let gen = ucast (drop_bit (LINK_SPEED_GEN_OFFSET l) (link_status AND LINK_SPEED_GEN_MASK l));
         wid = ucast (drop_bit (LINK_WIDTH_OFFSET l) (link_status AND LINK_WIDTH_MASK l));
         trn = drop_bit (LINK_TRAINING_OFFSET l) (link_status AND LINK_TRAINING_MASK l) \<noteq> 0
     in (0, Some \<lparr>speed_gen = gen, link_width = wid, training = trn,
          degraded = (gen \<noteq> expected_gen \<or> wid \<noteq> expected_width)\<rparr>))"

text \<open>A link faster or wider than expected is marked degraded as well.\<close>

lemma pcie_degraded:
  assumes "parse_pcie_link_status l s eg ew (Some o') = (rc, Some info)"
  shows "rc = 0 \<and> (speed_gen info < eg \<or> link_width info < ew \<longrightarrow> degraded info)
    \<and> (eg < speed_gen info \<longrightarrow> degraded info)"
  using assms by (auto simp: parse_pcie_link_status_def Let_def)

end
