(* ===== verification/Interrupts.thy ===== *)
theory Interrupts
  imports Registers
begin

text \<open>
  Interrupt handlers and polling loops on device registers: \<open>interrupt_status_handler.c\<close>,
  the labs \<open>interrupt_storm_after_error.c\<close> and \<open>w1c_rmw_bug.c\<close>, and the loops of
  \<open>poll_hw_ready_with_timeout.c\<close> and \<open>safe_targeted_reset.c\<close>. A status register clears the
  bits that are written as one (\<open>w1c_write\<close>); the successive values that a loop reads from
  a volatile register are a function of the number of the read.
\<close>

section \<open>interrupt_status_handler.c\<close>

definition IRQ_CMD_DONE :: u32 where
  "IRQ_CMD_DONE = push_bit 0 1"

definition IRQ_ERROR :: u32 where
  "IRQ_ERROR = push_bit 1 1"

definition IRQ_FATAL :: u32 where
  "IRQ_FATAL = push_bit 2 1"

definition IRQ_LINK_DOWN :: u32 where
  "IRQ_LINK_DOWN = push_bit 3 1"

record irq_events =
  cmd_done_count :: u32
  error_count :: u32
  fatal_count :: u32
  link_down_count :: u32
  needs_recovery :: bool

text \<open>The handler gets what it reads of the registers and returns what it writes to the status.\<close>

definition handle_irq :: "u32 \<Rightarrow> u32 \<Rightarrow> irq_events \<Rightarrow> u32 \<times> irq_events" where
  "handle_irq status msk events =
     (let active = status AND msk;
        (clr, ev) = (0, events);
        (clr, ev) = (if active AND IRQ_FATAL \<noteq> 0
          then (clr OR IRQ_FATAL, ev\<lparr>fatal_count := fatal_count ev + 1, needs_recovery := True\<rparr>) else (clr, ev));
        (clr, ev) = (if active AND IRQ_LINK_DOWN \<noteq> 0
          then (clr OR IRQ_LINK_DOWN, ev\<lparr>link_down_count := link_down_count ev + 1, needs_recovery := True\<rparr>) else (clr, ev));
        (clr, ev) = (if active AND IRQ_ERROR \<noteq> 0
          then (clr OR IRQ_ERROR, ev\<lparr>error_count := error_count ev + 1\<rparr>) else (clr, ev));
        (clr, ev) = (if active AND IRQ_CMD_DONE \<noteq> 0
          then (clr OR IRQ_CMD_DONE, ev\<lparr>cmd_done_count := cmd_done_count ev + 1\<rparr>) else (clr, ev))
      in (clr, ev))"

lemma irq_tests:
  "x AND IRQ_CMD_DONE \<noteq> 0 \<longleftrightarrow> bit x 0" "x AND IRQ_ERROR \<noteq> 0 \<longleftrightarrow> bit x 1"
  "x AND IRQ_FATAL \<noteq> 0 \<longleftrightarrow> bit x 2" "x AND IRQ_LINK_DOWN \<noteq> 0 \<longleftrightarrow> bit x 3"
  unfolding IRQ_CMD_DONE_def IRQ_ERROR_def IRQ_FATAL_def IRQ_LINK_DOWN_def by (simp_all only: one_bit_test)

lemma irq_bits:
  "bit IRQ_CMD_DONE i \<longleftrightarrow> i = 0" "bit IRQ_ERROR i \<longleftrightarrow> i = 1" "bit IRQ_FATAL i \<longleftrightarrow> i = 2" "bit IRQ_LINK_DOWN i \<longleftrightarrow> i = 3"
  unfolding IRQ_CMD_DONE_def IRQ_ERROR_def IRQ_FATAL_def IRQ_LINK_DOWN_def bit_push_bit_iff bit_1_iff by auto

lemma handle_irq_clears:
  "bit (fst (handle_irq status msk ev)) i \<longleftrightarrow> i < 4 \<and> bit status i \<and> bit msk i"
proof -
  have "i < 4 \<longleftrightarrow> i = 0 \<or> i = 1 \<or> i = 2 \<or> i = 3" by auto
  then show ?thesis
    by (auto simp: handle_irq_def Let_def irq_tests irq_bits bit_or_iff bit_and_iff)
qed

lemma handle_irq_counts:
  "snd (handle_irq status msk ev) =
     \<lparr>cmd_done_count = cmd_done_count ev + of_bool (bit status 0 \<and> bit msk 0),
      error_count = error_count ev + of_bool (bit status 1 \<and> bit msk 1),
      fatal_count = fatal_count ev + of_bool (bit status 2 \<and> bit msk 2),
      link_down_count = link_down_count ev + of_bool (bit status 3 \<and> bit msk 3),
      needs_recovery = (needs_recovery ev \<or> bit (status AND msk) 2 \<or> bit (status AND msk) 3)\<rparr>"
  by (cases ev) (auto simp: handle_irq_def Let_def irq_tests bit_and_iff)

text \<open>
  C31. \<open>handle_irq\<close> counts exactly the enabled events of the one status value it reads, and
  asks for recovery exactly on an enabled fatal or link-down event. Whatever events the
  device raises between the read and the write, the write clears exactly the events that
  were handled: masked events, other status bits and new events of other kinds stay pending.
\<close>

theorem handle_irq_exact:
  assumes "handle_irq status msk ev = (clr, ev')"
  shows "w1c_write 0xf (status OR raised) clr = (status OR raised) AND NOT (status AND msk AND 0xf)
    \<and> cmd_done_count ev' = cmd_done_count ev + of_bool (bit (status AND msk) 0)
    \<and> error_count ev' = error_count ev + of_bool (bit (status AND msk) 1)
    \<and> fatal_count ev' = fatal_count ev + of_bool (bit (status AND msk) 2)
    \<and> link_down_count ev' = link_down_count ev + of_bool (bit (status AND msk) 3)
    \<and> (needs_recovery ev' \<longleftrightarrow> needs_recovery ev \<or> bit (status AND msk) 2 \<or> bit (status AND msk) 3)"
proof -
  have b: "bit clr i \<longleftrightarrow> i < 4 \<and> bit status i \<and> bit msk i" for i
    using handle_irq_clears [of status msk ev i] assms by simp
  have "w1c_write 0xf (status OR raised) clr = (status OR raised) AND NOT (status AND msk AND 0xf)"
    unfolding w1c_write_def ones_masks
    by (rule bit_word_eqI) (auto simp: bit_and_iff bit_or_iff bit_not_iff b bit_mask_iff)
  with handle_irq_counts [of status msk ev] assms show ?thesis by (simp add: bit_and_iff)
qed

theorem handle_irq_exact_witness:
  "handle_irq 0x5 0x7 \<lparr>cmd_done_count = 0, error_count = 0, fatal_count = 0, link_down_count = 0, needs_recovery = False\<rparr>
     = (0x5, \<lparr>cmd_done_count = 1, error_count = 0, fatal_count = 1, link_down_count = 0, needs_recovery = True\<rparr>)
   \<and> w1c_write 0xf (0x5 OR 0x2) 0x5 = (0x5 OR 0x2) AND NOT (0x5 AND 0x7 AND 0xf)"
proof -
  have "handle_irq 0x5 0x7 \<lparr>cmd_done_count = 0, error_count = 0, fatal_count = 0, link_down_count = 0, needs_recovery = False\<rparr>
     = (0x5, \<lparr>cmd_done_count = 1, error_count = 0, fatal_count = 1, link_down_count = 0, needs_recovery = True\<rparr>)"
    by (simp add: handle_irq_def IRQ_CMD_DONE_def IRQ_ERROR_def IRQ_FATAL_def IRQ_LINK_DOWN_def)
  with handle_irq_exact [OF this, of 2] show ?thesis by blast
qed

section \<open>interrupt_storm_after_error.c and w1c_rmw_bug.c\<close>

abbreviation STORM_IRQ_DONE :: u32 where
  "STORM_IRQ_DONE \<equiv> push_bit 0 1"

abbreviation STORM_IRQ_ERROR :: u32 where
  "STORM_IRQ_ERROR \<equiv> push_bit 1 1"

abbreviation STORM_IRQ_FATAL :: u32 where
  "STORM_IRQ_FATAL \<equiv> push_bit 2 1"

abbreviation RMW_STAT_DONE :: u32 where
  "RMW_STAT_DONE \<equiv> push_bit 0 1"

record irq_state =
  done_count :: u32
  storm_error_count :: u32
  recovery_needed :: bool
  wakes :: nat

text \<open>
  \<open>wakes\<close> counts the calls of \<open>wake_recovery_task\<close>. The handler returns the value it writes
  to the status register; it does not touch the mask.
\<close>

definition irq_handler :: "u32 \<Rightarrow> irq_state \<Rightarrow> u32 \<times> irq_state" where
  "irq_handler st s =
     (let s = (if st AND STORM_IRQ_DONE \<noteq> 0 then s\<lparr>done_count := done_count s + 1\<rparr> else s);
          s = (if st AND STORM_IRQ_ERROR \<noteq> 0
               then s\<lparr>storm_error_count := storm_error_count s + 1, recovery_needed := True, wakes := wakes s + 1\<rparr> else s);
          s = (if st AND STORM_IRQ_FATAL \<noteq> 0 then s\<lparr>recovery_needed := True, wakes := wakes s + 1\<rparr> else s)
      in (STORM_IRQ_DONE, s))"

text \<open>The level-triggered line: the handler runs again while an enabled event is pending.\<close>

primrec irq_runs :: "nat \<Rightarrow> u32 \<Rightarrow> u32 \<times> irq_state \<Rightarrow> u32 \<times> irq_state" where
  "irq_runs 0 msk d = d"
| "irq_runs (Suc n) msk d = (if fst d AND msk = 0 then d
     else let (v, s) = irq_handler (fst d) (snd d) in irq_runs n msk (w1c_write 0x7 (fst d) v, s))"

definition clear_done :: "u32 \<Rightarrow> u32" where
  "clear_done status = status AND NOT RMW_STAT_DONE"

lemma irq_handler_error:
  assumes "bit st 1"
  shows "fst (irq_handler st s) = push_bit 0 1"
    and "storm_error_count (snd (irq_handler st s)) = storm_error_count s + 1"
    and "wakes s < wakes (snd (irq_handler st s))"
  using assms unfolding irq_handler_def Let_def by (simp_all only: one_bit_test) simp_all

lemma w1c_write_bit: "bit (w1c_write w1c reg v) i \<longleftrightarrow> bit reg i \<and> \<not> (bit v i \<and> bit w1c i)"
  by (auto simp: w1c_write_def bit_and_iff bit_or_iff bit_not_iff dest: bit_imp_le_length)

text \<open>
  The two buggy labs on write-one-to-clear registers. With an enabled error pending,
  \<open>irq_handler\<close> never quiets the line: after any number of runs the error is still pending,
  and every run counted it and woke the recovery task again. \<open>clear_done\<close> clears the error
  and fatal bits that are pending, and keeps the done bit it is meant to clear.
\<close>

theorem w1c_lab_bugs:
  "(bit msk 1 \<and> bit st 1 \<longrightarrow>
     bit (fst (irq_runs n msk (st, s))) 1 \<and> fst (irq_runs n msk (st, s)) AND msk \<noteq> 0
     \<and> storm_error_count (snd (irq_runs n msk (st, s))) = storm_error_count s + of_nat n
     \<and> wakes s + n \<le> wakes (snd (irq_runs n msk (st, s))))
   \<and> w1c_write 0x7 st (clear_done st) = st AND NOT 0x6"
proof -
  have "bit (fst (irq_runs n msk (st, s))) 1 \<and> fst (irq_runs n msk (st, s)) AND msk \<noteq> 0
     \<and> storm_error_count (snd (irq_runs n msk (st, s))) = storm_error_count s + of_nat n
     \<and> wakes s + n \<le> wakes (snd (irq_runs n msk (st, s)))" if m: "bit msk 1" and e: "bit st 1"
    using e
  proof (induction n arbitrary: st s)
    case 0
    then show ?case using m by (auto simp: word_zero_bits bit_and_iff)
  next
    case (Suc n)
    have pend: "st AND msk \<noteq> 0" using Suc.prems m by (auto simp: word_zero_bits bit_and_iff)
    obtain v s' where h: "irq_handler st s = (v, s')" by fastforce
    have v: "bit v i \<longleftrightarrow> i = 0" for i
      using irq_handler_error(1) [OF Suc.prems, of s] unfolding h fst_conv by (simp only: bit_push_bit_iff bit_1_iff) auto
    have "bit (w1c_write 0x7 st v) 1" using Suc.prems by (simp add: w1c_write_bit v)
    from Suc.IH [OF this, of s'] irq_handler_error(2,3) [OF Suc.prems, of s] pend show ?case
      by (simp add: h)
  qed
  moreover have "w1c_write 0x7 st (clear_done st) = st AND NOT 0x6"
  proof (rule bit_word_eqI)
    fix i :: nat
    have six: "(0x6 :: u32) = push_bit 1 (mask 2)" by (simp add: mask_eq_exp_minus_1)
    have "bit (0x6 :: u32) i \<longleftrightarrow> i = 1 \<or> i = 2"
      unfolding six bit_push_bit_iff bit_mask_iff by auto
    moreover have "bit (0x7 :: u32) i \<longleftrightarrow> i < 3" by (auto simp: ones_masks bit_mask_iff)
    moreover have "bit (clear_done st) i \<longleftrightarrow> bit st i \<and> i \<noteq> 0"
      unfolding clear_done_def bit_and_iff bit_not_iff bit_push_bit_iff bit_1_iff
      by (auto dest: bit_imp_le_length)
    moreover assume "i < LENGTH(32)"
    ultimately show "bit (w1c_write 0x7 st (clear_done st)) i \<longleftrightarrow> bit (st AND NOT 0x6) i"
      unfolding w1c_write_bit bit_and_iff bit_not_iff by auto
  qed
  ultimately show ?thesis by blast
qed

theorem w1c_lab_bugs_witness:
  "bit (7 :: u32) 1 \<and> bit (2 :: u32) 1
   \<and> storm_error_count (snd (irq_runs 1000 7 (2, \<lparr>done_count = 0, storm_error_count = 0, recovery_needed = False, wakes = 0\<rparr>))) = 1000
   \<and> w1c_write 0x7 0x3 (clear_done 0x3) = 0x1"
  using w1c_lab_bugs [of 7 2 1000 "\<lparr>done_count = 0, storm_error_count = 0, recovery_needed = False, wakes = 0\<rparr>"]
    w1c_lab_bugs [of 7 3 0 undefined] by simp

section \<open>poll_hw_ready_with_timeout.c and safe_targeted_reset.c\<close>

abbreviation FW_READY_BIT :: u32 where
  "FW_READY_BIT \<equiv> push_bit 0 1"

abbreviation FW_ERROR_BIT :: u32 where
  "FW_ERROR_BIT \<equiv> push_bit 1 1"

abbreviation FW_FATAL_BIT :: u32 where
  "FW_FATAL_BIT \<equiv> push_bit 2 1"

abbreviation CTRL_RESET_REQ :: u32 where
  "CTRL_RESET_REQ \<equiv> push_bit 0 1"

abbreviation CTRL_TARGET_MASK :: u32 where
  "CTRL_TARGET_MASK \<equiv> push_bit 8 0xff"

abbreviation CTRL_TARGET_SHIFT :: nat where
  "CTRL_TARGET_SHIFT \<equiv> 8"

abbreviation STATUS_BUSY :: u32 where
  "STATUS_BUSY \<equiv> push_bit 0 1"

abbreviation STATUS_RESET_DONE :: u32 where
  "STATUS_RESET_DONE \<equiv> push_bit 1 1"

abbreviation STATUS_ERROR :: u32 where
  "STATUS_ERROR \<equiv> push_bit 2 1"

text \<open>
  Both loops read a status register once per round and return at the first value that
  decides: \<open>reads i\<close> is the value of read \<open>i\<close>, \<open>k\<close> counts the rounds that are left.
\<close>

primrec poll_loop :: "(nat \<Rightarrow> u32) \<Rightarrow> nat \<Rightarrow> nat \<Rightarrow> int" where
  "poll_loop reads i 0 = -1"
| "poll_loop reads i (Suc k) =
     (if reads i AND FW_FATAL_BIT \<noteq> 0 \<or> reads i AND FW_ERROR_BIT \<noteq> 0 then -2
      else if reads i AND FW_READY_BIT \<noteq> 0 then 0
      else poll_loop reads (Suc i) k)"

definition wait_fw_ready :: "(nat \<Rightarrow> u32) \<Rightarrow> u32 \<Rightarrow> int" where
  "wait_fw_ready reads max_iters = poll_loop reads 0 (unat max_iters)"

primrec reset_loop :: "(nat \<Rightarrow> u32) \<Rightarrow> nat \<Rightarrow> nat \<Rightarrow> int" where
  "reset_loop reads i 0 = -3"
| "reset_loop reads i (Suc k) =
     (if reads i AND STATUS_ERROR \<noteq> 0 then -2
      else if reads i AND STATUS_RESET_DONE \<noteq> 0 then 0
      else reset_loop reads (Suc i) k)"

text \<open>The status read before the request is read 0; the list holds the values written to \<open>ctrl\<close>.\<close>

definition reset_target :: "(nat \<Rightarrow> u32) \<Rightarrow> u32 \<Rightarrow> u32 \<Rightarrow> u32 \<Rightarrow> int \<times> u32 list" where
  "reset_target reads ctrl target_id max_iters =
     (if drop_bit CTRL_TARGET_SHIFT CTRL_TARGET_MASK < target_id then (-4, [])
      else if reads 0 AND STATUS_BUSY \<noteq> 0 then (-1, [])
      else (reset_loop reads 1 (unat max_iters),
        [(ctrl AND NOT (CTRL_TARGET_MASK OR CTRL_RESET_REQ)) OR (push_bit CTRL_TARGET_SHIFT target_id OR CTRL_RESET_REQ)]))"

text \<open>The value at the first index below the bound that decides, or the default.\<close>

definition first_value :: "(nat \<Rightarrow> 'a option) \<Rightarrow> nat \<Rightarrow> nat \<Rightarrow> 'a \<Rightarrow> 'a" where
  "first_value f i k d = (case List.find (\<lambda>j. f j \<noteq> None) [i..<i + k] of None \<Rightarrow> d | Some j \<Rightarrow> the (f j))"

lemma first_value_0: "first_value f i 0 d = d"
  by (simp add: first_value_def)

lemma first_value_Suc: "first_value f i (Suc k) d = (case f i of None \<Rightarrow> first_value f (Suc i) k d | Some x \<Rightarrow> x)"
  by (auto simp: first_value_def upt_conv_Cons simp del: upt_Suc split: option.splits)

lemma first_value_cases:
  "(\<exists>j<k. f (i + j) = Some (first_value f i k d) \<and> (\<forall>l<j. f (i + l) = None))
   \<or> (first_value f i k d = d \<and> (\<forall>l<k. f (i + l) = None))"
proof (cases "List.find (\<lambda>j. f j \<noteq> None) [i..<i + k]")
  case None
  then have "first_value f i k d = d" by (simp only: first_value_def option.case)
  then show ?thesis using None by (auto simp: find_None_iff)
next
  case (Some m)
  then have v: "first_value f i k d = the (f m)" by (simp only: first_value_def option.case)
  from Some show ?thesis unfolding v by (auto simp: find_Some_iff)
qed

definition fw_answer :: "u32 \<Rightarrow> int option" where
  "fw_answer v = (if bit v 1 \<or> bit v 2 then Some (-2) else if bit v 0 then Some 0 else None)"

definition reset_answer :: "u32 \<Rightarrow> int option" where
  "reset_answer v = (if bit v 2 then Some (-2) else if bit v 1 then Some 0 else None)"

lemma poll_loop_first: "poll_loop reads i k = first_value (\<lambda>j. fw_answer (reads j)) i k (-1)"
  by (induction k arbitrary: i)
    (simp_all only: poll_loop.simps first_value_0 first_value_Suc one_bit_test, simp_all add: fw_answer_def)

lemma reset_loop_first: "reset_loop reads i k = first_value (\<lambda>j. reset_answer (reads j)) i k (-3)"
  by (induction k arbitrary: i)
    (simp_all only: reset_loop.simps first_value_0 first_value_Suc one_bit_test, simp_all add: reset_answer_def)

text \<open>The control word of a reset: target and request, the other bits kept.\<close>

lemma reset_word:
  assumes "(t :: u32) \<le> 255"
    and v: "v = (ctrl AND NOT (push_bit 8 0xff OR push_bit 0 1)) OR (push_bit 8 t OR push_bit 0 1)"
  shows "bit v 0" "take_bit 8 (drop_bit 8 v) = t" "v AND NOT 0xff01 = ctrl AND NOT 0xff01"
proof -
  have "unat t < 2 ^ 8" using assms(1) by (simp add: word_le_nat_alt)
  note t = small_bits [OF this]
  have m: "bit (0xff01 :: u32) i \<longleftrightarrow> i = 0 \<or> 8 \<le> i \<and> i < 16" for i
  proof -
    have e: "(0xff01 :: u32) = push_bit 8 (mask 8) OR 1" by (simp add: mask_eq_exp_minus_1)
    show ?thesis unfolding e bit_or_iff bit_push_bit_iff bit_mask_iff bit_1_iff by auto
  qed
  have vb: "bit v i \<longleftrightarrow> i = 0 \<or> (8 \<le> i \<and> i < 16 \<and> bit t (i - 8)) \<or> (bit ctrl i \<and> \<not> (i = 0 \<or> 8 \<le> i \<and> i < 16))" for i
    unfolding v ones_masks bit_or_iff bit_and_iff bit_not_iff bit_push_bit_iff bit_mask_iff bit_1_iff
    using t [of "i - 8"] by (auto dest: bit_imp_le_length)
  show "bit v 0" by (simp add: vb)
  show "take_bit 8 (drop_bit 8 v) = t"
    by (rule bit_word_eqI) (auto simp: bit_take_bit_iff bit_drop_bit_eq vb dest: t)
  show "v AND NOT 0xff01 = ctrl AND NOT 0xff01"
    by (rule bit_word_eqI) (unfold bit_and_iff bit_not_iff vb m, auto)
qed

text \<open>
  \<open>wait_fw_ready\<close> returns the answer of the first of its \<open>max_iters\<close> reads that is
  decisive (error or fatal before ready), and \<open>-1\<close> only when none is. \<open>reset_target\<close> writes
  nothing for a target that does not fit or a busy device; otherwise it writes the control
  register once, with the target, the request and every other bit kept, and returns the
  answer of the first decisive read after that, or \<open>-3\<close>.
\<close>

theorem polls_first_answer:
  "((\<exists>j<unat n. fw_answer (reads j) = Some (wait_fw_ready reads n) \<and> (\<forall>l<j. fw_answer (reads l) = None))
     \<or> wait_fw_ready reads n = -1 \<and> (\<forall>l<unat n. fw_answer (reads l) = None))
   \<and> (if 255 < t then reset_target reads ctrl t n = (-4, [])
   else if bit (reads 0) 0 then reset_target reads ctrl t n = (-1, [])
   else \<exists>rc v. reset_target reads ctrl t n = (rc, [v]) \<and> bit v 0 \<and> take_bit 8 (drop_bit 8 v) = t
     \<and> v AND NOT 0xff01 = ctrl AND NOT 0xff01
     \<and> ((\<exists>j<unat n. reset_answer (reads (Suc j)) = Some rc \<and> (\<forall>l<j. reset_answer (reads (Suc l)) = None))
        \<or> rc = -3 \<and> (\<forall>l<unat n. reset_answer (reads (Suc l)) = None)))"
proof (rule conjI)
  show "(\<exists>j<unat n. fw_answer (reads j) = Some (wait_fw_ready reads n) \<and> (\<forall>l<j. fw_answer (reads l) = None))
     \<or> wait_fw_ready reads n = -1 \<and> (\<forall>l<unat n. fw_answer (reads l) = None)"
    using first_value_cases [of "unat n" "\<lambda>j. fw_answer (reads j)" 0 "-1"]
    by (simp add: wait_fw_ready_def poll_loop_first)
  define v where "v = (ctrl AND NOT (push_bit 8 0xff OR push_bit 0 1)) OR (push_bit 8 t OR push_bit 0 1)"
  have r: "reset_target reads ctrl t n = (if 255 < t then (-4, []) else if bit (reads 0) 0 then (-1, [])
      else (reset_loop reads 1 (unat n), [v]))"
    using one_bit_test [of 0 "reads 0"] by (simp add: reset_target_def v_def)
  have "(\<exists>j<unat n. reset_answer (reads (Suc j)) = Some (reset_loop reads 1 (unat n))
        \<and> (\<forall>l<j. reset_answer (reads (Suc l)) = None))
      \<or> reset_loop reads 1 (unat n) = -3 \<and> (\<forall>l<unat n. reset_answer (reads (Suc l)) = None)"
    using first_value_cases [of "unat n" "\<lambda>j. reset_answer (reads j)" 1 "-3"]
    by (simp add: reset_loop_first)
  then show "if 255 < t then reset_target reads ctrl t n = (-4, [])
   else if bit (reads 0) 0 then reset_target reads ctrl t n = (-1, [])
   else \<exists>rc v. reset_target reads ctrl t n = (rc, [v]) \<and> bit v 0 \<and> take_bit 8 (drop_bit 8 v) = t
     \<and> v AND NOT 0xff01 = ctrl AND NOT 0xff01
     \<and> ((\<exists>j<unat n. reset_answer (reads (Suc j)) = Some rc \<and> (\<forall>l<j. reset_answer (reads (Suc l)) = None))
        \<or> rc = -3 \<and> (\<forall>l<unat n. reset_answer (reads (Suc l)) = None))"
    using reset_word [OF _ v_def] by (cases "255 < t") (simp_all add: r not_less)
qed

theorem polls_first_answer_witness:
  "wait_fw_ready (\<lambda>_. 1) 3 = 0 \<and> fst (reset_target (\<lambda>_. 2) 0xff000002 7 3) = 0"
proof -
  have a: "fw_answer 1 = Some 0" "reset_answer 2 = Some 0" "\<not> bit (2 :: u32) 0" "\<not> 255 < (7 :: u32)"
    by (simp_all add: fw_answer_def reset_answer_def)
  have "0 < unat (3 :: u32)" by simp
  with a polls_first_answer [of 3 "\<lambda>_. 1" 7 0] have "wait_fw_ready (\<lambda>_. 1) 3 = 0" by force
  moreover from a \<open>0 < unat (3 :: u32)\<close> polls_first_answer [of 3 "\<lambda>_. 2" 7 "0xff000002"]
  have "fst (reset_target (\<lambda>_. 2) 0xff000002 7 3) = 0" by force
  ultimately show ?thesis by blast
qed

end
