(* ===== verification/Buffer_Pool.thy ===== *)
theory Buffer_Pool
  imports Prelude
begin

text \<open>
  The fixed-size block allocator of \<open>bare_metal_packet_buffer_pool_allocation_051926/main.c\<close>.
  The free list is threaded through the blocks: the first word of a free block is the
  address of the next one. Memory is the map from addresses to the 64-bit words stored
  there; all accesses are at multiples of 64 plus the start address given to \<open>free\<close>.
\<close>

definition INVALID_ADDR :: u64 where
  "INVALID_ADDR = - 1"

record pool =
  pool_head :: u64
  pool_mem :: "u64 \<Rightarrow> u64"

definition align64 :: "u64 \<Rightarrow> u64" where
  "align64 x = (x + 63) AND NOT 63"

text \<open>The loop of \<open>buffer_pool_init\<close>; it need not end when addresses wrap, hence the fuel.\<close>

fun pool_loop :: "nat \<Rightarrow> u64 \<Rightarrow> u64 \<Rightarrow> u64 \<Rightarrow> (u64 \<Rightarrow> u64) \<Rightarrow> (u64 \<Rightarrow> u64) option" where
  "pool_loop 0 cur block_size pool_end mem = None"
| "pool_loop (Suc k) cur block_size pool_end mem =
     (if cur < pool_end
      then pool_loop k (cur + block_size) block_size pool_end
        (mem(cur := if cur + block_size \<le> pool_end then cur + block_size else INVALID_ADDR))
      else Some mem)"

definition buffer_pool_init :: "nat \<Rightarrow> u64 \<Rightarrow> u64 \<Rightarrow> u64 \<Rightarrow> (u64 \<Rightarrow> u64) \<Rightarrow> pool option" where
  "buffer_pool_init fuel raw_memory pool_size block_size mem =
     (let head = align64 raw_memory;
          block_size = (if block_size < 8 then 8 else block_size);
          block_size = align64 block_size
      in map_option (\<lambda>m. \<lparr>pool_head = head, pool_mem = m\<rparr>)
           (pool_loop fuel head block_size (raw_memory + pool_size) mem))"

definition buffer_pool_alloc :: "pool \<Rightarrow> u64 option \<times> pool" where
  "buffer_pool_alloc p =
     (if pool_head p = INVALID_ADDR then (None, p)
      else (Some (pool_head p), p\<lparr>pool_head := pool_mem p (pool_head p)\<rparr>))"

definition buffer_pool_free :: "u64 \<Rightarrow> pool \<Rightarrow> pool" where
  "buffer_pool_free ptr p = p\<lparr>pool_head := ptr, pool_mem := (pool_mem p)(ptr := pool_head p)\<rparr>"

text \<open>The blocks that \<open>n\<close> allocations in a row return.\<close>

primrec allocs :: "nat \<Rightarrow> pool \<Rightarrow> u64 option list" where
  "allocs 0 p = []"
| "allocs (Suc n) p = (let (b, p) = buffer_pool_alloc p in b # allocs n p)"

section \<open>Alignment\<close>

lemma align64_unat:
  assumes "unat x + 63 < 2 ^ 64"
  shows "unat (align64 x) = (unat x + 63) div 64 * 64"
proof -
  have m: "(63 :: u64) = mask 6" by (simp add: mask_eq_exp_minus_1)
  have "align64 x = push_bit 6 (drop_bit 6 (x + 63))"
    unfolding align64_def m by (rule bit_word_eqI) (auto simp: bit_simps)
  then have a: "align64 x = (x + 63) div 64 * 64" by (simp add: push_bit_eq_mult drop_bit_eq_div)
  have "unat (x + 63) = unat x + 63" using assms by (simp add: unat_word_ariths)
  then have d: "unat ((x + 63) div 64) = (unat x + 63) div 64" by (simp add: unat_div)
  have "(unat x + 63) div 64 * 64 < 2 ^ 64"
    using assms div_times_less_eq_dividend [of "unat x + 63" 64] by linarith
  then show ?thesis unfolding a by (simp add: unat_word_ariths d)
qed

lemma align64_props:
  assumes "unat x + 63 < 2 ^ 64"
  shows "unat (align64 x) mod 64 = 0" "unat x \<le> unat (align64 x)" "unat (align64 x) < unat x + 64"
proof -
  show "unat (align64 x) mod 64 = 0" by (simp add: align64_unat [OF assms])
  show "unat x \<le> unat (align64 x)" "unat (align64 x) < unat x + 64"
    unfolding align64_unat [OF assms] by linarith+
qed

section \<open>The free list after initialisation\<close>

text \<open>Block \<open>i\<close> of a pool whose first block is at \<open>h\<close> with blocks of \<open>bs\<close> bytes.\<close>

definition block :: "nat \<Rightarrow> nat \<Rightarrow> nat \<Rightarrow> u64" where
  "block h bs i = of_nat (h + i * bs)"

lemma unat_block: "h + i * bs < 2 ^ 64 \<Longrightarrow> unat (block h bs i) = h + i * bs"
  unfolding block_def by (simp add: unat_of_nat del: of_nat_add of_nat_mult)

lemma block_next: "block h bs i + of_nat bs = block h bs (Suc i)"
  by (simp add: block_def algebra_simps)

lemma block_inj: "h + i * bs < 2 ^ 64 \<Longrightarrow> h + j * bs < 2 ^ 64 \<Longrightarrow> 0 < bs \<Longrightarrow> block h bs i = block h bs j \<longleftrightarrow> i = j"
  by (metis unat_block add_left_cancel mult_cancel2 less_numeral_extra(3))

text \<open>The link that the loop stores in block \<open>i\<close>.\<close>

definition link :: "nat \<Rightarrow> nat \<Rightarrow> nat \<Rightarrow> nat \<Rightarrow> u64" where
  "link h bs pe i = (if h + Suc i * bs \<le> pe then block h bs (Suc i) else INVALID_ADDR)"

lemma pool_loop_links:
  assumes "0 < bs" "pe + bs < 2 ^ 64" "pe + bs \<le> h + i * bs + k * bs" "h + i * bs < pe + bs"
  shows "\<exists>mem'. pool_loop k (block h bs i) (of_nat bs) (of_nat pe) mem = Some mem'
    \<and> (\<forall>j. i \<le> j \<and> h + j * bs < pe \<longrightarrow> mem' (block h bs j) = link h bs pe j)
    \<and> (\<forall>j<i. mem' (block h bs j) = mem (block h bs j))"
  using assms
proof (induction k arbitrary: i mem)
  case 0
  then show ?case by simp
next
  case (Suc k)
  have fit: "h + i * bs < 2 ^ 64" using Suc.prems by linarith
  have lt: "block h bs i < of_nat pe \<longleftrightarrow> h + i * bs < pe"
    using Suc.prems unat_block [OF fit] by (simp add: word_less_nat_alt unat_of_nat)
  show ?case
  proof (cases "h + i * bs < pe")
    case False
    have "\<not> h + j * bs < pe" if "i \<le> j" for j
      using False mult_le_mono1 [OF that, of bs] by linarith
    then show ?thesis using False lt by auto
  next
    case True
    then have f: "h + Suc i * bs < 2 ^ 64" "h + Suc i * bs < pe + bs" using Suc.prems(2) by auto
    have le: "block h bs i + of_nat bs \<le> of_nat pe \<longleftrightarrow> h + Suc i * bs \<le> pe"
      using Suc.prems(2) unat_block [OF f(1)] unfolding block_next by (simp add: word_le_nat_alt unat_of_nat)
    define mem1 where "mem1 = mem(block h bs i := link h bs pe i)"
    have step: "pool_loop (Suc k) (block h bs i) (of_nat bs) (of_nat pe) mem
        = pool_loop k (block h bs (Suc i)) (of_nat bs) (of_nat pe) mem1"
      using True lt le by (simp add: mem1_def link_def block_next)
    from Suc.IH [of "Suc i" mem1] Suc.prems f obtain mem' where m:
      "pool_loop k (block h bs (Suc i)) (of_nat bs) (of_nat pe) mem1 = Some mem'"
      "\<And>j. Suc i \<le> j \<Longrightarrow> h + j * bs < pe \<Longrightarrow> mem' (block h bs j) = link h bs pe j"
      "\<And>j. j < Suc i \<Longrightarrow> mem' (block h bs j) = mem1 (block h bs j)" by auto
    have "mem' (block h bs j) = link h bs pe j" if "i \<le> j" "h + j * bs < pe" for j
      using that m(2) [of j] m(3) [of j] by (cases "j = i") (auto simp: mem1_def)
    moreover have "mem' (block h bs j) = mem (block h bs j)" if "j < i" for j
    proof -
      have "h + j * bs < 2 ^ 64" using mult_le_mono1 [of j i bs] that fit by linarith
      then have "block h bs j \<noteq> block h bs i"
        using that fit Suc.prems(1) by (subst block_inj) auto
      then show ?thesis using that m(3) [of j] by (simp add: mem1_def)
    qed
    ultimately show ?thesis using m(1) step by auto
  qed
qed

lemma block_valid: "h + i * bs < 2 ^ 64 - 1 \<Longrightarrow> block h bs i \<noteq> INVALID_ADDR"
proof
  assume i: "h + i * bs < 2 ^ 64 - 1" and "block h bs i = INVALID_ADDR"
  then have "unat (block h bs i) = 2 ^ 64 - 1" by (simp add: INVALID_ADDR_def unsigned_minus_1_eq_mask mask_eq_exp_minus_1)
  with i unat_block [of h i bs] show False by simp
qed

lemma allocs_blocks:
  assumes "pe < 2 ^ 64 - 1" "\<And>j. h + j * bs < pe \<Longrightarrow> pool_mem p (block h bs j) = link h bs pe j"
    and "pool_head p = block h bs i" "0 < bs" "h + (i + m) * bs \<le> pe"
  shows "allocs (Suc m) p = map (\<lambda>j. Some (block h bs j)) [i..<Suc (i + m)]"
  using assms
proof (induction m arbitrary: i p)
  case 0
  have "h + i * bs < 2 ^ 64 - 1" using 0 by simp
  with 0 block_valid [of h i bs] show ?case by (simp add: buffer_pool_alloc_def)
next
  case (Suc m)
  have le: "h + i * bs < pe" "h + Suc i * bs \<le> pe"
    using Suc.prems(4,5) by (auto simp: algebra_simps)
  have v: "block h bs i \<noteq> INVALID_ADDR" using le(1) Suc.prems(1) by (intro block_valid) linarith
  have nx: "pool_mem p (block h bs i) = block h bs (Suc i)"
    using Suc.prems(2) [OF le(1)] le(2) by (simp add: link_def)
  have "allocs (Suc m) (p\<lparr>pool_head := block h bs (Suc i)\<rparr>) = map (\<lambda>j. Some (block h bs j)) [Suc i..<Suc (Suc i + m)]"
    using Suc.prems by (intro Suc.IH) simp_all
  then have "allocs (Suc (Suc m)) p = Some (block h bs i) # map (\<lambda>j. Some (block h bs j)) [Suc i..<Suc (Suc i + m)]"
    using v nx Suc.prems(3) by (simp add: buffer_pool_alloc_def)
  also have "\<dots> = map (\<lambda>j. Some (block h bs j)) [i..<Suc (i + Suc m)]"
    by (simp add: upt_conv_Cons del: upt_Suc)
  finally show ?case .
qed

text \<open>
  A pool in memory that does not reach the end of the address space, with its first
  aligned block before its end. Initialisation finishes, with a number of rounds bounded by
  the pool size. Then \<open>n + 1\<close> allocations in a row succeed, where \<open>n\<close> whole blocks fit: they
  return the consecutive blocks, each 64-byte aligned, of which the first \<open>n\<close> lie in the
  pool. The last one reaches past the pool's end: one block too many is linked.
\<close>

theorem pool_hands_out_one_too_many:
  assumes raw: "unat raw + unat psz + unat bsz + 200 < 2 ^ 64"
    and head: "h = unat (align64 raw)" and bs: "bs = unat (align64 (if bsz < 8 then 8 else bsz))"
    and pe: "pe = unat raw + unat psz" and n: "n = (pe - h) div bs" and some: "h < pe"
    and fuel: "unat psz + 2 \<le> fuel"
  shows "\<exists>p. buffer_pool_init fuel raw psz bsz mem = Some p
    \<and> allocs (Suc n) p = map (\<lambda>j. Some (of_nat (h + j * bs))) [0..<Suc n]
    \<and> h mod 64 = 0 \<and> bs mod 64 = 0 \<and> unat bsz \<le> bs \<and> unat raw \<le> h
    \<and> h + n * bs \<le> pe \<and> pe < h + n * bs + bs"
proof -
  let ?b = "if bsz < 8 then 8 else bsz"
  have b: "unat ?b + 63 < 2 ^ 64" "unat ?b \<le> unat bsz + 8" "unat bsz \<le> unat ?b" "8 \<le> unat ?b"
    using raw by (auto simp: word_less_nat_alt)
  have r: "unat raw + 63 < 2 ^ 64" using raw by linarith
  note hp = align64_props [OF r, folded head] and bp = align64_props [OF b(1), folded bs]
  have pos: "0 < bs" using bp(2) b(4) by linarith
  have small: "pe + bs < 2 ^ 64" using bp(3) b(2) raw pe by linarith
  have "(unat psz + 2) * bs \<le> fuel * bs" "unat psz \<le> unat psz * bs"
    using fuel pos by (simp_all only: mult_le_mono1) simp
  then have f: "pe + bs \<le> h + 0 * bs + fuel * bs"
    using pe hp(2) unfolding distrib_right by linarith
  have w: "align64 raw = block h bs 0" "align64 ?b = of_nat bs" "raw + psz = of_nat pe"
    by (simp_all add: head bs pe block_def)
  from pool_loop_links [OF pos small f] some obtain mem' where m:
    "pool_loop fuel (block h bs 0) (of_nat bs) (of_nat pe) mem = Some mem'"
    "\<And>j. h + j * bs < pe \<Longrightarrow> mem' (block h bs j) = link h bs pe j" by auto
  define p where "p = \<lparr>pool_head = block h bs 0, pool_mem = mem'\<rparr>"
  have q: "n * bs + (pe - h) mod bs = pe - h" using n by simp
  have "h + n * bs \<le> pe" using q some by linarith
  moreover have "pe < h + n * bs + bs" using q some mod_less_divisor [OF pos, of "pe - h"] by linarith
  moreover have "buffer_pool_init fuel raw psz bsz mem = Some p"
    using m(1) by (simp add: buffer_pool_init_def Let_def p_def flip: w)
  moreover have "allocs (Suc n) p = map (\<lambda>j. Some (block h bs j)) [0..<Suc (0 + n)]"
    using m(2) small pos \<open>h + n * bs \<le> pe\<close> by (intro allocs_blocks [of pe]) (simp_all add: p_def)
  ultimately show ?thesis using hp bp b(3) by (auto simp: block_def)
qed

theorem pool_hands_out_one_too_many_witness:
  "\<exists>p. buffer_pool_init 302 4100 300 100 (\<lambda>_. 0) = Some p \<and> allocs (Suc 1) p = [Some 4160, Some 4288]"
proof -
  have a: "align64 4100 = 4160" "align64 (if (100::u64) < 8 then 8 else 100) = 128" by (simp_all add: align64_def)
  have "\<exists>p. buffer_pool_init 302 4100 300 100 (\<lambda>_. 0) = Some p
      \<and> allocs (Suc 1) p = map (\<lambda>j. Some (of_nat (4160 + j * 128))) [0..<Suc 1]
      \<and> (4160::nat) mod 64 = 0 \<and> (128::nat) mod 64 = 0 \<and> unat (100::u64) \<le> 128 \<and> unat (4100::u64) \<le> 4160
      \<and> (4160::nat) + 1 * 128 \<le> 4400 \<and> (4400::nat) < 4160 + 1 * 128 + 128"
    by (rule pool_hands_out_one_too_many) (simp_all only: a, simp_all)
  then obtain p where p: "buffer_pool_init 302 4100 300 100 (\<lambda>_. 0) = Some p"
    "allocs (Suc 1) p = map (\<lambda>j. Some (of_nat (4160 + j * 128))) [0..<Suc 1]" by blast
  have "map (\<lambda>j. Some (of_nat (4160 + j * 128))) [0..<Suc 1] = [Some 4160, Some (4288 :: u64)]" by simp
  with p show ?thesis by metis
qed

text \<open>
  Freeing a block and allocating again returns that block and leaves the rest of the
  pool as it was: the free list has its old head, and only the freed block's word has
  changed. An empty pool returns null and does not change.
\<close>

theorem pool_free_alloc_roundtrip:
  "(ptr \<noteq> INVALID_ADDR \<longrightarrow> buffer_pool_alloc (buffer_pool_free ptr p)
      = (Some ptr, p\<lparr>pool_mem := (pool_mem p)(ptr := pool_head p)\<rparr>))
   \<and> (pool_head p = INVALID_ADDR \<longrightarrow> buffer_pool_alloc p = (None, p))"
  by (simp add: buffer_pool_alloc_def buffer_pool_free_def)

theorem pool_free_alloc_roundtrip_witness:
  "(64 :: u64) \<noteq> INVALID_ADDR
   \<and> buffer_pool_alloc (buffer_pool_free 64 \<lparr>pool_head = 128, pool_mem = (\<lambda>_. 0)\<rparr>)
     = (Some 64, \<lparr>pool_head = 128, pool_mem = (\<lambda>_. 0)(64 := 128)\<rparr>)"
proof -
  have "(64 :: u64) \<noteq> INVALID_ADDR" by (simp add: INVALID_ADDR_def)
  with pool_free_alloc_roundtrip [of 64 "\<lparr>pool_head = 128, pool_mem = (\<lambda>_. 0)\<rparr>"] show ?thesis by simp
qed

end
