(* ===== verification/Monitors.thy ===== *)
theory Monitors
  imports Prelude "HOL-Library.Multiset"
begin

text \<open>
  Objects whose operations are critical sections under one lock: the statistics table
  (\<open>thread_safe_stat_table.c\<close>), the publish/subscribe dispatcher
  (\<open>thread_safe_pub_sub_dispatcher.c\<close>), the reset guard (\<open>reset_race_state_guard.c\<close>), the
  completion object (\<open>completion_vs_timeout_race.c\<close>) and the read-write lock with a condition
  variable (\<open>implement_rdwrlock.c\<close>). Each operation is one atomic step on the object.
\<close>

section \<open>thread_safe_stat_table.c\<close>

definition STAT_COUNT :: nat where
  "STAT_COUNT = 32"

type_synonym stats_table = "u64 list"

definition stats_read :: "stats_table option \<Rightarrow> u64 \<Rightarrow> bool \<Rightarrow> (int \<times> u64 option) cres" where
  "stats_read t idx out = (case t of None \<Rightarrow> Inr (-1, None) | Some cs \<Rightarrow>
     if STAT_COUNT \<le> unat idx \<or> \<not> out then Inr (-1, None)
     else cbind (arr_get cs (unat idx)) (\<lambda>v. Inr (0, Some v)))"

definition stats_add :: "stats_table option \<Rightarrow> u64 \<Rightarrow> u64 \<Rightarrow> (int \<times> stats_table option) cres" where
  "stats_add t idx delta = (case t of None \<Rightarrow> Inr (-1, t) | Some cs \<Rightarrow>
     if STAT_COUNT \<le> unat idx then Inr (-1, t)
     else cbind (arr_get cs (unat idx)) (\<lambda>c.
       cbind (arr_set cs (unat idx) (if - 1 - c < delta then - 1 else c + delta)) (\<lambda>cs. Inr (0, Some cs))))"

text \<open>The loops of \<open>stats_snapshot\<close> and \<open>stats_reset_all\<close> from index \<open>i\<close> on.\<close>

function snapshot_loop :: "nat \<Rightarrow> u64 list \<Rightarrow> u64 list \<Rightarrow> u64 list cres" where
  "snapshot_loop i cs out = (if i < STAT_COUNT
     then cbind (arr_get cs i) (\<lambda>v. cbind (arr_set out i v) (snapshot_loop (Suc i) cs)) else Inr out)"
  by pat_completeness auto
termination by (relation "measure (\<lambda>(i, cs, out). STAT_COUNT - i)") auto

function reset_loop :: "nat \<Rightarrow> u64 list \<Rightarrow> u64 list cres" where
  "reset_loop i cs = (if i < STAT_COUNT then cbind (arr_set cs i 0) (reset_loop (Suc i)) else Inr cs)"
  by pat_completeness auto
termination by (relation "measure (\<lambda>(i, cs). STAT_COUNT - i)") auto

declare snapshot_loop.simps [simp del] reset_loop.simps [simp del]

definition stats_snapshot :: "stats_table option \<Rightarrow> u64 list option \<Rightarrow> u64 \<Rightarrow> (int \<times> u64 list option) cres" where
  "stats_snapshot t out out_count = (case (t, out) of
     (Some cs, Some o') \<Rightarrow> if unat out_count < STAT_COUNT then Inr (-1, out)
       else cbind (snapshot_loop 0 cs o') (\<lambda>r. Inr (0, Some r))
   | _ \<Rightarrow> Inr (-1, out))"

definition stats_reset_all :: "stats_table option \<Rightarrow> (int \<times> stats_table option) cres" where
  "stats_reset_all t = (case t of None \<Rightarrow> Inr (-1, t) | Some cs \<Rightarrow> cbind (reset_loop 0 cs) (\<lambda>r. Inr (0, Some r)))"

lemma snapshot_loop_ok:
  assumes "length cs = STAT_COUNT" "STAT_COUNT \<le> length out" "i \<le> STAT_COUNT"
  shows "snapshot_loop i cs out = Inr (take i out @ drop i cs @ drop STAT_COUNT out)"
  using assms
proof (induction i cs out rule: snapshot_loop.induct)
  case (1 i cs out)
  show ?case
  proof (cases "i < STAT_COUNT")
    case True
    then have "drop i cs = cs ! i # drop (Suc i) cs" "take (Suc i) (out[i := cs ! i]) = take i out @ [cs ! i]"
      using 1 by (simp_all add: Cons_nth_drop_Suc take_Suc_conv_app_nth)
    then show ?thesis using 1 True by (subst snapshot_loop.simps) simp
  qed (use 1 in \<open>subst snapshot_loop.simps, simp\<close>)
qed

lemma reset_loop_ok:
  assumes "length cs = STAT_COUNT" "i \<le> STAT_COUNT"
  shows "reset_loop i cs = Inr (take i cs @ replicate (STAT_COUNT - i) 0)"
  using assms
proof (induction i cs rule: reset_loop.induct)
  case (1 i cs)
  show ?case
  proof (cases "i < STAT_COUNT")
    case True
    then have "take (Suc i) (cs[i := 0]) = take i cs @ [0]" "replicate (STAT_COUNT - i) 0 = (0::u64) # replicate (STAT_COUNT - Suc i) 0"
      using 1 by (simp_all add: take_Suc_conv_app_nth Suc_diff_Suc [symmetric])
    then show ?thesis using 1 True by (subst reset_loop.simps) simp
  qed (use 1 in \<open>subst reset_loop.simps, simp\<close>)
qed

lemma saturating_add: "unat (if - 1 - c < delta then - 1 else c + delta :: u64) = min (2 ^ 64 - 1) (unat c + unat delta)"
proof -
  have m: "unat (- 1 - c) = 2 ^ 64 - 1 - unat c"
    by (simp add: unat_sub unsigned_minus_1_eq_mask mask_eq_exp_minus_1)
  have b: "unat c < 2 ^ 64" "unat delta < 2 ^ 64" by (rule unat_bound [where 'a = 64, simplified] | simp)+
  show ?thesis
    using m b by (auto simp: word_less_nat_alt unat_word_ariths unsigned_minus_1_eq_mask mask_eq_exp_minus_1)
qed

text \<open>A sequence of additions to one counter by any threads.\<close>

primrec stats_adds :: "stats_table option \<Rightarrow> u64 \<Rightarrow> u64 list \<Rightarrow> stats_table option cres" where
  "stats_adds t idx [] = Inr t"
| "stats_adds t idx (d # ds) = cbind (stats_add t idx d) (\<lambda>(rc, t). stats_adds t idx ds)"

lemma stats_adds_run:
  assumes "length cs = STAT_COUNT" "unat idx < STAT_COUNT"
  shows "\<exists>v. stats_adds (Some cs) idx ds = Inr (Some (cs[unat idx := v]))
    \<and> unat v = min (2 ^ 64 - 1) (unat (cs ! unat idx) + sum_list (map unat ds))"
  using assms
proof (induction ds arbitrary: cs)
  case Nil
  have "unat (cs ! unat idx) \<le> 2 ^ 64 - 1" using unat_bound [of "cs ! unat idx"] by simp
  then show ?case by (intro exI [of _ "cs ! unat idx"]) simp
next
  case (Cons d ds)
  define c where "c = (if - 1 - cs ! unat idx < d then - 1 else cs ! unat idx + d)"
  have "stats_add (Some cs) idx d = Inr (0, Some (cs[unat idx := c]))"
    using Cons.prems by (simp add: stats_add_def c_def)
  moreover have "unat c = min (2 ^ 64 - 1) (unat (cs ! unat idx) + unat d)"
    unfolding c_def by (rule saturating_add)
  moreover from Cons.IH [of "cs[unat idx := c]"] Cons.prems obtain v where
    "stats_adds (Some (cs[unat idx := c])) idx ds = Inr (Some (cs[unat idx := v]))"
    "unat v = min (2 ^ 64 - 1) (unat c + sum_list (map unat ds))" by auto
  ultimately show ?case by (intro exI [of _ v]) auto
qed

text \<open>
  On a table of \<open>STAT_COUNT\<close> counters: any sequence of additions to a valid index leaves
  the other counters alone and the counter at the sum of its old value and the increments,
  saturated at \<open>UINT64_MAX\<close>; a snapshot is the table; a reset leaves zeros; an index out of
  range is refused and nothing changes.
\<close>

theorem stats_saturating_sum:
  assumes "length cs = STAT_COUNT"
  shows "(if unat idx < STAT_COUNT
      then \<exists>v. stats_adds (Some cs) idx ds = Inr (Some (cs[unat idx := v]))
        \<and> unat v = min (2 ^ 64 - 1) (unat (cs ! unat idx) + sum_list (map unat ds))
        \<and> stats_read (Some (cs[unat idx := v])) idx True = Inr (0, Some v)
      else stats_add (Some cs) idx d = Inr (-1, Some cs) \<and> stats_read (Some cs) idx True = Inr (-1, None))
    \<and> stats_snapshot (Some cs) (Some (replicate STAT_COUNT 0)) (of_nat STAT_COUNT) = Inr (0, Some cs)
    \<and> stats_reset_all (Some cs) = Inr (0, Some (replicate STAT_COUNT 0))"
proof -
  have n: "unat (of_nat STAT_COUNT :: u64) = STAT_COUNT" by (simp add: STAT_COUNT_def)
  have "stats_snapshot (Some cs) (Some (replicate STAT_COUNT 0)) (of_nat STAT_COUNT) = Inr (0, Some cs)"
    using assms by (simp add: stats_snapshot_def n snapshot_loop_ok)
  moreover have "stats_reset_all (Some cs) = Inr (0, Some (replicate STAT_COUNT 0))"
    using assms by (simp add: stats_reset_all_def reset_loop_ok)
  moreover have "\<exists>v. stats_adds (Some cs) idx ds = Inr (Some (cs[unat idx := v]))
        \<and> unat v = min (2 ^ 64 - 1) (unat (cs ! unat idx) + sum_list (map unat ds))
        \<and> stats_read (Some (cs[unat idx := v])) idx True = Inr (0, Some v)" if "unat idx < STAT_COUNT"
    using stats_adds_run [OF assms that, of ds] assms that by (auto simp: stats_read_def)
  ultimately show ?thesis by (simp add: stats_add_def stats_read_def not_less)
qed

theorem stats_saturating_sum_witness:
  "length (replicate 32 0 :: u64 list) = STAT_COUNT
   \<and> (\<exists>v. stats_adds (Some (replicate 32 0)) 3 [- 1, 5] = Inr (Some ((replicate 32 0)[3 := v])) \<and> unat v = 2 ^ 64 - 1)"
proof -
  have l: "length (replicate 32 0 :: u64 list) = STAT_COUNT" by (simp add: STAT_COUNT_def)
  have "unat (3 :: u64) < STAT_COUNT" by (simp add: STAT_COUNT_def)
  with stats_saturating_sum [OF l, of 3 "[- 1, 5]"] obtain v where
    v: "stats_adds (Some (replicate 32 0)) 3 [- 1, 5] = Inr (Some ((replicate 32 0)[unat (3 :: u64) := v]))"
    "unat v = min (2 ^ 64 - 1) (unat (replicate 32 (0 :: u64) ! unat (3 :: u64)) + sum_list (map unat [- 1, 5 :: u64]))"
    by (auto simp del: stats_adds.simps)
  have u: "unat (3 :: u64) = 3" by simp
  have "unat v = 2 ^ 64 - 1" using v(2) by (simp add: unsigned_minus_1_eq_mask mask_eq_exp_minus_1)
  with l v(1) show ?thesis unfolding u by blast
qed

section \<open>thread_safe_pub_sub_dispatcher.c\<close>

text \<open>Callbacks and contexts are pointers: a null pointer is \<open>None\<close>.\<close>

definition MAX_SUBS :: nat where
  "MAX_SUBS = 16"

record subscriber =
  active :: bool
  topic :: u32
  cb :: nat
  ctx :: nat

function subscribe_loop :: "nat \<Rightarrow> subscriber list \<Rightarrow> u32 \<Rightarrow> nat \<Rightarrow> nat \<Rightarrow> bool \<times> subscriber list" where
  "subscribe_loop i subs tp f x = (if i < MAX_SUBS
     then if \<not> active (subs ! i) then (True, subs[i := \<lparr>active = True, topic = tp, cb = f, ctx = x\<rparr>])
       else subscribe_loop (Suc i) subs tp f x
     else (False, subs))"
  by pat_completeness auto
termination by (relation "measure (\<lambda>(i, _). MAX_SUBS - i)") auto

function unsubscribe_loop :: "nat \<Rightarrow> bool \<Rightarrow> subscriber list \<Rightarrow> nat \<Rightarrow> nat \<Rightarrow> bool \<times> subscriber list" where
  "unsubscribe_loop i found subs f x = (if i < MAX_SUBS
     then if cb (subs ! i) = f \<and> ctx (subs ! i) = x \<and> active (subs ! i)
       then unsubscribe_loop (Suc i) True (subs[i := (subs ! i)\<lparr>active := False\<rparr>]) f x
       else unsubscribe_loop (Suc i) found subs f x
     else (found, subs))"
  by pat_completeness auto
termination by (relation "measure (\<lambda>(i, _). MAX_SUBS - i)") auto

text \<open>The calls are collected under the lock and made after it is released, in slot order.\<close>

function publish_loop :: "nat \<Rightarrow> subscriber list \<Rightarrow> u32 \<Rightarrow> (nat \<times> nat) list \<Rightarrow> (nat \<times> nat) list" where
  "publish_loop i subs tp acc = (if i < MAX_SUBS
     then if active (subs ! i) \<and> topic (subs ! i) = tp
       then publish_loop (Suc i) subs tp (acc @ [(cb (subs ! i), ctx (subs ! i))])
       else publish_loop (Suc i) subs tp acc
     else acc)"
  by pat_completeness auto
termination by (relation "measure (\<lambda>(i, _). MAX_SUBS - i)") auto

declare subscribe_loop.simps [simp del] unsubscribe_loop.simps [simp del] publish_loop.simps [simp del]

definition subscribe :: "subscriber list option \<Rightarrow> u32 \<Rightarrow> nat option \<Rightarrow> nat option \<Rightarrow> int \<times> subscriber list option" where
  "subscribe d tp f x = (case (d, f, x) of
     (Some subs, Some f, Some x) \<Rightarrow> let (found, subs) = subscribe_loop 0 subs tp f x in (if found then 0 else -2, Some subs)
   | _ \<Rightarrow> (-1, d))"

definition unsubscribe :: "subscriber list option \<Rightarrow> nat option \<Rightarrow> nat option \<Rightarrow> int \<times> subscriber list option" where
  "unsubscribe d f x = (case (d, f, x) of
     (Some subs, Some f, Some x) \<Rightarrow> let (found, subs) = unsubscribe_loop 0 False subs f x in (if found then 0 else -2, Some subs)
   | _ \<Rightarrow> (-1, d))"

definition publish :: "subscriber list option \<Rightarrow> u32 \<Rightarrow> u32 \<Rightarrow> int \<times> (nat \<times> u32 \<times> nat) list" where
  "publish d tp event_id = (case d of None \<Rightarrow> (-1, [])
     | Some subs \<Rightarrow> (0, map (\<lambda>(f, x). (f, event_id, x)) (publish_loop 0 subs tp [])))"

text \<open>The abstract dispatcher: the multiset of its subscriptions.\<close>

definition entry :: "subscriber \<Rightarrow> u32 \<times> nat \<times> nat" where
  "entry s = (topic s, cb s, ctx s)"

definition subs_abs :: "subscriber list \<Rightarrow> (u32 \<times> nat \<times> nat) multiset" where
  "subs_abs subs = mset (map entry (filter active subs))"

lemma subs_abs_activate:
  assumes "i < length subs" "\<not> active (subs ! i)" "active s"
  shows "subs_abs (subs[i := s]) = add_mset (entry s) (subs_abs subs)"
proof -
  have "subs_abs subs = subs_abs (take i subs @ subs ! i # drop (Suc i) subs)"
    using assms(1) by (simp add: Cons_nth_drop_Suc)
  then show ?thesis using assms by (simp add: subs_abs_def upd_conv_take_nth_drop)
qed

lemma drop_head: "i < length xs \<Longrightarrow> drop i xs = xs ! i # drop (Suc i) xs"
  by (simp add: Cons_nth_drop_Suc)

lemma subscribe_loop_spec:
  assumes "length subs = MAX_SUBS" "i \<le> MAX_SUBS"
  shows "if list_all active (drop i subs) then subscribe_loop i subs tp f x = (False, subs)
    else \<exists>subs'. subscribe_loop i subs tp f x = (True, subs') \<and> length subs' = MAX_SUBS
      \<and> subs_abs subs' = add_mset (tp, f, x) (subs_abs subs)"
  using assms
proof (induction i subs tp f x rule: subscribe_loop.induct)
  case (1 i subs tp f x)
  show ?case
  proof (cases "i < MAX_SUBS")
    case True
    then have d: "drop i subs = subs ! i # drop (Suc i) subs" using 1 by (simp add: drop_head)
    show ?thesis
    proof (cases "active (subs ! i)")
      case False
      then have "subscribe_loop i subs tp f x = (True, subs[i := \<lparr>active = True, topic = tp, cb = f, ctx = x\<rparr>])"
        using True by (simp add: subscribe_loop.simps)
      then show ?thesis using False True 1 d by (simp add: subs_abs_activate entry_def)
    next
      case act: True
      then have "subscribe_loop i subs tp f x = subscribe_loop (Suc i) subs tp f x"
        using True by (subst subscribe_loop.simps) simp
      then show ?thesis using 1 True act d by simp
    qed
  next
    case False
    then show ?thesis using 1 by (subst subscribe_loop.simps) simp
  qed
qed

definition drop_sub :: "nat \<Rightarrow> nat \<Rightarrow> subscriber \<Rightarrow> subscriber" where
  "drop_sub f x s = (if cb s = f \<and> ctx s = x \<and> active s then s\<lparr>active := False\<rparr> else s)"

lemma unsubscribe_loop_spec:
  assumes "length subs = MAX_SUBS" "i \<le> MAX_SUBS"
  shows "unsubscribe_loop i found subs f x =
    (found \<or> (\<exists>s\<in>set (drop i subs). cb s = f \<and> ctx s = x \<and> active s),
     take i subs @ map (drop_sub f x) (drop i subs))"
  using assms
proof (induction i found subs f x rule: unsubscribe_loop.induct)
  case (1 i found subs f x)
  show ?case
  proof (cases "i < MAX_SUBS")
    case True
    then have d: "drop i subs = subs ! i # drop (Suc i) subs" and t: "take (Suc i) (subs[i := s]) = take i subs @ [s]"
      "take (Suc i) subs = take i subs @ [subs ! i]" for s
      using 1 by (simp_all add: drop_head take_Suc_conv_app_nth)
    show ?thesis
    proof (cases "cb (subs ! i) = f \<and> ctx (subs ! i) = x \<and> active (subs ! i)")
      case hit: True
      then have "unsubscribe_loop i found subs f x
          = unsubscribe_loop (Suc i) True (subs[i := (subs ! i)\<lparr>active := False\<rparr>]) f x"
        using True by (subst unsubscribe_loop.simps) simp
      then show ?thesis using 1(1) [OF True hit] 1 True hit d t by (simp add: drop_sub_def)
    next
      case miss: False
      then have "unsubscribe_loop i found subs f x = unsubscribe_loop (Suc i) found subs f x"
        using True by (subst unsubscribe_loop.simps) auto
      then show ?thesis using 1(2) [OF True miss] 1 True miss d t by (auto simp: drop_sub_def)
    qed
  next
    case False
    then show ?thesis using 1 by (subst unsubscribe_loop.simps) simp
  qed
qed

lemma publish_loop_spec:
  assumes "length subs = MAX_SUBS" "i \<le> MAX_SUBS"
  shows "publish_loop i subs tp acc =
    acc @ map (\<lambda>s. (cb s, ctx s)) (filter (\<lambda>s. active s \<and> topic s = tp) (drop i subs))"
  using assms
proof (induction i subs tp acc rule: publish_loop.induct)
  case (1 i subs tp acc)
  show ?case
  proof (cases "i < MAX_SUBS")
    case True
    then have "drop i subs = subs ! i # drop (Suc i) subs" using 1 by (simp add: drop_head)
    with 1 True show ?thesis by (subst publish_loop.simps) auto
  next
    case False
    then show ?thesis using 1 by (subst publish_loop.simps) simp
  qed
qed

lemma subs_abs_drop: "subs_abs (map (drop_sub f x) subs) = filter_mset (\<lambda>(_, g, y). \<not> (g = f \<and> y = x)) (subs_abs subs)"
  by (induction subs) (auto simp: subs_abs_def drop_sub_def entry_def)

lemma subs_abs_size: "size (subs_abs subs) = length (filter active subs)"
  unfolding subs_abs_def by (simp only: size_mset length_map)

lemma all_active_size: "list_all active subs \<longleftrightarrow> length (filter active subs) = length subs"
  by (induction subs) (auto, metis Suc_n_not_le_n length_filter_le)

text \<open>
  C19. The dispatcher with its 16 slots is the multiset of its subscriptions. \<open>subscribe\<close> adds
  one, or returns \<open>-2\<close> and changes nothing exactly when 16 are there; \<open>unsubscribe\<close> removes
  every subscription of the callback and context, or returns \<open>-2\<close> when there is none;
  \<open>publish\<close> calls the callbacks of exactly the subscriptions to the topic, each once, with
  the event and its context.
\<close>

theorem pubsub_refines_multiset:
  assumes "length subs = MAX_SUBS"
  shows "(\<exists>subs'. subscribe (Some subs) tp (Some f) (Some x) = (if size (subs_abs subs) < MAX_SUBS then 0 else -2, Some subs')
      \<and> length subs' = MAX_SUBS
      \<and> subs_abs subs' = (if size (subs_abs subs) < MAX_SUBS then add_mset (tp, f, x) (subs_abs subs) else subs_abs subs))
    \<and> (\<exists>subs'. unsubscribe (Some subs) (Some f) (Some x)
          = (if \<exists>t. (t, f, x) \<in># subs_abs subs then 0 else -2, Some subs')
      \<and> length subs' = MAX_SUBS
      \<and> subs_abs subs' = filter_mset (\<lambda>(_, g, y). \<not> (g = f \<and> y = x)) (subs_abs subs))
    \<and> (\<exists>calls. publish (Some subs) tp ev = (0, calls)
      \<and> mset calls = image_mset (\<lambda>(_, g, y). (g, ev, y)) (filter_mset (\<lambda>(t, _, _). t = tp) (subs_abs subs)))"
proof (intro conjI)
  have full: "list_all active subs \<longleftrightarrow> \<not> size (subs_abs subs) < MAX_SUBS"
    using assms length_filter_le [of active subs] by (auto simp: all_active_size subs_abs_size)
  show "\<exists>subs'. subscribe (Some subs) tp (Some f) (Some x) = (if size (subs_abs subs) < MAX_SUBS then 0 else -2, Some subs')
      \<and> length subs' = MAX_SUBS
      \<and> subs_abs subs' = (if size (subs_abs subs) < MAX_SUBS then add_mset (tp, f, x) (subs_abs subs) else subs_abs subs)"
    using subscribe_loop_spec [OF assms, of 0 tp f x] full assms
    by (cases "list_all active subs") (auto simp: subscribe_def)
  have "(\<exists>s\<in>set subs. cb s = f \<and> ctx s = x \<and> active s) \<longleftrightarrow> (\<exists>t. (t, f, x) \<in># subs_abs subs)"
    by (force simp: subs_abs_def entry_def)
  then show "\<exists>subs'. unsubscribe (Some subs) (Some f) (Some x) = (if \<exists>t. (t, f, x) \<in># subs_abs subs then 0 else -2, Some subs')
      \<and> length subs' = MAX_SUBS
      \<and> subs_abs subs' = filter_mset (\<lambda>(_, g, y). \<not> (g = f \<and> y = x)) (subs_abs subs)"
    using assms by (simp add: unsubscribe_def unsubscribe_loop_spec subs_abs_drop)
  have "mset (map (\<lambda>(f, x). (f, ev, x)) (map (\<lambda>s. (cb s, ctx s)) (filter (\<lambda>s. active s \<and> topic s = tp) ss)))
      = image_mset (\<lambda>(_, g, y). (g, ev, y)) (filter_mset (\<lambda>(t, _, _). t = tp) (subs_abs ss))" for ss
    by (induction ss) (auto simp: subs_abs_def entry_def)
  then show "\<exists>calls. publish (Some subs) tp ev = (0, calls)
      \<and> mset calls = image_mset (\<lambda>(_, g, y). (g, ev, y)) (filter_mset (\<lambda>(t, _, _). t = tp) (subs_abs subs))"
    using assms by (simp add: publish_def publish_loop_spec)
qed

theorem pubsub_refines_multiset_witness:
  "length (replicate 16 \<lparr>active = False, topic = 0, cb = 0, ctx = 0\<rparr>) = MAX_SUBS
   \<and> (\<exists>subs. subscribe (Some (replicate 16 \<lparr>active = False, topic = 0, cb = 0, ctx = 0\<rparr>)) 7 (Some 1) (Some 2) = (0, Some subs)
       \<and> subs_abs subs = {#(7, 1, 2)#})"
proof -
  have l: "length (replicate 16 \<lparr>active = False, topic = 0, cb = 0, ctx = 0\<rparr>) = MAX_SUBS" by (simp add: MAX_SUBS_def)
  have e: "subs_abs (replicate 16 \<lparr>active = False, topic = 0, cb = 0, ctx = 0\<rparr>) = {#}" by (simp add: subs_abs_def)
  have "(0::nat) < MAX_SUBS" by (simp add: MAX_SUBS_def)
  with pubsub_refines_multiset [OF l, of 7 1 2 0] l show ?thesis unfolding e by auto
qed

section \<open>reset_race_state_guard.c\<close>

datatype module_state = MOD_READY | MOD_ACTIVE | MOD_RESETTING | MOD_FAULTED

record fw_module =
  mod_state :: module_state
  inflight :: u32

definition try_submit_command :: "fw_module \<Rightarrow> bool \<times> fw_module" where
  "try_submit_command m =
     (if mod_state m = MOD_READY \<or> mod_state m = MOD_ACTIVE then (True, m\<lparr>inflight := inflight m + 1\<rparr>) else (False, m))"

definition command_completed :: "fw_module \<Rightarrow> fw_module" where
  "command_completed m = m\<lparr>inflight := inflight m - 1\<rparr>"

definition begin_reset :: "fw_module \<Rightarrow> bool \<times> fw_module" where
  "begin_reset m = (if 0 < inflight m then (False, m\<lparr>mod_state := MOD_RESETTING\<rparr>) else (True, m))"

datatype mod_op = Submit | Complete | Reset

text \<open>Calls by any threads, with the commands accepted so far counted.\<close>

fun mod_call :: "mod_op \<Rightarrow> nat \<times> fw_module \<Rightarrow> nat \<times> fw_module" where
  "mod_call Submit (n, m) = (let (ok, m) = try_submit_command m in (if ok then Suc n else n, m))"
| "mod_call Complete (n, m) = (n, command_completed m)"
| "mod_call Reset (n, m) = (n, snd (begin_reset m))"

text \<open>
  The reset guard. A reset that finds commands in flight puts the module in
  \<open>MOD_RESETTING\<close>, and no later sequence of calls has a command accepted. A reset that finds
  none succeeds and does not change the module, so the next submission to a ready module is
  accepted while the reset is under way. A completion with no command in flight wraps the
  counter to its maximum.
\<close>

theorem reset_guard:
  "(0 < inflight m \<longrightarrow> begin_reset m = (False, m\<lparr>mod_state := MOD_RESETTING\<rparr>)
      \<and> fst (fold mod_call calls (n, snd (begin_reset m))) = n
      \<and> mod_state (snd (fold mod_call calls (n, snd (begin_reset m)))) = MOD_RESETTING)
   \<and> (inflight m = 0 \<longrightarrow> begin_reset m = (True, m) \<and> inflight (command_completed m) = - 1
      \<and> (mod_state m = MOD_READY \<longrightarrow> fst (try_submit_command (snd (begin_reset m)))))"
proof -
  have "fst (fold mod_call calls (n, m)) = n \<and> mod_state (snd (fold mod_call calls (n, m))) = MOD_RESETTING"
    if "mod_state m = MOD_RESETTING" for m n
    using that
  proof (induction calls arbitrary: m)
    case (Cons c calls)
    have "\<exists>m'. mod_call c (n, m) = (n, m') \<and> mod_state m' = MOD_RESETTING"
      using Cons.prems by (cases c) (auto simp: try_submit_command_def command_completed_def begin_reset_def)
    then show ?case using Cons.IH by auto
  qed simp
  then show ?thesis
    by (auto simp: begin_reset_def command_completed_def try_submit_command_def word_gt_0)
qed

theorem reset_guard_witness:
  "0 < inflight \<lparr>mod_state = MOD_ACTIVE, inflight = 2\<rparr>
   \<and> fst (fold mod_call [Complete, Submit] (0, snd (begin_reset \<lparr>mod_state = MOD_ACTIVE, inflight = 2\<rparr>))) = 0
   \<and> fst (try_submit_command (snd (begin_reset \<lparr>mod_state = MOD_READY, inflight = 0\<rparr>)))"
  using reset_guard [of "\<lparr>mod_state = MOD_ACTIVE, inflight = 2\<rparr>" "[Complete, Submit]" 0]
    reset_guard [of "\<lparr>mod_state = MOD_READY, inflight = 0\<rparr>" "[]" 0] by auto

section \<open>completion_vs_timeout_race.c\<close>

datatype completion_state = COMP_IDLE | COMP_PENDING | COMP_DONE | COMP_TIMED_OUT | COMP_CANCELED

record completion =
  comp_state :: completion_state
  comp_generation :: u64

definition comp_arm :: "completion \<Rightarrow> u64 \<times> completion" where
  "comp_arm c = (let c = c\<lparr>comp_generation := comp_generation c + 1, comp_state := COMP_PENDING\<rparr> in (comp_generation c, c))"

text \<open>
  \<open>comp_wait_timeout\<close> between two waits: the test at the start, and the code from the loop
  condition on, whatever the last timed wait returned. The flag says whether the mutex is
  released; falling off the end of the function leaves the caller without a value.
\<close>

definition comp_enter :: "completion \<Rightarrow> u64 \<Rightarrow> (int \<times> bool) option" where
  "comp_enter c gen = (if comp_generation c \<noteq> gen \<or> comp_state c \<noteq> COMP_PENDING then Some (-1, False) else None)"

definition comp_wait_round :: "bool \<Rightarrow> completion \<Rightarrow> (int cres \<times> bool, completion) attempt" where
  "comp_wait_round timed_out c =
     (if comp_state c = COMP_PENDING then Wait
      else if comp_state c = COMP_DONE then Ret (Inr 0, True) c False
      else if comp_state c = COMP_CANCELED then Ret (Inr (-3), True) c False
      else if timed_out \<and> comp_state c = COMP_PENDING then Ret (Inr (-2), True) (c\<lparr>comp_state := COMP_TIMED_OUT\<rparr>) False
      else Ret (Inl Missing_Return, False) c False)"

text \<open>
  A pending operation keeps waiting after a timeout, so the timeout is never reported; a
  stale wait returns with the mutex held.
\<close>

lemma comp_never_times_out:
  "comp_state c = COMP_PENDING \<Longrightarrow> comp_wait_round timed_out c = Wait"
  "comp_wait_round timed_out c \<noteq> Ret (Inr (-2), r) c' b"
  by (auto simp: comp_wait_round_def)

lemma comp_arm_enter: "comp_arm c = (gen, c') \<Longrightarrow> comp_enter c' gen = None \<and> gen = comp_generation c + 1
    \<and> comp_enter c' (comp_generation c) = Some (-1, False)"
  by (auto simp: comp_arm_def comp_enter_def Let_def)

section \<open>implement_rdwrlock.c\<close>

record cv_rwlock =
  cv_num_readers :: u64
  locked :: bool

text \<open>
  The critical sections: a call returns or waits, and a woken reader goes on at the loop.
\<close>

definition rdlock_loop :: "cv_rwlock \<Rightarrow> (int, cv_rwlock) attempt" where
  "rdlock_loop p = (if locked p then Wait
     else Ret 0 (p\<lparr>cv_num_readers := cv_num_readers p + 1, locked := True\<rparr>) False)"

definition pthread_rwlock_rdlock :: "cv_rwlock option \<Rightarrow> (int, cv_rwlock option) attempt" where
  "pthread_rwlock_rdlock p = (case p of None \<Rightarrow> Ret (-1) None False | Some p \<Rightarrow>
     if 0 < cv_num_readers p then Ret 0 (Some (p\<lparr>cv_num_readers := cv_num_readers p + 1\<rparr>)) False
     else (case rdlock_loop p of Wait \<Rightarrow> Wait | Ret r q b \<Rightarrow> Ret r (Some q) b))"

definition pthread_rwlock_wrlock :: "cv_rwlock option \<Rightarrow> (int, cv_rwlock option) attempt" where
  "pthread_rwlock_wrlock p = (case p of None \<Rightarrow> Ret (-1) None False | Some p \<Rightarrow>
     if locked p then Wait else Ret 0 (Some (p\<lparr>locked := True\<rparr>)) False)"

text \<open>Who has been granted the lock: the number of readers and of writers.\<close>

definition cv_inv :: "cv_rwlock \<Rightarrow> nat \<Rightarrow> nat \<Rightarrow> bool" where
  "cv_inv p readers writers \<longleftrightarrow> unat (cv_num_readers p) = readers \<and> writers \<le> 1
     \<and> (0 < readers \<longrightarrow> writers = 0) \<and> (locked p \<longleftrightarrow> 0 < readers + writers)"

lemma rdlock_inv:
  assumes "cv_inv p r w" "r + 1 < 2 ^ 64" "pthread_rwlock_rdlock (Some p) = Ret rc (Some q) b"
  shows "rc = 0 \<and> w = 0 \<and> cv_inv q (r + 1) w"
proof -
  have "unat (cv_num_readers p + 1) = r + 1"
    using assms(1,2) by (simp add: cv_inv_def unat_word_ariths)
  then show ?thesis
    using assms by (auto simp: pthread_rwlock_rdlock_def rdlock_loop_def cv_inv_def word_gt_0 unat_eq_0 split: if_splits)
qed

lemma wrlock_inv:
  "cv_inv p r w \<Longrightarrow> pthread_rwlock_wrlock (Some p) = Ret rc (Some q) b \<Longrightarrow> rc = 0 \<and> r + w = 0 \<and> cv_inv q r (w + 1)"
  by (auto simp: pthread_rwlock_wrlock_def cv_inv_def split: if_splits)

end
