(* ===== verification/Vector_Programs.thy ===== *)
theory Vector_Programs
  imports Locking
begin

text \<open>
  The rest of the driver of \<open>32_ConcurrencyBugs\<close>: the option parsing of \<open>main-common.c\<close> up to the
  start of the threads; and \<open>27_ThreadAPI/main-race.c\<close>.
\<close>

section \<open>Options of the driver\<close>

record options =
  o_loops :: int
  o_verbose :: bool
  o_num_threads :: int
  o_do_timing :: bool
  o_cause_deadlock :: bool
  o_enable_parallelism :: bool

definition default_options :: options where
  "default_options = \<lparr>o_loops = 1, o_verbose = False, o_num_threads = 2, o_do_timing = False,
     o_cause_deadlock = False, o_enable_parallelism = False\<rparr>"

text \<open>The loop over \<open>getopt\<close>; \<open>None\<close> is the exit through \<open>usage\<close>.\<close>

fun parse_options :: "(char \<times> string) list \<Rightarrow> options \<Rightarrow> options option cres" where
  "parse_options [] opts = Inr (Some opts)"
| "parse_options ((c, optarg) # cs) opts =
     (if c = CHR ''l'' then cbind (c_atoi optarg) (\<lambda>n. parse_options cs (opts\<lparr>o_loops := n\<rparr>))
      else if c = CHR ''n'' then cbind (c_atoi optarg) (\<lambda>n. parse_options cs (opts\<lparr>o_num_threads := n\<rparr>))
      else if c = CHR ''v'' then parse_options cs (opts\<lparr>o_verbose := True\<rparr>)
      else if c = CHR ''t'' then parse_options cs (opts\<lparr>o_do_timing := True\<rparr>)
      else if c = CHR ''d'' then parse_options cs (opts\<lparr>o_cause_deadlock := True\<rparr>)
      else if c = CHR ''p'' then parse_options cs (opts\<lparr>o_enable_parallelism := True\<rparr>)
      else Inr None)"

datatype start = Usage | Assert_Failed | Started options

definition main_start :: "string list \<Rightarrow> start cres" where
  "main_start args =
     cbind (parse_options (fst (getopts ''l:n:vtdp'' args)) default_options) (\<lambda>r. Inr (case r of
       None \<Rightarrow> Usage
     | Some opts \<Rightarrow> if o_num_threads opts < int MAX_THREADS then Started opts else Assert_Failed))"

text \<open>The threads that \<open>main\<close> creates; its loops run zero times for a negative bound.\<close>

definition main_threads :: "(nat \<Rightarrow> nat \<Rightarrow> (vlock, vectors) instr list) \<Rightarrow> options
    \<Rightarrow> (vlock, vectors) instr list list" where
  "main_threads vector_add opts =
     main_scripts vector_add (o_verbose opts) (o_enable_parallelism opts) (o_cause_deadlock opts)
       (nat (o_loops opts)) (nat (o_num_threads opts))"

text \<open>The type of \<open>v\<close>: an array of vectors of \<open>VECTOR_SIZE\<close> values of type \<open>int\<close>.\<close>

definition vecs_ok :: "vectors \<Rightarrow> bool" where
  "vecs_ok vs \<longleftrightarrow> length vs = 2 * MAX_THREADS
     \<and> (\<forall>v \<in> set vs. length v = VECTOR_SIZE \<and> (\<forall>x \<in> set v. int_range x))"

definition mem_ok :: "vectors cres \<Rightarrow> bool" where
  "mem_ok m \<longleftrightarrow> (case m of Inl e \<Rightarrow> e = Signed_Overflow | Inr vs \<Rightarrow> vecs_ok vs)"

lemma vecs_ok_vec: "vecs_ok vs \<Longrightarrow> i < 2 * MAX_THREADS \<Longrightarrow> vec_ok vs i"
  by (simp add: vecs_ok_def vec_ok_def)

lemma mem_ok_init: "mem_ok (Inr v_init)"
  by (simp add: mem_ok_def vecs_ok_def v_init_def vector_init_def int_range_def INT_MIN_def INT_MAX_def MAX_THREADS_def)

lemma vecs_ok_update:
  assumes "vecs_ok vs" "d < 2 * MAX_THREADS" "int_range c"
  shows "vecs_ok (vs[d := (vs ! d)[i := c]])"
proof -
  have "vs ! d \<in> set vs" using assms(1,2) by (simp add: vecs_ok_def)
  then have "length (vs ! d) = VECTOR_SIZE" "\<forall>x \<in> set (vs ! d). int_range x"
    using assms(1) by (simp_all add: vecs_ok_def)
  then have "\<forall>x \<in> set ((vs ! d)[i := c]). int_range x"
    using assms(3) set_update_subset_insert [of "vs ! d" i c] by blast
  moreover have "v \<in> set vs \<or> v = (vs ! d)[i := c]" if "v \<in> set (vs[d := (vs ! d)[i := c]])" for v
    using that set_update_subset_insert [of vs d "(vs ! d)[i := c]"] by blast
  ultimately show ?thesis
    using assms(1) \<open>length (vs ! d) = VECTOR_SIZE\<close> unfolding vecs_ok_def by (metis length_list_update)
qed

lemma add_elem_mem_ok:
  assumes "mem_ok m" "d < 2 * MAX_THREADS" "s < 2 * MAX_THREADS" "i < VECTOR_SIZE"
  shows "mem_ok (cbind m (add_elem d s i))"
proof (cases m)
  case (Inr vs)
  then have "vecs_ok vs" using assms(1) by (simp add: mem_ok_def)
  then show ?thesis
    using Inr assms(4) vecs_ok_update [OF _ assms(2)] vecs_ok_vec [OF _ assms(2)] vecs_ok_vec [OF _ assms(3)]
    by (cases "int_range (vs ! d ! i + vs ! s ! i)") (simp_all add: add_elem_ok mem_ok_def c_int_def)
qed (use assms(1) in simp)

text \<open>The actions of the threads that \<open>main\<close> creates.\<close>

lemma main_arg_vectors:
  assumes "i < MAX_THREADS"
  shows "vector_0 (main_arg par dl i) < 2 * MAX_THREADS" "vector_1 (main_arg par dl i) < 2 * MAX_THREADS"
  using assms by (simp_all add: main_arg_def MAX_THREADS_def)

definition good_act :: "(vectors \<Rightarrow> vectors cres) \<Rightarrow> bool" where
  "good_act f \<longleftrightarrow> f = Inr \<or>
     (\<exists>d s i. f = add_elem d s i \<and> d < 2 * MAX_THREADS \<and> s < 2 * MAX_THREADS \<and> i < VECTOR_SIZE)"

lemma good_act_mem_ok: "good_act f \<Longrightarrow> mem_ok m \<Longrightarrow> mem_ok (cbind m f)"
  unfolding good_act_def by (elim disjE exE conjE) (cases m, simp_all add: add_elem_mem_ok)

lemma acts_concat: "acts (concat css) = concat (map acts css)"
  by (induction css) simp_all

lemma main_threads_acts:
  assumes "\<And>d s. set (acts (vector_add d s)) \<subseteq> add_elem d s ` {..<VECTOR_SIZE}"
    and "o_num_threads opts < int MAX_THREADS" "f \<in> set (acts (concat (main_threads vector_add opts)))"
  shows "good_act f"
proof -
  from assms(3) obtain i where i: "i < nat (o_num_threads opts)"
    "f \<in> set (acts (worker vector_add (o_verbose opts) (nat (o_loops opts))
       (main_arg (o_enable_parallelism opts) (o_cause_deadlock opts) i)))"
    by (auto simp: main_threads_def main_scripts_def acts_concat)
  have "i < MAX_THREADS" using i(1) assms(2) by simp
  note v = main_arg_vectors [OF this]
  have "good_act f" if "f \<in> set (acts (vector_add d s))" "d < 2 * MAX_THREADS" "s < 2 * MAX_THREADS" for d s
    using that assms(1) [of d s] by (auto simp: good_act_def)
  moreover have "good_act f" if "f \<in> set (acts (print_info b))" for b
    using that print_info_acts [of b] by (auto simp: good_act_def)
  ultimately show ?thesis using i(2) v by (auto simp: worker_def acts_concat Let_def split: if_splits)
qed

lemma main_start_threads: "main_start args = Inr (Started opts) \<Longrightarrow> o_num_threads opts < int MAX_THREADS"
  by (auto simp: main_start_def split: option.splits if_splits)

lemma main_threads_work:
  assumes "\<And>d s. length (vector_add d s) \<le> k"
  shows "work_left (lm_init (main_threads vector_add opts) v)
    \<le> nat (o_num_threads opts) * (nat (o_loops opts) * (k + 6))"
proof -
  have "length (worker vector_add b l a) \<le> l * (k + 6)" for b l a
    using assms [of "vector_0 a" "vector_1 a"] assms [of "vector_1 a" "vector_0 a"]
    by (auto simp: worker_def print_info_def length_concat sum_list_replicate split: if_splits)
  then have "sum_list (map (\<lambda>i. length (worker vector_add b l (a i))) [0..<n]) \<le> n * (l * (k + 6))" for b l a n
    by (induction n) (simp_all add: add_mono add.commute)
  then show ?thesis by (simp add: work_left_def lm_init_def main_threads_def main_scripts_def comp_def)
qed

lemma global_order_acts: "set (acts (vector_add_global_order d s)) \<subseteq> add_elem d s ` {..<VECTOR_SIZE}"
  by (auto simp: vector_add_global_order_def add_loop_acts)

lemma deadlock_acts: "set (acts (vector_add_deadlock d s)) \<subseteq> add_elem d s ` {..<VECTOR_SIZE}"
  by (auto simp: vector_add_deadlock_def add_loop_acts)

lemma hold_and_wait_acts: "set (acts (vector_add_hold_and_wait d s)) \<subseteq> add_elem d s ` {..<VECTOR_SIZE}"
  by (auto simp: vector_add_hold_and_wait_def add_loop_acts)

lemma main_threads_mem_ok:
  assumes "\<And>d s. set (acts (vector_add d s)) \<subseteq> add_elem d s ` {..<VECTOR_SIZE}"
    and "main_start args = Inr (Started opts)" "lm_reach (main_threads vector_add opts) v_init s"
  shows "mem_ok (mem s)"
proof (rule lm_mem_cres_inv [where Q = mem_ok, OF _ mem_ok_init assms(3)])
  show "\<forall>f \<in> set (acts (concat (main_threads vector_add opts))). \<forall>d. mem_ok d \<longrightarrow> mem_ok (cbind d f)"
    using main_threads_acts [OF assms(1) main_start_threads [OF assms(2)]] by (blast intro: good_act_mem_ok)
qed

lemma global_order_length: "length (vector_add_global_order d s) \<le> VECTOR_SIZE + 4"
  by (simp add: vector_add_global_order_def add_loop_def)

lemma global_order_obey:
  "\<forall>cs \<in> set (main_threads vector_add_global_order opts). obeys (in_order vrank) {} cs"
  unfolding main_threads_def by (rule main_scripts_obey) (simp_all add: global_order_obeys)

text \<open>
  C15. Whatever the command line, once the global-order program has started its threads it
  ends: every run has at most \<open>num_threads * loops * (VECTOR_SIZE + 10)\<close> steps, a run that
  cannot go on has finished all its threads, and on the way no thread reads or writes
  outside \<open>v\<close> or a vector. The only undefined step left is an \<open>int\<close> sum that overflows.
\<close>

theorem global_order_terminates:
  assumes "main_start args = Inr (Started opts)"
    and "(lm_step ^^ k) (lm_init (main_threads vector_add_global_order opts) v_init) s"
  shows "k \<le> nat (o_num_threads opts) * (nat (o_loops opts) * (VECTOR_SIZE + 10))
    \<and> (lm_done s \<or> (\<exists>t. lm_step s t)) \<and> (mem s = Inl e \<longrightarrow> e = Signed_Overflow)"
proof (intro conjI)
  show "k \<le> nat (o_num_threads opts) * (nat (o_loops opts) * (VECTOR_SIZE + 10))"
    using lm_steps_bounded [OF assms(2)] main_threads_work [of vector_add_global_order, OF global_order_length, of opts v_init]
    by (simp add: add.commute)
  have reach: "lm_reach (main_threads vector_add_global_order opts) v_init s"
    using assms(2) by (auto simp: lm_reach_def dest: relpowp_imp_rtranclp)
  from rank_order.never_stuck [OF lm_inv_reach [OF global_order_obey reach]]
  show "lm_done s \<or> (\<exists>t. lm_step s t)" by (auto simp: lm_stuck_def)
  from main_threads_mem_ok [OF global_order_acts assms(1) reach] have "mem_ok (mem s)" .
  then show "mem s = Inl e \<longrightarrow> e = Signed_Overflow" by (auto simp: mem_ok_def)
qed

theorem global_order_terminates_witness:
  "\<exists>opts k s. main_start [''-vdn'', ''3'', ''-l'', ''2''] = Inr (Started opts)
     \<and> (lm_step ^^ k) (lm_init (main_threads vector_add_global_order opts) v_init) s \<and> lm_done s \<and> k \<le> 660"
proof -
  let ?o = "\<lparr>o_loops = 2, o_verbose = True,
     o_num_threads = 3, o_do_timing = False, o_cause_deadlock = True, o_enable_parallelism = False\<rparr>"
  have start: "main_start [''-vdn'', ''3'', ''-l'', ''2''] = Inr (Started ?o)" by code_simp
  obtain s where s: "lm_step\<^sup>*\<^sup>* (lm_init (main_threads vector_add_global_order ?o) v_init) s" "lm_done s"
    using rank_order.completes [OF global_order_obey lm_reach_init] by blast
  from rtranclp_imp_relpowp [OF s(1)] obtain k where
    k: "(lm_step ^^ k) (lm_init (main_threads vector_add_global_order ?o) v_init) s" by blast
  from global_order_terminates [OF start k] have "k \<le> 660" by (simp add: VECTOR_SIZE_def)
  with start k s(2) show ?thesis by blast
qed

text \<open>
  C25. The typing of the shared data. Under every command line that starts threads, and for each
  of the three locked variants of \<open>vector_add\<close> (the one that can deadlock included), every
  reachable state has the threads that \<open>main\<close> created, every mutex is free or held by one of
  them, and \<open>v\<close> still is an array of \<open>2 * MAX_THREADS\<close> vectors of \<open>VECTOR_SIZE\<close> values of type
  \<open>int\<close>. A signed sum that overflows is the only access that C leaves undefined: no index
  of \<open>v\<close> or of a vector is out of bounds.
\<close>

theorem vectors_stay_typed:
  assumes "main_start args = Inr (Started opts)"
    and "vector_add \<in> {vector_add_deadlock, vector_add_global_order, vector_add_hold_and_wait}"
    and "lm_reach (main_threads vector_add opts) v_init s"
  shows "length (todo s) = nat (o_num_threads opts)
    \<and> (holder s m = None \<or> (\<exists>i. holder s m = Some i \<and> i < nat (o_num_threads opts)))
    \<and> (case mem s of Inl e \<Rightarrow> e = Signed_Overflow
       | Inr vs \<Rightarrow> length vs = 2 * MAX_THREADS
           \<and> (\<forall>v \<in> set vs. length v = VECTOR_SIZE \<and> (\<forall>x \<in> set v. int_range x)))"
proof -
  have "set (acts (vector_add d s)) \<subseteq> add_elem d s ` {..<VECTOR_SIZE}" for d s
    using assms(2) deadlock_acts global_order_acts hold_and_wait_acts by blast
  from main_threads_mem_ok [OF this assms(1,3)] have "mem_ok (mem s)" .
  moreover have "length (main_threads vector_add opts) = nat (o_num_threads opts)"
    by (simp add: main_threads_def main_scripts_def)
  ultimately show ?thesis
    using lm_reach_threads [OF assms(3), of m] by (cases "holder s m") (simp_all add: mem_ok_def vecs_ok_def split: sum.splits)
qed

theorem vectors_stay_typed_witness:
  "\<exists>opts s. main_start [''-n4'', ''-d''] = Inr (Started opts)
     \<and> lm_reach (main_threads vector_add_global_order opts) v_init s \<and> lm_done s \<and> todo s = [[], [], [], []]
     \<and> (case mem s of Inl e \<Rightarrow> e = Signed_Overflow | Inr vs \<Rightarrow> length vs = 200 \<and> length (hd vs) = 100)"
proof -
  let ?o = "default_options\<lparr>o_num_threads := 4, o_cause_deadlock := True\<rparr>"
  have start: "main_start [''-n4'', ''-d''] = Inr (Started ?o)" by code_simp
  obtain s where s: "lm_step\<^sup>*\<^sup>* (lm_init (main_threads vector_add_global_order ?o) v_init) s" "lm_done s"
    using rank_order.completes [OF global_order_obey lm_reach_init] by blast
  then have reach: "lm_reach (main_threads vector_add_global_order ?o) v_init s" by (simp add: lm_reach_def)
  note typed = vectors_stay_typed [OF start _ reach, simplified]
  have "length (todo s) = 4" using typed by simp
  with s(2) have "todo s = replicate 4 []" using replicate_eqI [of "todo s" 4 "[]"] by (simp add: lm_done_def)
  then have "todo s = [[], [], [], []]" by (simp add: numeral_eq_Suc)
  moreover have "case mem s of Inl e \<Rightarrow> e = Signed_Overflow | Inr vs \<Rightarrow> length vs = 200 \<and> length (hd vs) = 100"
  proof (cases "mem s")
    case (Inr vs)
    with typed have vs: "length vs = 200" "\<forall>v \<in> set vs. length v = 100" by (simp_all add: MAX_THREADS_def VECTOR_SIZE_def)
    then have "hd vs \<in> set vs" by (intro hd_in_set) auto
    with vs Inr show ?thesis by simp
  qed (use typed in simp)
  ultimately show ?thesis using start reach s(2) by blast
qed

section \<open>27\_ThreadAPI/main-race.c\<close>

text \<open>
  \<open>main\<close> from the creation of the thread up to \<open>Pthread_join\<close>, which returns once both
  scripts are done.
\<close>

datatype race_lock = Race_Lock

definition balance_inc :: "int \<Rightarrow> int cres" where
  "balance_inc balance = c_int (balance + 1)"

definition race_worker :: "(race_lock, int) instr list" where
  "race_worker = [Lock Race_Lock, Act [Race_Lock] balance_inc, Unlock Race_Lock]"

definition race_main :: "(race_lock, int) instr list" where
  "race_main = [Lock Race_Lock, Act [Race_Lock] balance_inc, Unlock Race_Lock]"

lemma race_obeys: "\<forall>cs \<in> set [race_main, race_worker]. obeys (in_order (\<lambda>_. 0 :: nat)) {} cs"
  by (simp add: race_main_def race_worker_def)

text \<open>
  Despite its name and its comments (\<open>unprotected access\<close>), \<open>main-race.c\<close> has no data race:
  both increments are made with the mutex held. Every run ends, with \<open>balance\<close> 2.
\<close>

theorem main_race_has_no_race:
  assumes "lm_reach [race_main, race_worker] 0 s"
  shows "\<not> lm_race s \<and> (\<exists>t. lm_step\<^sup>*\<^sup>* s t \<and> lm_done t) \<and> (lm_done s \<longrightarrow> mem s = Inr 2)"
proof -
  have comm: "commuting (\<lambda>_. True) {balance_inc}" by (simp add: commuting_def)
  have "mem s = run_script (concat [race_main, race_worker]) (Inr 0)" if "lm_done s"
    by (rule lm_done_result [OF comm _ _ assms that]) (simp_all add: race_main_def race_worker_def)
  moreover have "run_script (concat [race_main, race_worker]) (Inr 0) = Inr 2"
    by (simp add: race_main_def race_worker_def balance_inc_def c_int_def int_range_def INT_MAX_def INT_MIN_def)
  ultimately show ?thesis
    using rank_order.no_race [OF race_obeys assms] rank_order.completes [OF race_obeys assms] by simp
qed

theorem main_race_has_no_race_witness:
  "\<not> lm_race (lm_init [race_main, race_worker] 0)
   \<and> (\<exists>t. lm_step\<^sup>*\<^sup>* (lm_init [race_main, race_worker] 0) t \<and> lm_done t)"
  using main_race_has_no_race [OF lm_reach_init] by blast

end
