(* ===== verification/Try_Wait.thy ===== *)
theory Try_Wait
  imports Locking
begin

text \<open>
  The two variants of \<open>vector_add\<close> in \<open>32_ConcurrencyBugs\<close> that never block:
  \<open>vector-try-wait.c\<close>, which backs off when the second \<open>trylock\<close> fails, and
  \<open>vector-nolock.c\<close>, which adds with an atomic instruction. Both are step relations:
  their control flow depends on what the other threads do. The threads make the
  calls of \<open>worker\<close>; its printing, which is off by default, is left out here.
\<close>

section \<open>The calls of the driver\<close>

definition worker_calls :: "nat \<Rightarrow> thread_arg \<Rightarrow> (nat \<times> nat) list" where
  "worker_calls loops args = replicate loops
     (if vector_add_order args = 0 then (vector_0 args, vector_1 args) else (vector_1 args, vector_0 args))"

definition main_calls :: "bool \<Rightarrow> bool \<Rightarrow> nat \<Rightarrow> nat \<Rightarrow> (nat \<times> nat) list list" where
  "main_calls enable_parallelism cause_deadlock loops num_threads =
     map (\<lambda>i. worker_calls loops (main_arg enable_parallelism cause_deadlock i)) [0..<num_threads]"

section \<open>vector-try-wait.c\<close>

text \<open>
  Where a thread is in \<open>vector_add\<close>: before the first \<open>trylock\<close>, before the second,
  after the increment of \<open>retry\<close>, before round \<open>i\<close> of the loop (round
  \<open>VECTOR_SIZE\<close> is the exit), and before the last unlock.
\<close>

datatype tw_pc = Top | Try_Src | Back_Off | Add nat | Unlock_Src

record tw_sys =
  tw_holder :: "nat \<Rightarrow> nat option"
  tw_calls :: "(nat \<times> nat) list list"
  tw_pcs :: "tw_pc list"
  tw_retry :: nat
  tw_mem :: "vectors cres"

text \<open>A failed \<open>trylock\<close> of the first lock jumps back to \<open>top\<close>: a step that changes nothing.\<close>

inductive tw_step :: "tw_sys \<Rightarrow> tw_sys \<Rightarrow> bool" where
  tw_dst_fail:
    "i < length (tw_calls s) \<Longrightarrow> tw_calls s ! i = (d, c) # cs \<Longrightarrow> tw_pcs s ! i = Top \<Longrightarrow>
     tw_holder s d \<noteq> None \<Longrightarrow> tw_step s s"
| tw_dst_ok:
    "i < length (tw_calls s) \<Longrightarrow> tw_calls s ! i = (d, c) # cs \<Longrightarrow> tw_pcs s ! i = Top \<Longrightarrow>
     tw_holder s d = None \<Longrightarrow>
     tw_step s (s\<lparr>tw_holder := (tw_holder s)(d := Some i), tw_pcs := (tw_pcs s)[i := Try_Src]\<rparr>)"
| tw_src_fail:
    "i < length (tw_calls s) \<Longrightarrow> tw_calls s ! i = (d, c) # cs \<Longrightarrow> tw_pcs s ! i = Try_Src \<Longrightarrow>
     tw_holder s c \<noteq> None \<Longrightarrow>
     tw_step s (s\<lparr>tw_retry := Suc (tw_retry s), tw_pcs := (tw_pcs s)[i := Back_Off]\<rparr>)"
| tw_back_off:
    "i < length (tw_calls s) \<Longrightarrow> tw_calls s ! i = (d, c) # cs \<Longrightarrow> tw_pcs s ! i = Back_Off \<Longrightarrow>
     tw_step s (s\<lparr>tw_holder := (tw_holder s)(d := None), tw_pcs := (tw_pcs s)[i := Top]\<rparr>)"
| tw_src_ok:
    "i < length (tw_calls s) \<Longrightarrow> tw_calls s ! i = (d, c) # cs \<Longrightarrow> tw_pcs s ! i = Try_Src \<Longrightarrow>
     tw_holder s c = None \<Longrightarrow>
     tw_step s (s\<lparr>tw_holder := (tw_holder s)(c := Some i), tw_pcs := (tw_pcs s)[i := Add 0]\<rparr>)"
| tw_add:
    "i < length (tw_calls s) \<Longrightarrow> tw_calls s ! i = (d, c) # cs \<Longrightarrow> tw_pcs s ! i = Add k \<Longrightarrow>
     k < VECTOR_SIZE \<Longrightarrow>
     tw_step s (s\<lparr>tw_mem := cbind (tw_mem s) (add_elem d c k), tw_pcs := (tw_pcs s)[i := Add (Suc k)]\<rparr>)"
| tw_unlock_dst:
    "i < length (tw_calls s) \<Longrightarrow> tw_calls s ! i = (d, c) # cs \<Longrightarrow> tw_pcs s ! i = Add VECTOR_SIZE \<Longrightarrow>
     tw_step s (s\<lparr>tw_holder := (tw_holder s)(d := None), tw_pcs := (tw_pcs s)[i := Unlock_Src]\<rparr>)"
| tw_unlock_src:
    "i < length (tw_calls s) \<Longrightarrow> tw_calls s ! i = (d, c) # cs \<Longrightarrow> tw_pcs s ! i = Unlock_Src \<Longrightarrow>
     tw_step s (s\<lparr>tw_holder := (tw_holder s)(c := None), tw_calls := (tw_calls s)[i := cs],
       tw_pcs := (tw_pcs s)[i := Top]\<rparr>)"

definition tw_init :: "(nat \<times> nat) list list \<Rightarrow> tw_sys" where
  "tw_init calls = \<lparr>tw_holder = (\<lambda>_. None), tw_calls = calls, tw_pcs = map (\<lambda>_. Top) calls,
     tw_retry = 0, tw_mem = Inr v_init\<rparr>"

definition tw_done :: "tw_sys \<Rightarrow> bool" where
  "tw_done s \<longleftrightarrow> (\<forall>cs \<in> set (tw_calls s). cs = [])"

text \<open>What thread \<open>i\<close> holds at each point; two distinct locks per call.\<close>

fun tw_owned :: "(nat \<times> nat) list \<Rightarrow> tw_pc \<Rightarrow> nat set" where
  "tw_owned [] p = {}"
| "tw_owned ((d, c) # cs) p = (case p of Top \<Rightarrow> {} | Try_Src \<Rightarrow> {d} | Back_Off \<Rightarrow> {d}
     | Add k \<Rightarrow> {d, c} | Unlock_Src \<Rightarrow> {c})"

definition tw_inv :: "tw_sys \<Rightarrow> bool" where
  "tw_inv s \<longleftrightarrow> length (tw_pcs s) = length (tw_calls s)
     \<and> (\<forall>i < length (tw_calls s). (\<forall>(d, c) \<in> set (tw_calls s ! i). d \<noteq> c)
          \<and> (\<forall>k. tw_pcs s ! i = Add k \<longrightarrow> k \<le> VECTOR_SIZE))
     \<and> (\<forall>l i. tw_holder s l = Some i \<longleftrightarrow>
          i < length (tw_calls s) \<and> l \<in> tw_owned (tw_calls s ! i) (tw_pcs s ! i))"

lemma tw_owned_top [simp]: "tw_owned cs Top = {}"
  by (cases "(cs, Top)" rule: tw_owned.cases) auto

lemma tw_inv_init: "\<forall>cs \<in> set calls. \<forall>(d, c) \<in> set cs. d \<noteq> c \<Longrightarrow> tw_inv (tw_init calls)"
  by (auto simp: tw_inv_def tw_init_def)

text \<open>A step of thread \<open>i\<close> that changes what only \<open>i\<close> holds keeps the invariant.\<close>

lemma tw_inv_update:
  assumes inv: "tw_inv s" and i: "i < length (tw_calls s)"
    and calls: "tw_calls t = (tw_calls s)[i := cs]" and pcs: "tw_pcs t = (tw_pcs s)[i := p]"
    and others: "\<And>l j. j \<noteq> i \<Longrightarrow> tw_holder t l = Some j \<longleftrightarrow> tw_holder s l = Some j"
    and own: "\<And>l. tw_holder t l = Some i \<longleftrightarrow> l \<in> tw_owned cs p"
    and cs: "set cs \<subseteq> set (tw_calls s ! i)" and p: "\<And>k. p = Add k \<Longrightarrow> k \<le> VECTOR_SIZE"
  shows "tw_inv t"
proof -
  have len: "length (tw_pcs s) = length (tw_calls s)" using inv by (simp add: tw_inv_def)
  have "tw_holder t l = Some j \<longleftrightarrow> j < length (tw_calls t) \<and> l \<in> tw_owned (tw_calls t ! j) (tw_pcs t ! j)" for l j
  proof (cases "j = i")
    case True
    then show ?thesis using own i len by (simp add: calls pcs)
  next
    case False
    with inv others [OF False] show ?thesis by (simp add: calls pcs tw_inv_def)
  qed
  moreover have "\<forall>(d, c) \<in> set (tw_calls t ! j). d \<noteq> c" if "j < length (tw_calls t)" for j
    using that inv i cs by (cases "j = i") (fastforce simp: calls tw_inv_def)+
  moreover have "k \<le> VECTOR_SIZE" if "j < length (tw_calls t)" "tw_pcs t ! j = Add k" for j k
    using that inv i p len by (cases "j = i") (auto simp: calls pcs tw_inv_def)
  ultimately show ?thesis using len unfolding tw_inv_def by (simp add: calls pcs)
qed

lemma tw_inv_update_pc:
  assumes inv: "tw_inv s" and i: "i < length (tw_calls s)" and cs: "tw_calls s ! i = cs"
    and calls: "tw_calls t = tw_calls s" and pcs: "tw_pcs t = (tw_pcs s)[i := p]"
    and others: "\<And>l j. j \<noteq> i \<Longrightarrow> tw_holder t l = Some j \<longleftrightarrow> tw_holder s l = Some j"
    and own: "\<And>l. tw_holder t l = Some i \<longleftrightarrow> l \<in> tw_owned cs p" and p: "\<And>k. p = Add k \<Longrightarrow> k \<le> VECTOR_SIZE"
  shows "tw_inv t"
  using others own p by (intro tw_inv_update [OF inv i, of t cs p]) (simp_all add: calls pcs flip: cs)

lemma tw_inv_call:
  assumes "tw_inv s" "i < length (tw_calls s)" "tw_calls s ! i = (d, c) # cs"
  shows "d \<noteq> c" "tw_holder s l = Some i \<longleftrightarrow> l \<in> tw_owned ((d, c) # cs) (tw_pcs s ! i)"
  using assms by (force simp: tw_inv_def)+

lemma tw_inv_step:
  assumes "tw_step s t" "tw_inv s"
  shows "tw_inv t"
  using assms(1)
proof cases
  case (tw_dst_fail i d c cs)
  then show ?thesis using assms(2) by simp
next
  case (tw_dst_ok i d c cs)
  with tw_inv_call [OF assms(2) tw_dst_ok(2,3)] show ?thesis
    by (intro tw_inv_update_pc [OF assms(2) tw_dst_ok(2,3), of _ Try_Src]) auto
next
  case (tw_src_fail i d c cs)
  with tw_inv_call [OF assms(2) tw_src_fail(2,3)] show ?thesis
    by (intro tw_inv_update_pc [OF assms(2) tw_src_fail(2,3), of _ Back_Off]) auto
next
  case (tw_back_off i d c cs)
  then have held: "tw_holder s d = Some i" using tw_inv_call(2) [OF assms(2) tw_back_off(2,3), of d] by simp
  from tw_back_off tw_inv_call [OF assms(2) tw_back_off(2,3)] show ?thesis
    by (intro tw_inv_update_pc [OF assms(2) tw_back_off(2,3), of _ Top]) (auto simp: held)
next
  case (tw_src_ok i d c cs)
  with tw_inv_call [OF assms(2) tw_src_ok(2,3)] show ?thesis
    by (intro tw_inv_update_pc [OF assms(2) tw_src_ok(2,3), of _ "Add 0"]) auto
next
  case (tw_add i d c cs k)
  with tw_inv_call [OF assms(2) tw_add(2,3)] show ?thesis
    by (intro tw_inv_update_pc [OF assms(2) tw_add(2,3), of _ "Add (Suc k)"]) auto
next
  case (tw_unlock_dst i d c cs)
  then have held: "tw_holder s d = Some i" using tw_inv_call(2) [OF assms(2) tw_unlock_dst(2,3), of d] by simp
  from tw_unlock_dst tw_inv_call [OF assms(2) tw_unlock_dst(2,3)] show ?thesis
    by (intro tw_inv_update_pc [OF assms(2) tw_unlock_dst(2,3), of _ Unlock_Src]) (auto simp: held)
next
  case (tw_unlock_src i d c cs)
  then have held: "tw_holder s c = Some i" using tw_inv_call(2) [OF assms(2) tw_unlock_src(2,3), of c] by simp
  from tw_unlock_src tw_inv_call [OF assms(2) tw_unlock_src(2,3)] show ?thesis
    by (intro tw_inv_update [OF assms(2), of i _ cs Top]) (auto simp: held)
qed

lemma tw_inv_steps: "tw_step\<^sup>*\<^sup>* s t \<Longrightarrow> tw_inv s \<Longrightarrow> tw_inv t"
  by (induction rule: rtranclp_induct) (auto intro: tw_inv_step)

subsection \<open>Every call can be finished\<close>

definition tw_left :: "tw_sys \<Rightarrow> nat" where
  "tw_left s = sum_list (map length (tw_calls s))"

lemma tw_step_then:
  "tw_step s t \<Longrightarrow> \<exists>u. tw_step\<^sup>*\<^sup>* t u \<and> tw_left u < k \<Longrightarrow> \<exists>u. tw_step\<^sup>*\<^sup>* s u \<and> tw_left u < k"
  by (blast intro: converse_rtranclp_into_rtranclp)

lemma tw_finish_unlock:
  assumes "i < length (tw_calls s)" "tw_calls s ! i = (d, c) # cs" "tw_pcs s ! i = Unlock_Src"
  shows "\<exists>t. tw_step\<^sup>*\<^sup>* s t \<and> tw_left t < tw_left s"
  by (rule tw_step_then [OF tw_unlock_src [OF assms]], rule exI, rule conjI, rule rtranclp.rtrancl_refl)
    (simp add: tw_left_def work_left_update [OF assms(1,2)])

lemma tw_finish_add:
  assumes "i < length (tw_calls s)" "tw_calls s ! i = (d, c) # cs" "tw_pcs s ! i = Add k" "k \<le> VECTOR_SIZE"
    and "length (tw_pcs s) = length (tw_calls s)"
  shows "\<exists>t. tw_step\<^sup>*\<^sup>* s t \<and> tw_left t < tw_left s"
  using assms
proof (induction "VECTOR_SIZE - k" arbitrary: s k)
  case 0
  let ?t = "s\<lparr>tw_holder := (tw_holder s)(d := None), tw_pcs := (tw_pcs s)[i := Unlock_Src]\<rparr>"
  have "tw_step s ?t" using 0 by (intro tw_unlock_dst) auto
  moreover have "\<exists>u. tw_step\<^sup>*\<^sup>* ?t u \<and> tw_left u < tw_left ?t"
    using 0 by (intro tw_finish_unlock [of i _ d c cs]) auto
  ultimately show ?case using tw_step_then [of s ?t] by (simp add: tw_left_def)
next
  case (Suc n)
  let ?t = "s\<lparr>tw_mem := cbind (tw_mem s) (add_elem d c k), tw_pcs := (tw_pcs s)[i := Add (Suc k)]\<rparr>"
  have "tw_step s ?t" using Suc by (intro tw_add) auto
  moreover have "\<exists>u. tw_step\<^sup>*\<^sup>* ?t u \<and> tw_left u < tw_left ?t"
    using Suc.hyps(2) Suc.prems by (intro Suc.hyps(1) [of "Suc k"]) auto
  ultimately show ?case using tw_step_then [of s ?t] by (simp add: tw_left_def)
qed

lemma tw_finish_src:
  assumes "i < length (tw_calls s)" "tw_calls s ! i = (d, c) # cs" "tw_pcs s ! i = Try_Src"
    and "tw_holder s c = None" "length (tw_pcs s) = length (tw_calls s)"
  shows "\<exists>t. tw_step\<^sup>*\<^sup>* s t \<and> tw_left t < tw_left s"
proof -
  let ?t = "s\<lparr>tw_holder := (tw_holder s)(c := Some i), tw_pcs := (tw_pcs s)[i := Add 0]\<rparr>"
  have "tw_step s ?t" by (rule tw_src_ok [OF assms(1-4)])
  moreover have "\<exists>u. tw_step\<^sup>*\<^sup>* ?t u \<and> tw_left u < tw_left ?t"
    using assms by (intro tw_finish_add [of i _ d c cs 0]) auto
  ultimately show ?thesis using tw_step_then [of s ?t] by (simp add: tw_left_def)
qed

text \<open>Threads that hold only their destination can be made to give it back.\<close>

fun tw_stage :: "tw_pc \<Rightarrow> nat" where
  "tw_stage Try_Src = 2"
| "tw_stage Back_Off = 1"
| "tw_stage _ = 0"

definition tw_holding :: "tw_sys \<Rightarrow> nat" where
  "tw_holding s = sum_list (map tw_stage (tw_pcs s))"

lemma tw_holding_update:
  assumes "i < length ps" "tw_stage p < tw_stage (ps ! i)"
  shows "sum_list (map tw_stage (ps[i := p])) < sum_list (map tw_stage ps)"
  using assms
proof (induction ps arbitrary: i)
  case (Cons q ps)
  then show ?case by (cases i) auto
qed simp

lemma tw_progress:
  assumes "tw_inv s" "\<not> tw_done s"
  shows "\<exists>t. tw_step\<^sup>*\<^sup>* s t \<and> tw_left t < tw_left s"
  using assms
proof (induction "tw_holding s" arbitrary: s rule: less_induct)
  case less
  note inv = less.prems(1)
  have len: "length (tw_pcs s) = length (tw_calls s)" using inv by (simp add: tw_inv_def)
  have again: ?case if "tw_step s t" "tw_holding t < tw_holding s" "tw_calls t = tw_calls s" for t
  proof -
    have "\<exists>u. tw_step\<^sup>*\<^sup>* t u \<and> tw_left u < tw_left t"
      using that less.prems tw_inv_step by (intro less.hyps) (auto simp: tw_done_def)
    with that tw_step_then [of s t] show ?thesis by (simp add: tw_left_def)
  qed
  have move: ?case if i: "i < length (tw_calls s)" and call: "tw_calls s ! i = (d, c) # cs"
    and pc: "tw_pcs s ! i \<noteq> Top" for i d c cs
  proof (cases "tw_pcs s ! i")
    case Try_Src
    show ?thesis
    proof (cases "tw_holder s c")
      case None
      with tw_finish_src [OF i call Try_Src None len] show ?thesis by simp
    next
      case (Some j)
      then show ?thesis using i len Try_Src
        by (intro again [OF tw_src_fail [OF i call Try_Src]]) (auto simp: tw_holding_def intro!: tw_holding_update)
    qed
  next
    case Back_Off
    then show ?thesis using i len
      by (intro again [OF tw_back_off [OF i call Back_Off]]) (auto simp: tw_holding_def intro!: tw_holding_update)
  next
    case (Add k)
    then have "k \<le> VECTOR_SIZE" using inv i by (simp add: tw_inv_def)
    with tw_finish_add [OF i call Add _ len] show ?thesis by simp
  next
    case Unlock_Src
    with tw_finish_unlock [OF i call] show ?thesis by simp
  qed (use pc in simp)
  show ?case
  proof (cases "\<exists>i < length (tw_calls s). tw_calls s ! i \<noteq> [] \<and> tw_pcs s ! i \<noteq> Top")
    case True
    with move show ?thesis by (metis list.exhaust surj_pair)
  next
    case False
    obtain i d c cs where i: "i < length (tw_calls s)" and call: "tw_calls s ! i = (d, c) # cs"
      using less.prems(2) by (metis in_set_conv_nth list.exhaust surj_pair tw_done_def)
    have "tw_owned (tw_calls s ! j) (tw_pcs s ! j) = {}" if "j < length (tw_calls s)" for j
      using False that by (cases "tw_calls s ! j = []") auto
    then have free: "tw_holder s l = None" for l
      using inv by (cases "tw_holder s l") (auto simp: tw_inv_def)
    let ?t = "s\<lparr>tw_holder := (tw_holder s)(d := Some i), tw_pcs := (tw_pcs s)[i := Try_Src]\<rparr>"
    have "tw_step s ?t" using i call False free by (intro tw_dst_ok) auto
    moreover have "d \<noteq> c" by (rule tw_inv_call(1) [OF inv i call])
    then have "\<exists>u. tw_step\<^sup>*\<^sup>* ?t u \<and> tw_left u < tw_left ?t"
      using i call len free by (intro tw_finish_src [of i _ d c cs]) auto
    ultimately show ?thesis using tw_step_then [of s ?t] by (simp add: tw_left_def)
  qed
qed

lemma tw_completes:
  assumes "tw_inv s"
  shows "\<exists>t. tw_step\<^sup>*\<^sup>* s t \<and> tw_done t"
proof -
  have "\<exists>t. tw_step\<^sup>*\<^sup>*\<^sup>*\<^sup>* s t \<and> tw_inv t \<and> tw_done t"
    using tw_progress tw_inv_steps assms by (intro reach_goal [where f = tw_left and I = tw_inv]) auto
  then show ?thesis by auto
qed

lemma main_calls_distinct: "\<forall>cs \<in> set (main_calls par dl loops n). \<forall>(d, c) \<in> set cs. d \<noteq> c"
  by (auto simp: main_calls_def worker_calls_def main_arg_def split: if_splits)

lemma tw_inv_reach: "tw_step\<^sup>*\<^sup>* (tw_init (main_calls par dl loops n)) s \<Longrightarrow> tw_inv s"
  by (erule tw_inv_steps) (rule tw_inv_init [OF main_calls_distinct])

text \<open>Two threads in the loop of \<open>vector_add\<close> work on different vectors.\<close>

definition tw_race :: "tw_sys \<Rightarrow> bool" where
  "tw_race s \<longleftrightarrow> (\<exists>i j d c cs e f fs k l. i < length (tw_calls s) \<and> j < length (tw_calls s) \<and> i \<noteq> j
     \<and> tw_calls s ! i = (d, c) # cs \<and> tw_calls s ! j = (e, f) # fs
     \<and> tw_pcs s ! i = Add k \<and> tw_pcs s ! j = Add l \<and> {d, c} \<inter> {e, f} \<noteq> {})"

lemma tw_no_race:
  assumes "tw_inv s"
  shows "\<not> tw_race s"
proof
  assume "tw_race s"
  then obtain i j d c cs e f fs k l m where
    i: "i < length (tw_calls s)" "tw_calls s ! i = (d, c) # cs" "tw_pcs s ! i = Add k" and
    j: "j < length (tw_calls s)" "tw_calls s ! j = (e, f) # fs" "tw_pcs s ! j = Add l" and
    m: "i \<noteq> j" "m \<in> {d, c}" "m \<in> {e, f}" unfolding tw_race_def by blast
  from tw_inv_call(2) [OF assms i(1,2), of m] tw_inv_call(2) [OF assms j(1,2), of m] i(3) j(3) m
  show False by simp
qed

text \<open>
  Two threads that add in opposite directions: both take their destination, both fail
  and count the retry, both back off.
\<close>

definition tw_both_retry :: "tw_sys \<Rightarrow> bool" where
  "tw_both_retry s \<longleftrightarrow> (\<exists>d c cs e f fs. tw_calls s = [(d, c) # cs, (e, f) # fs]
     \<and> tw_pcs s = [Try_Src, Try_Src] \<and> tw_holder s c \<noteq> None \<and> tw_holder s f \<noteq> None)"

lemma tw_round:
  assumes "c = [(0, 1) # as, (1, 0) # bs]" "h = (\<lambda>_. None)"
  shows "\<exists>s. tw_step\<^sup>*\<^sup>* \<lparr>tw_holder = h, tw_calls = c, tw_pcs = [Top, Top], tw_retry = r, tw_mem = m\<rparr> s
      \<and> tw_both_retry s
      \<and> tw_step\<^sup>*\<^sup>* s \<lparr>tw_holder = h, tw_calls = c, tw_pcs = [Top, Top], tw_retry = r + 2, tw_mem = m\<rparr>"
proof -
  define st where "st a b p q k = \<lparr>tw_holder = h(0 := a, 1 := b), tw_calls = c, tw_pcs = [p, q],
    tw_retry = k, tw_mem = m\<rparr>" for a b p q k
  have 1: "tw_step (st None None Top Top r) (st (Some 0) None Try_Src Top r)"
    using tw_dst_ok [of 0 "st None None Top Top r" 0 1 as] by (simp add: st_def assms fun_upd_twist)
  have 2: "tw_step (st (Some 0) None Try_Src Top r) (st (Some 0) (Some 1) Try_Src Try_Src r)"
    using tw_dst_ok [of 1 "st (Some 0) None Try_Src Top r" 1 0 bs] by (simp add: st_def assms)
  have 3: "tw_step (st (Some 0) (Some 1) Try_Src Try_Src r) (st (Some 0) (Some 1) Back_Off Try_Src (r + 1))"
    using tw_src_fail [of 0 "st (Some 0) (Some 1) Try_Src Try_Src r" 0 1 as] by (simp add: st_def assms)
  have 4: "tw_step (st (Some 0) (Some 1) Back_Off Try_Src (r + 1)) (st (Some 0) (Some 1) Back_Off Back_Off (r + 2))"
    using tw_src_fail [of 1 "st (Some 0) (Some 1) Back_Off Try_Src (r + 1)" 1 0 bs] by (simp add: st_def assms)
  have 5: "tw_step (st (Some 0) (Some 1) Back_Off Back_Off (r + 2)) (st None (Some 1) Top Back_Off (r + 2))"
    using tw_back_off [of 0 "st (Some 0) (Some 1) Back_Off Back_Off (r + 2)" 0 1 as]
    by (simp add: st_def assms fun_upd_twist)
  have 6: "tw_step (st None (Some 1) Top Back_Off (r + 2)) (st None None Top Top (r + 2))"
    using tw_back_off [of 1 "st None (Some 1) Top Back_Off (r + 2)" 1 0 bs] by (simp add: st_def assms)
  have "tw_both_retry (st (Some 0) (Some 1) Try_Src Try_Src r)"
    by (simp add: tw_both_retry_def st_def assms)
  moreover have "tw_step\<^sup>*\<^sup>* (st None None Top Top r) (st (Some 0) (Some 1) Try_Src Try_Src r)"
    using 1 2 by (meson r_into_rtranclp rtranclp.rtrancl_into_rtrancl)
  moreover have "tw_step\<^sup>*\<^sup>* (st (Some 0) (Some 1) Try_Src Try_Src r) (st None None Top Top (r + 2))"
    using 3 4 5 6 by (meson r_into_rtranclp rtranclp.rtrancl_into_rtrancl)
  moreover have "h(0 := None, 1 := None) = h" using assms(2) by auto
  ultimately show ?thesis unfolding st_def by auto
qed

lemma tw_rounds:
  assumes "calls = [(0, 1) # as, (1, 0) # bs]"
  shows "tw_step\<^sup>*\<^sup>* (tw_init calls) (tw_init calls\<lparr>tw_retry := 2 * r\<rparr>)"
proof (induction r)
  case (Suc r)
  let ?s = "\<lambda>k. \<lparr>tw_holder = (\<lambda>_. None), tw_calls = calls, tw_pcs = [Top, Top], tw_retry = k, tw_mem = Inr v_init\<rparr>"
  have "tw_step\<^sup>*\<^sup>* (?s (2 * r)) (?s (2 * r + 2))"
    using tw_round [OF assms refl, of "2 * r" "Inr v_init"] by (meson rtranclp_trans)
  moreover have "tw_init calls\<lparr>tw_retry := k\<rparr> = ?s k" for k by (simp add: tw_init_def assms)
  ultimately show ?case using Suc by (simp add: rtranclp_trans)
qed (simp add: tw_init_def)

text \<open>
  C11. With \<open>vector-try-wait.c\<close>, for any options, threads and loops, no two threads are
  ever in the loop of \<open>vector_add\<close> with a common vector, and from every reachable state
  all calls can be finished: no deadlock. Nothing bounds the number of retries, though:
  with \<open>-d\<close> two threads can retry as often as the \<open>int\<close> \<open>retry\<close> can count, and each time
  both are about to execute \<open>retry++\<close>, which no lock protects.
\<close>

theorem try_wait_no_deadlock:
  "(tw_step\<^sup>*\<^sup>* (tw_init (main_calls par dl loops n)) s \<longrightarrow>
      (\<exists>t. tw_step\<^sup>*\<^sup>* s t \<and> tw_done t) \<and> \<not> tw_race s)
   \<and> (2 * r \<le> nat INT_MAX \<longrightarrow>
        (\<exists>u. tw_step\<^sup>*\<^sup>* (tw_init (main_calls False True (Suc k) 2)) u \<and> tw_both_retry u \<and> tw_retry u = 2 * r))"
proof (intro conjI impI)
  assume "tw_step\<^sup>*\<^sup>* (tw_init (main_calls par dl loops n)) s"
  from tw_inv_reach [OF this] show "\<exists>t. tw_step\<^sup>*\<^sup>* s t \<and> tw_done t" "\<not> tw_race s"
    by (rule tw_completes, rule tw_no_race)
next
  let ?c = "main_calls False True (Suc k) 2"
  have c: "?c = [(0, 1) # replicate k (0, 1), (1, 0) # replicate k (1, 0)]"
    by (simp add: main_calls_def worker_calls_def main_arg_def upt_rec)
  let ?i = "tw_init ?c\<lparr>tw_retry := 2 * r\<rparr>"
  let ?u = "?i\<lparr>tw_holder := (\<lambda>_. None)(0 := Some 0, 1 := Some 1), tw_pcs := [Try_Src, Try_Src]\<rparr>"
  have "tw_step ?i (?i\<lparr>tw_holder := (\<lambda>_. None)(0 := Some 0), tw_pcs := [Try_Src, Top]\<rparr>)"
    using tw_dst_ok [of 0 ?i 0 1 "replicate k (0, 1)"] by (simp add: tw_init_def c)
  moreover have "tw_step (?i\<lparr>tw_holder := (\<lambda>_. None)(0 := Some 0), tw_pcs := [Try_Src, Top]\<rparr>) ?u"
    using tw_dst_ok [of 1 "?i\<lparr>tw_holder := (\<lambda>_. None)(0 := Some 0), tw_pcs := [Try_Src, Top]\<rparr>" 1 0 "replicate k (1, 0)"]
    by (simp add: tw_init_def c)
  ultimately have "tw_step\<^sup>*\<^sup>* (tw_init ?c) ?u" using tw_rounds [OF c, of r] by auto
  moreover have "tw_both_retry ?u" "tw_retry ?u = 2 * r" by (simp_all add: tw_both_retry_def tw_init_def c)
  ultimately show "\<exists>u. tw_step\<^sup>*\<^sup>* (tw_init ?c) u \<and> tw_both_retry u \<and> tw_retry u = 2 * r" by blast
qed

theorem try_wait_no_deadlock_witness:
  "(\<exists>t. tw_step\<^sup>*\<^sup>* (tw_init (main_calls False True 3 2)) t \<and> tw_done t)
   \<and> (\<exists>u. tw_step\<^sup>*\<^sup>* (tw_init (main_calls False True 1 2)) u \<and> tw_retry u = 14)"
  using try_wait_no_deadlock [of False True 3 2 "tw_init (main_calls False True 3 2)" 7 0] by (auto simp: INT_MAX_def)

subsection \<open>What the vectors hold in the end\<close>

fun tw_rest :: "(nat \<times> nat) list \<Rightarrow> tw_pc \<Rightarrow> (vlock, vectors) instr list" where
  "tw_rest [] p = []"
| "tw_rest ((d, c) # cs) p = (case p of Add k \<Rightarrow> drop k (add_loop d c) | Unlock_Src \<Rightarrow> []
     | _ \<Rightarrow> add_loop d c) @ concat (map (\<lambda>(d, c). add_loop d c) cs)"

definition tw_rests :: "tw_sys \<Rightarrow> (vlock, vectors) instr list list" where
  "tw_rests s = map2 tw_rest (tw_calls s) (tw_pcs s)"

lemma tw_rest_top: "tw_rest cs Top = concat (map (\<lambda>(d, c). add_loop d c) cs)"
  by (cases "(cs, Top)" rule: tw_rest.cases) auto

lemma add_loop_drop:
  "k < VECTOR_SIZE \<Longrightarrow> drop k (add_loop d c) = Act [Vec d, Vec c] (add_elem d c k) # drop (Suc k) (add_loop d c)"
  by (subst Cons_nth_drop_Suc [symmetric]) (simp_all add: add_loop_def)

text \<open>Each step leaves the remaining additions as they are, or performs the first one of a thread.\<close>

lemma tw_step_rests:
  assumes "tw_step s t" "length (tw_pcs s) = length (tw_calls s)"
  shows "(tw_rests t = tw_rests s \<and> tw_mem t = tw_mem s) \<or>
    (\<exists>i ls f rest. i < length (tw_rests s) \<and> tw_rests s ! i = Act ls f # rest
       \<and> tw_rests t = (tw_rests s)[i := rest] \<and> tw_mem t = cbind (tw_mem s) f)"
proof -
  have upd: "map2 tw_rest ((tw_calls s)[i := cs]) ((tw_pcs s)[i := p]) = (tw_rests s)[i := tw_rest cs p]" for i cs p
    by (simp add: tw_rests_def zip_update map_update)
  have nth: "i < length (tw_rests s) \<and> tw_rests s ! i = tw_rest (tw_calls s ! i) (tw_pcs s ! i)"
    if "i < length (tw_calls s)" for i using that assms(2) by (simp add: tw_rests_def)
  have pc: "tw_rests (s\<lparr>tw_pcs := (tw_pcs s)[i := p]\<rparr>) = (tw_rests s)[i := tw_rest (tw_calls s ! i) p]" for i p
    using upd [of i "tw_calls s ! i" p] by (simp add: tw_rests_def)
  have same: ?thesis if i: "i < length (tw_calls s)" and "tw_calls t = tw_calls s" "tw_mem t = tw_mem s"
    and "tw_pcs t = (tw_pcs s)[i := p]" "tw_rest (tw_calls s ! i) p = tw_rest (tw_calls s ! i) (tw_pcs s ! i)" for i p
  proof -
    have "tw_rests t = (tw_rests s)[i := tw_rests s ! i]" using that pc [of i p] nth [OF i] by (simp add: tw_rests_def)
    then show ?thesis using that by simp
  qed
  show ?thesis using assms(1)
  proof cases
    case (tw_add i d c cs k)
    then show ?thesis using nth [of i] pc [of i "Add (Suc k)"]
      by (intro disjI2 exI [of _ i]) (simp add: add_loop_drop tw_rests_def)
  next
    case (tw_unlock_src i d c cs)
    then show ?thesis using upd [of i cs Top] nth [of i] by (simp add: tw_rests_def tw_rest_top) (metis list_update_id)
  next
    case (tw_dst_ok i d c cs)
    then show ?thesis by (intro same [of i Try_Src]) simp_all
  next
    case (tw_src_fail i d c cs)
    then show ?thesis by (intro same [of i Back_Off]) simp_all
  next
    case (tw_back_off i d c cs)
    then show ?thesis by (intro same [of i Top]) simp_all
  next
    case (tw_src_ok i d c cs)
    then show ?thesis by (intro same [of i "Add 0"]) simp_all
  next
    case (tw_unlock_dst i d c cs)
    then show ?thesis by (intro same [of i Unlock_Src]) (simp_all add: add_loop_def)
  qed simp
qed

text \<open>So a run is a run of the lock machine on scripts that only add.\<close>

definition tw_abs :: "tw_sys \<Rightarrow> (vlock, vectors) machine" where
  "tw_abs s = \<lparr>holder = (\<lambda>_. None), todo = tw_rests s, mem = tw_mem s\<rparr>"

lemma tw_step_abs:
  assumes "tw_step s t" "tw_inv s"
  shows "lm_step\<^sup>*\<^sup>* (tw_abs s) (tw_abs t)"
proof -
  have "length (tw_pcs s) = length (tw_calls s)" using assms(2) by (simp add: tw_inv_def)
  from tw_step_rests [OF assms(1) this] show ?thesis
  proof (elim disjE exE conjE)
    fix i ls f rest
    assume "i < length (tw_rests s)" "tw_rests s ! i = Act ls f # rest"
      "tw_rests t = (tw_rests s)[i := rest]" "tw_mem t = cbind (tw_mem s) f"
    with lm_act [of i "tw_abs s" ls f rest] show ?thesis by (simp add: tw_abs_def r_into_rtranclp)
  qed (simp add: tw_abs_def)
qed

lemma tw_reach_abs:
  assumes "tw_step\<^sup>*\<^sup>* (tw_init calls) s" "tw_inv (tw_init calls)"
  shows "lm_reach (tw_rests (tw_init calls)) v_init (tw_abs s)"
  using assms(1)
proof (induction rule: rtranclp_induct)
  case base
  then show ?case by (simp add: lm_reach_def lm_init_def tw_abs_def tw_init_def)
next
  case (step s t)
  from tw_step_abs [OF step(2) tw_inv_steps [OF step(1) assms(2)]] step(3)
  show ?case unfolding lm_reach_def by (rule rtranclp_trans [rotated])
qed

lemma tw_rests_main:
  "tw_rests (tw_init (main_calls False False loops n)) = main_scripts add_loop False False False loops n"
  by (intro nth_equalityI) (simp_all add: tw_rests_def tw_init_def main_calls_def worker_calls_def main_arg_def
      main_scripts_def worker_def print_info_def tw_rest_top)

lemma run_add_loops:
  "m \<le> nat INT_MAX \<Longrightarrow> run_script (concat (replicate m (add_loop 0 1))) (Inr v_init) = Inr (v_after m)"
proof -
  have "run_script (concat (replicate m (add_loop 0 1))) d
      = run_script (concat (replicate m (vector_add_global_order 0 1))) d" for d
    by (induction m arbitrary: d) (simp_all add: vector_add_global_order_def)
  with run_add_many show "m \<le> nat INT_MAX \<Longrightarrow> ?thesis" by simp
qed

text \<open>
  C28. When all threads of the try-wait program add \<open>v[1]\<close> to \<open>v[0]\<close> (no \<open>-p\<close> or \<open>-d\<close>), a finished run
  has lost no addition and made none twice, whatever was retried: \<open>v[0]\<close> holds
  \<open>n * loops\<close> (as long as that fits an \<open>int\<close>).
\<close>

theorem try_wait_result:
  assumes "tw_step\<^sup>*\<^sup>* (tw_init (main_calls False False loops n)) s" "tw_done s"
    and "n * loops \<le> nat INT_MAX"
  shows "tw_mem s = Inr (v_init[0 := replicate VECTOR_SIZE (int (n * loops))])"
proof -
  have reach: "lm_reach (main_scripts add_loop False False False loops n) v_init (tw_abs s)"
    using tw_reach_abs [OF assms(1) tw_inv_init [OF main_calls_distinct]] by (simp add: tw_rests_main)
  have "tw_rest cs p = []" if "(cs, p) \<in> set (zip (tw_calls s) (tw_pcs s))" for cs p
    using that assms(2) by (auto simp: tw_done_def dest!: set_zip_leftD)
  then have finished: "lm_done (tw_abs s)" by (auto simp: lm_done_def tw_abs_def tw_rests_def)
  have "set (acts (concat (replicate m (add_loop 0 1)))) \<subseteq> add_elem 0 1 ` {..<VECTOR_SIZE}" for m
    by (induction m) (auto simp: add_loop_acts)
  with lm_done_result [OF commuting_add _ _ reach finished, of 0 1] v_after_nth(3,4) [of 0, unfolded v_after_0]
    run_add_loops [OF assms(3)]
  show ?thesis by (simp add: main_scripts_same v_after_def tw_abs_def)
qed

theorem try_wait_result_witness:
  "\<exists>s. tw_step\<^sup>*\<^sup>* (tw_init (main_calls False False 5 3)) s \<and> tw_done s
     \<and> tw_mem s = Inr (v_init[0 := replicate VECTOR_SIZE 15])"
proof -
  obtain s where s: "tw_step\<^sup>*\<^sup>* (tw_init (main_calls False False 5 3)) s" "tw_done s"
    using tw_completes [OF tw_inv_init [OF main_calls_distinct]] by blast
  with try_wait_result [OF s] show ?thesis by (auto simp: INT_MAX_def)
qed

section \<open>vector-nolock.c\<close>

text \<open>The atomic instruction wraps around; it returns the old value.\<close>

definition fetch_and_add :: "vectors \<Rightarrow> nat \<Rightarrow> nat \<Rightarrow> int \<Rightarrow> (int \<times> vectors) cres" where
  "fetch_and_add vs v i value =
     cbind (arr_get vs v) (\<lambda>d. cbind (arr_get d i) (\<lambda>a. Inr (a, vs[v := d[i := wrap32 (a + value)]])))"

definition read_elem :: "vectors \<Rightarrow> nat \<Rightarrow> nat \<Rightarrow> int cres" where
  "read_elem vs v i = cbind (arr_get vs v) (\<lambda>d. arr_get d i)"

text \<open>
  A thread before round \<open>i\<close> of the loop (round \<open>VECTOR_SIZE\<close> is the exit), and between
  the read of the source and the atomic addition.
\<close>

datatype nl_pc = Load nat | Faa nat int

record nl_sys =
  nl_calls :: "(nat \<times> nat) list list"
  nl_pcs :: "nl_pc list"
  nl_mem :: "vectors cres"

inductive nl_step :: "nl_sys \<Rightarrow> nl_sys \<Rightarrow> bool" where
  nl_load:
    "i < length (nl_calls s) \<Longrightarrow> nl_calls s ! i = (d, c) # cs \<Longrightarrow> nl_pcs s ! i = Load k \<Longrightarrow> k < VECTOR_SIZE \<Longrightarrow>
     nl_mem s = Inr vs \<Longrightarrow> read_elem vs c k = Inr x \<Longrightarrow> nl_step s (s\<lparr>nl_pcs := (nl_pcs s)[i := Faa k x]\<rparr>)"
| nl_load_ub:
    "i < length (nl_calls s) \<Longrightarrow> nl_calls s ! i = (d, c) # cs \<Longrightarrow> nl_pcs s ! i = Load k \<Longrightarrow> k < VECTOR_SIZE \<Longrightarrow>
     nl_mem s = Inr vs \<Longrightarrow> read_elem vs c k = Inl e \<Longrightarrow> nl_step s (s\<lparr>nl_mem := Inl e\<rparr>)"
| nl_add:
    "i < length (nl_calls s) \<Longrightarrow> nl_calls s ! i = (d, c) # cs \<Longrightarrow> nl_pcs s ! i = Faa k x \<Longrightarrow>
     nl_mem s = Inr vs \<Longrightarrow>
     nl_step s (s\<lparr>nl_mem := cbind (fetch_and_add vs d k x) (\<lambda>(_, vs). Inr vs),
       nl_pcs := (nl_pcs s)[i := Load (Suc k)]\<rparr>)"
| nl_return:
    "i < length (nl_calls s) \<Longrightarrow> nl_calls s ! i = (d, c) # cs \<Longrightarrow> nl_pcs s ! i = Load VECTOR_SIZE \<Longrightarrow>
     nl_step s (s\<lparr>nl_calls := (nl_calls s)[i := cs], nl_pcs := (nl_pcs s)[i := Load 0]\<rparr>)"

definition nl_init :: "(nat \<times> nat) list list \<Rightarrow> nl_sys" where
  "nl_init calls = \<lparr>nl_calls = calls, nl_pcs = map (\<lambda>_. Load 0) calls, nl_mem = Inr v_init\<rparr>"

definition nl_done :: "nl_sys \<Rightarrow> bool" where
  "nl_done s \<longleftrightarrow> (\<forall>cs \<in> set (nl_calls s). cs = [])"

text \<open>How often the thread has added to element \<open>e\<close>.\<close>

fun nl_index :: "nl_pc \<Rightarrow> nat" where
  "nl_index (Load k) = k"
| "nl_index (Faa k x) = k"

definition nl_count :: "nat \<Rightarrow> nat \<Rightarrow> (nat \<times> nat) list \<Rightarrow> nl_pc \<Rightarrow> nat" where
  "nl_count loops e cs p = loops - length cs + (if cs \<noteq> [] \<and> e < nl_index p then 1 else 0)"

definition nl_total :: "nat \<Rightarrow> nl_sys \<Rightarrow> nat \<Rightarrow> nat" where
  "nl_total loops s e = sum_list (map2 (nl_count loops e) (nl_calls s) (nl_pcs s))"

fun nl_pc_ok :: "nl_pc \<Rightarrow> bool" where
  "nl_pc_ok (Load k) \<longleftrightarrow> k \<le> VECTOR_SIZE"
| "nl_pc_ok (Faa k x) \<longleftrightarrow> k < VECTOR_SIZE \<and> x = 1"

definition nl_thread_ok :: "nat \<Rightarrow> (nat \<times> nat) list \<Rightarrow> nl_pc \<Rightarrow> bool" where
  "nl_thread_ok loops cs p \<longleftrightarrow> length cs \<le> loops \<and> (\<forall>x \<in> set cs. x = (0, 1)) \<and> nl_pc_ok p"

definition nl_inv :: "nat \<Rightarrow> nl_sys \<Rightarrow> bool" where
  "nl_inv loops s \<longleftrightarrow> length (nl_pcs s) = length (nl_calls s)
     \<and> (\<forall>i < length (nl_calls s). nl_thread_ok loops (nl_calls s ! i) (nl_pcs s ! i))
     \<and> nl_mem s = Inr (v_init[0 := map (\<lambda>e. wrap32 (int (nl_total loops s e))) [0..<VECTOR_SIZE]])"

lemma nl_threads_update:
  assumes "nl_inv loops s" "i < length (nl_calls s)" "nl_thread_ok loops cs p"
    and "nl_calls t = (nl_calls s)[i := cs]" "nl_pcs t = (nl_pcs s)[i := p]"
  shows "length (nl_pcs t) = length (nl_calls t)"
    and "j < length (nl_calls t) \<Longrightarrow> nl_thread_ok loops (nl_calls t ! j) (nl_pcs t ! j)"
    and "nl_total loops t e + nl_count loops e (nl_calls s ! i) (nl_pcs s ! i)
       = nl_total loops s e + nl_count loops e cs p"
proof -
  have len: "length (nl_pcs s) = length (nl_calls s)" using assms(1) by (simp add: nl_inv_def)
  show "length (nl_pcs t) = length (nl_calls t)" using len assms(4,5) by simp
  show "nl_thread_ok loops (nl_calls t ! j) (nl_pcs t ! j)" if "j < length (nl_calls t)"
    using that assms len by (cases "j = i") (simp_all add: nl_inv_def)
  let ?xs = "map2 (nl_count loops e) (nl_calls s) (nl_pcs s)"
  have i: "i < length ?xs" using assms(2) len by simp
  have "nl_total loops t e = sum_list (?xs[i := nl_count loops e cs p])"
    using assms(4,5) by (simp add: nl_total_def zip_update map_update)
  also have "\<dots> + ?xs ! i = sum_list ?xs + nl_count loops e cs p"
    using elem_le_sum_list [OF i] by (simp add: sum_list_update [OF i])
  finally show "nl_total loops t e + nl_count loops e (nl_calls s ! i) (nl_pcs s ! i)
      = nl_total loops s e + nl_count loops e cs p"
    using assms(2) len by (simp add: nl_total_def)
qed

lemma nl_inv_thread:
  assumes "nl_inv loops s" "i < length (nl_calls s)" "nl_calls s ! i = (d, c) # cs"
  shows "d = 0" "c = 1" "Suc (length cs) \<le> loops" "\<forall>x \<in> set cs. x = (0, 1)" "nl_pc_ok (nl_pcs s ! i)"
    and "nl_thread_ok loops ((d, c) # cs) p \<longleftrightarrow> nl_pc_ok p"
  using assms by (auto simp: nl_inv_def nl_thread_ok_def)

lemma nl_read_ok:
  assumes "k < VECTOR_SIZE"
  shows "read_elem (v_init[0 := ws]) 1 k = Inr 1"
  using assms by (simp add: read_elem_def v_init_def vector_init_def MAX_THREADS_def)

lemma nl_faa_ok:
  assumes "k < VECTOR_SIZE"
  shows "fetch_and_add (v_init[0 := map f [0..<VECTOR_SIZE]]) 0 k x
       = Inr (f k, v_init[0 := map (f(k := wrap32 (f k + x))) [0..<VECTOR_SIZE]])"
proof -
  have "(map f [0..<VECTOR_SIZE])[k := y] = map (f(k := y)) [0..<VECTOR_SIZE]" for y
    by (intro nth_equalityI) (auto simp: nth_list_update)
  then show ?thesis using assms by (simp add: fetch_and_add_def v_init_def MAX_THREADS_def)
qed

lemma nl_inv_step:
  assumes "nl_step s t" "nl_inv loops s"
  shows "nl_inv loops t"
proof -
  note mem = assms(2) [unfolded nl_inv_def, THEN conjunct2, THEN conjunct2]
  have keep: ?thesis if "i < length (nl_calls s)" "nl_thread_ok loops cs p"
    "nl_calls t = (nl_calls s)[i := cs]" "nl_pcs t = (nl_pcs s)[i := p]" "nl_mem t = nl_mem s"
    and count: "\<And>e. e < VECTOR_SIZE \<Longrightarrow> nl_count loops e cs p = nl_count loops e (nl_calls s ! i) (nl_pcs s ! i)"
    for i cs p
  proof -
    note upd = nl_threads_update [OF assms(2) that(1-4)]
    have "nl_total loops t e = nl_total loops s e" if "e < VECTOR_SIZE" for e
      using upd(3) [of e] count [OF that] by simp
    then have same: "map (\<lambda>e. wrap32 (int (nl_total loops t e))) [0..<VECTOR_SIZE]
        = map (\<lambda>e. wrap32 (int (nl_total loops s e))) [0..<VECTOR_SIZE]" by simp
    show ?thesis using upd(1,2) that(5) mem unfolding nl_inv_def same by simp
  qed
  have read: "read_elem vs 1 k = Inr 1" if "nl_mem s = Inr vs" "k < VECTOR_SIZE" for vs k
    using that(1) mem nl_read_ok [OF that(2)] by auto
  have self: "(nl_calls s)[i := cs] = nl_calls s" if "nl_calls s ! i = cs" for i cs
    using that by auto
  show ?thesis using assms(1)
  proof cases
    case (nl_load i d c cs k vs x)
    note th = nl_inv_thread [OF assms(2) nl_load(2,3)]
    have "x = 1" using nl_load(7) read [OF nl_load(6,5)] th(2) by simp
    then show ?thesis using nl_load th(6) [of "Faa k x"] self [OF nl_load(3)]
      by (intro keep [of i "(d, c) # cs" "Faa k x"]) (auto simp: nl_count_def)
  next
    case (nl_load_ub i d c cs k vs e)
    note th = nl_inv_thread [OF assms(2) nl_load_ub(2,3)]
    then show ?thesis using nl_load_ub(7) read [OF nl_load_ub(6,5)] by simp
  next
    case (nl_add i d c cs k x vs)
    note th = nl_inv_thread [OF assms(2) nl_add(2,3)]
    have k: "k < VECTOR_SIZE" "x = 1" using th(5) nl_add(4) by simp_all
    have upd: "nl_calls t = (nl_calls s)[i := (d, c) # cs]" "nl_pcs t = (nl_pcs s)[i := Load (Suc k)]"
      "nl_thread_ok loops ((d, c) # cs) (Load (Suc k))"
      using nl_add k th(6) self [OF nl_add(3)] by simp_all
    note upd = nl_threads_update [OF assms(2) nl_add(2) upd(3,1,2)]
    have total: "nl_total loops t e = nl_total loops s e + (if e = k then 1 else 0)" for e
      using upd(3) [of e] nl_add(3,4) by (simp add: nl_count_def less_Suc_eq split: if_splits)
    let ?f = "\<lambda>e. wrap32 (int (nl_total loops s e))"
    have vs: "vs = v_init[0 := map ?f [0..<VECTOR_SIZE]]" using nl_add(5) mem by simp
    have "nl_mem t = Inr (v_init[0 := map (?f(k := wrap32 (?f k + x))) [0..<VECTOR_SIZE]])"
      using nl_add(1) th(1) by (simp add: vs nl_faa_ok [OF k(1)])
    moreover have "?f(k := wrap32 (?f k + x)) = (\<lambda>e. wrap32 (int (nl_total loops t e)))"
      using wrap32_add [of "int (nl_total loops s k)" 1] by (intro ext) (simp add: total k(2) add.commute)
    ultimately show ?thesis using upd(1,2) unfolding nl_inv_def by simp
  next
    case (nl_return i d c cs)
    note th = nl_inv_thread [OF assms(2) nl_return(2,3)]
    then show ?thesis using nl_return
      by (intro keep [of i cs "Load 0"]) (auto simp: nl_count_def nl_thread_ok_def)
  qed
qed

lemma nl_inv_init: "nl_inv loops (nl_init (main_calls False False loops n))"
proof -
  have "nl_total loops (nl_init (main_calls False False loops n)) e = 0" for e
    by (auto simp: nl_total_def nl_init_def nl_count_def main_calls_def worker_calls_def set_zip)
  moreover have "map (\<lambda>e. 0) [0..<VECTOR_SIZE] = v_init ! 0"
    by (simp add: v_init_def vector_init_def MAX_THREADS_def map_replicate_const)
  ultimately show ?thesis
    by (auto simp: nl_inv_def nl_init_def main_calls_def worker_calls_def main_arg_def nl_thread_ok_def wrap32_def)
qed

fun nl_work :: "(nat \<times> nat) list \<Rightarrow> nl_pc \<Rightarrow> nat" where
  "nl_work [] p = 0"
| "nl_work (_ # cs) p = Suc (length cs) * (2 * VECTOR_SIZE + 1)
     - (case p of Load k \<Rightarrow> 2 * k | Faa k x \<Rightarrow> 2 * k + 1)"

definition nl_left :: "nl_sys \<Rightarrow> nat" where
  "nl_left s = sum_list (map2 nl_work (nl_calls s) (nl_pcs s))"

lemma nl_left_update:
  assumes "i < length (nl_calls s)" "length (nl_pcs s) = length (nl_calls s)"
    and "nl_calls t = (nl_calls s)[i := cs]" "nl_pcs t = (nl_pcs s)[i := p]"
    and "nl_work cs p < nl_work (nl_calls s ! i) (nl_pcs s ! i)"
  shows "nl_left t < nl_left s"
proof -
  let ?xs = "map2 nl_work (nl_calls s) (nl_pcs s)"
  have i: "i < length ?xs" using assms(1,2) by simp
  have "nl_left t = sum_list (?xs[i := nl_work cs p])"
    using assms(3,4) by (simp add: nl_left_def zip_update map_update)
  also have "\<dots> + ?xs ! i = sum_list ?xs + nl_work cs p"
    using elem_le_sum_list [OF i] by (simp add: sum_list_update [OF i])
  finally show ?thesis using assms(1,2,5) by (simp add: nl_left_def)
qed

lemma nl_step_decreases:
  assumes "nl_step s t" "nl_inv loops s"
  shows "nl_left t < nl_left s"
proof -
  have len: "length (nl_pcs s) = length (nl_calls s)" using assms(2) by (simp add: nl_inv_def)
  have self: "nl_calls s = (nl_calls s)[i := cs]" if "nl_calls s ! i = cs" for i cs
    using that by auto
  show ?thesis using assms(1)
  proof cases
    case (nl_load i d c cs k vs x)
    then show ?thesis using self [OF nl_load(3)] len
      by (intro nl_left_update [of i s t "(d, c) # cs" "Faa k x"]) auto
  next
    case (nl_load_ub i d c cs k vs e)
    with nl_inv_thread [OF assms(2) nl_load_ub(2,3)] have "read_elem vs 1 k = Inl e" by simp
    moreover have "read_elem vs 1 k = Inr 1"
      using nl_load_ub(6) assms(2) nl_read_ok [OF nl_load_ub(5)] by (auto simp: nl_inv_def)
    ultimately show ?thesis by simp
  next
    case (nl_add i d c cs k x vs)
    moreover have "k < VECTOR_SIZE" using nl_inv_thread(5) [OF assms(2) nl_add(2,3)] nl_add(4) by simp
    ultimately show ?thesis using self [OF nl_add(3)] len
      by (intro nl_left_update [of i s t "(d, c) # cs" "Load (Suc k)"]) auto
  next
    case (nl_return i d c cs)
    then show ?thesis using len
      by (intro nl_left_update [of i s t cs "Load 0"]) (cases cs; simp)+
  qed
qed

lemma nl_not_stuck:
  assumes "nl_inv loops s" "\<not> nl_done s"
  shows "\<exists>t. nl_step s t"
proof -
  obtain i d c cs where i: "i < length (nl_calls s)" "nl_calls s ! i = (d, c) # cs"
    using assms(2) by (metis in_set_conv_nth list.exhaust surj_pair nl_done_def)
  obtain vs where vs: "nl_mem s = Inr vs" using assms(1) by (auto simp: nl_inv_def)
  show ?thesis
  proof (cases "nl_pcs s ! i")
    case (Load k)
    with nl_inv_thread(5) [OF assms(1) i] consider "k < VECTOR_SIZE" | "k = VECTOR_SIZE" by fastforce
    then show ?thesis
    proof cases
      case 1
      then show ?thesis
        using nl_load [OF i Load _ vs] nl_load_ub [OF i Load _ vs] by (cases "read_elem vs c k") blast+
    qed (use nl_return [OF i] Load in blast)
  qed (use nl_add [OF i _ vs] in blast)
qed

lemma nl_completes: "nl_inv loops s \<Longrightarrow> \<exists>t. nl_step\<^sup>*\<^sup>* s t \<and> nl_done t"
  using reach_goal [of "nl_inv loops" nl_done nl_step nl_left] nl_not_stuck nl_inv_step nl_step_decreases by metis

lemma nl_step_length: "nl_step s t \<Longrightarrow> length (nl_calls t) = length (nl_calls s)"
  by (erule nl_step.cases) simp_all

lemma main_calls_same: "main_calls False False loops n = replicate n (replicate loops (0, 1))"
  by (simp add: main_calls_def worker_calls_def main_arg_def map_replicate_const)

text \<open>
  C13. \<open>vector-nolock.c\<close> run without \<open>-p\<close> and \<open>-d\<close>, so that all threads add \<open>v[1]\<close> to
  \<open>v[0]\<close>. No thread ever waits:
  every run ends after at most \<open>n * loops * (2 * VECTOR_SIZE + 1)\<close> steps, with all calls
  made and \<open>v[0]\<close> holding \<open>n * loops\<close> reduced to the range of an \<open>int\<close>: the atomic
  additions of different threads are never lost, and never undefined.
\<close>

theorem nolock_result:
  assumes "(nl_step ^^ m) (nl_init (main_calls False False loops n)) s"
  shows "m \<le> n * (loops * (2 * VECTOR_SIZE + 1)) \<and> (nl_done s \<or> (\<exists>t. nl_step s t))
    \<and> (nl_done s \<longrightarrow> nl_mem s = Inr (v_init[0 := replicate VECTOR_SIZE (wrap32 (int (n * loops)))]))"
proof -
  let ?i = "nl_init (main_calls False False loops n)"
  let ?I = "\<lambda>s. nl_inv loops s \<and> length (nl_calls s) = n"
  have "?I ?i" using nl_inv_init by (simp add: nl_init_def main_calls_same)
  moreover have "?I v \<and> nl_left v < nl_left u" if "nl_step u v" "?I u" for u v
    using that nl_inv_step nl_step_decreases nl_step_length by metis
  ultimately have bound: "m + nl_left s \<le> nl_left ?i" and inv: "nl_inv loops s" and n: "length (nl_calls s) = n"
    using steps_bounded_inv [OF assms, of ?I nl_left] by blast+
  have "nl_work cs (Load 0) = length cs * (2 * VECTOR_SIZE + 1)" for cs by (cases cs) simp_all
  then have "nl_left ?i = n * (loops * (2 * VECTOR_SIZE + 1))"
    by (simp add: nl_left_def nl_init_def main_calls_same sum_list_replicate)
  moreover have "nl_mem s = Inr (v_init[0 := replicate VECTOR_SIZE (wrap32 (int (n * loops)))])" if "nl_done s"
  proof -
    have "nl_calls s ! i = []" if "i < n" for i using that \<open>nl_done s\<close> n by (auto simp: nl_done_def)
    then have "map2 (nl_count loops e) (nl_calls s) (nl_pcs s) = replicate n loops" for e
      using inv n by (intro nth_equalityI) (simp_all add: nl_inv_def nl_count_def)
    then have "nl_total loops s e = n * loops" for e by (simp add: nl_total_def sum_list_replicate)
    then show ?thesis using inv by (simp add: nl_inv_def map_replicate_const)
  qed
  ultimately show ?thesis using bound nl_not_stuck [OF inv] by auto
qed

theorem nolock_result_witness:
  "\<exists>m s. (nl_step ^^ m) (nl_init (main_calls False False 1 2)) s \<and> m \<le> 402
     \<and> nl_mem s = Inr (v_init[0 := replicate VECTOR_SIZE 2])"
proof -
  obtain s where s: "nl_step\<^sup>*\<^sup>* (nl_init (main_calls False False 1 2)) s" "nl_done s"
    using nl_completes [OF nl_inv_init] by blast
  then obtain m where m: "(nl_step ^^ m) (nl_init (main_calls False False 1 2)) s"
    by (auto dest: rtranclp_imp_relpowp)
  from nolock_result [OF m] s(2) have "m \<le> 402" "nl_mem s = Inr (v_init[0 := replicate VECTOR_SIZE (wrap32 2)])"
    by (simp_all add: VECTOR_SIZE_def)
  moreover have "wrap32 2 = 2" by (simp add: wrap32_def)
  ultimately show ?thesis using m by auto
qed

end
