(* ===== verification/Packet_Setup.thy ===== *)
theory Packet_Setup
  imports Packet_Processor
begin

text \<open>
  The rest of \<open>packet_proc.c\<close>: \<open>create_packet_file\<close> with its write loop, and what
  \<open>main\<close> does before and after the two loops of \<open>Packet_Processor\<close>, with the failures
  of the system calls as parameters.
\<close>

text \<open>The macro has no parentheses, so the product binds to its last summand only.\<close>

definition packet_buf_size :: nat where
  "packet_buf_size = PAYLOAD_HEADER_SIZE + MAX_PAYLOAD_DATA_SIZE * unat BUFFER_SIZE"

text \<open>A \<open>packet_t\<close> with its padding, as \<open>uint64_t\<close> is aligned to eight bytes.\<close>

definition sizeof_packet :: nat where
  "sizeof_packet = (8 + 4 + 4 + payload_num_bytes + 7) div 8 * 8"

definition current_nanoseconds :: "int \<Rightarrow> int \<Rightarrow> u64" where
  "current_nanoseconds tv_sec tv_nsec = of_int tv_sec * 1000000000 + of_int tv_nsec"

section \<open>create\_packet\_file\<close>

text \<open>
  \<open>writes\<close> is what the calls of \<open>write\<close> return, as the \<open>size_t\<close> they are stored in (-1 is
  the largest one); \<open>Blocked\<close> is the state in which the next call has not returned. The
  pointer \<open>pp + total_written\<close> counts records, the third argument counts bytes.
\<close>

datatype write_end = Failed | Written u64 | Blocked

fun write_loop :: "u64 \<Rightarrow> u64 \<Rightarrow> u64 list \<Rightarrow> write_end cres" where
  "write_loop buffer_size total_written [] =
     Inr (if total_written < buffer_size then Blocked else Written total_written)"
| "write_loop buffer_size total_written (wlen # writes) =
     (if total_written < buffer_size then
        if unat buffer_size < unat total_written * payload_rec_size + unat (buffer_size - total_written)
          then Inl Out_Of_Bounds
        else if wlen < 0 then Inr Failed
        else write_loop buffer_size (total_written + wlen) writes
      else Inr (Written total_written))"

fun fill_records :: "u8 list list \<Rightarrow> u8 list list cres" where
  "fill_records [] = Inr []"
| "fill_records (data # pp) =
     cbind (fill_record data) (\<lambda>data. cbind (fill_records pp) (\<lambda>pp. Inr (data # pp)))"

text \<open>
  \<open>pp\<close> is the data arrays of the allocated records, \<open>None\<close> when \<open>malloc\<close> fails; \<open>fd\<close> is
  the descriptor of a successful \<open>open\<close>. A result \<open>None\<close> means that a \<open>write\<close> has not returned.
\<close>

datatype open_result = Open_Ok | Open_Enoent | Open_Error

definition create_packet_file :: "open_result \<Rightarrow> bool \<Rightarrow> u8 list list option \<Rightarrow> int \<Rightarrow> u64 list
    \<Rightarrow> int option cres" where
  "create_packet_file first_open second_ok malloc fd writes =
     (if first_open = Open_Error \<or> (first_open = Open_Enoent \<and> \<not> second_ok) then Inr (Some (-1))
      else case malloc of
        None \<Rightarrow> Inr (Some (-1))
      | Some pp \<Rightarrow> cbind (fill_records pp) (\<lambda>pp.
          cbind (write_loop (of_nat (payload_rec_size * EXPECTED_PACKET_COUNT)) 0 writes) (\<lambda>w.
          Inr (case w of Failed \<Rightarrow> Some (-1) | Written _ \<Rightarrow> Some fd | Blocked \<Rightarrow> None))))"

section \<open>main\<close>

text \<open>
  The clean-up compares the three pointers with \<open>MAP_FAILED\<close>; \<open>None\<close> is a pointer whose
  declaration the jump has skipped.
\<close>

definition cleanup :: "bool option list \<Rightarrow> int cres" where
  "cleanup maps = (if None \<in> set maps then Inl Uninit_Read else Inr 0)"

text \<open>Either \<open>main\<close> returns, or parent and child run from the given state.\<close>

datatype pp_start = Main_Returns int | Main_Runs pp_state

definition pp_main :: "int \<Rightarrow> bool \<Rightarrow> bool \<Rightarrow> bool \<Rightarrow> int \<Rightarrow> pp_start cres" where
  "pp_main fd buf_ok ready_ok free_ok pid =
     (if fd = -1 then cbind (cleanup [None, None, None]) (\<lambda>r. Inr (Main_Returns r))
      else if \<not> buf_ok then cbind (cleanup [Some False, None, None]) (\<lambda>r. Inr (Main_Returns r))
      else if \<not> ready_ok then cbind (cleanup [Some True, Some False, None]) (\<lambda>r. Inr (Main_Returns r))
      else if \<not> free_ok then cbind (cleanup [Some True, Some True, Some False]) (\<lambda>r. Inr (Main_Returns r))
      else if pid < 0 then Inr (Main_Returns 1)
      else Inr (Main_Runs pp_init))"

text \<open>
  The child before its loop: \<open>None\<close> is an exit, otherwise the bytes it will read, those of
  the file behind \<open>fd\<close>, whatever they are.
\<close>

definition child_start :: "bool \<Rightarrow> bool \<Rightarrow> u8 list \<Rightarrow> u8 list option" where
  "child_start fstat_ok map_ok file = (if \<not> fstat_ok \<or> \<not> map_ok then None else Some file)"

text \<open>What the parent does when its loop is over; \<open>waitpid\<close> fails with -1, which is not zero.\<close>

definition parent_end :: "int \<Rightarrow> u64 \<Rightarrow> (u64 \<times> u64) option \<times> int cres" where
  "parent_end wait actual =
     (if wait = 0 then (None, cleanup [Some True, Some True, Some True])
      else (Some (calc_expected_checksum, actual), cleanup [Some True, Some True, Some True]))"

section \<open>What can go wrong\<close>

lemma fill_records_undefined:
  assumes "pp \<noteq> []" "length (hd pp) = payload_num_bytes"
  shows "fill_records pp = Inl Shift_Width"
proof -
  obtain data ds where "pp = data # ds" "length data = 6"
    using assms by (cases pp) (simp_all add: MAX_PAYLOAD_DATA_SIZE_def)
  with fill_record_undefined [of data] show ?thesis by simp
qed

lemma write_second:
  assumes "0 < w" "w < sz"
  shows "write_loop sz w (v # ws) = Inl Out_Of_Bounds"
proof -
  have u: "0 < unat w" "unat w < unat sz" using assms by (simp_all add: word_less_nat_alt unat_gt_0)
  have "unat (sz - w) = unat sz - unat w" using assms(2) by (simp add: unat_sub)
  then have "unat sz < unat w * payload_rec_size + unat (sz - w)"
    using u by (simp add: payload_rec_size_def MAX_PAYLOAD_DATA_SIZE_def)
  then show ?thesis using assms by simp
qed

lemma write_loop_results:
  assumes sz: "0 < sz"
  shows "write_loop sz 0 [sz] = Inr (Written sz)" "write_loop sz 0 [-1] = Inr (Written (-1))"
    and "0 < w \<Longrightarrow> w < sz \<Longrightarrow> write_loop sz 0 (w # v # ws) = Inl Out_Of_Bounds"
proof -
  have "\<not> (-1 :: u64) < sz" by (simp add: word_n1_ge not_less)
  then show "write_loop sz 0 [-1] = Inr (Written (-1))" using sz by simp
  show "write_loop sz 0 [sz] = Inr (Written sz)" using sz by simp
  show "write_loop sz 0 (w # v # ws) = Inl Out_Of_Bounds" if "0 < w" "w < sz"
    using write_second [OF that, of v ws] sz by (subst write_loop.simps(2)) (simp del: write_loop.simps(2))
qed

lemma consumer_alone: "0 < n \<Longrightarrow> (consumer_step n)\<^sup>*\<^sup>* pp_init s \<Longrightarrow> s = pp_init"
  by (erule rtranclp_induct) (auto simp: pp_init_def ring_is_empty_def elim: consumer_step.cases)

text \<open>
  C34. How \<open>packet_proc.c\<close> handles failures before its loops. \<open>create_packet_file\<close> never
  delivers a file: it returns -1 or is undefined while it fills the records. Its write
  loop would work if the first \<open>write\<close> took everything; a failing \<open>write\<close> ends the loop as
  a success (\<open>wlen < 0\<close> on a \<open>size_t\<close>), and a partial one makes the next call read past the
  buffer. A failure of \<open>create_packet_file\<close> or of one of the first two \<open>mmap\<close>s makes the
  clean-up read pointers that were never initialised. When the child exits early the
  parent waits for good.
\<close>

theorem packet_setup_failures:
  assumes "length pp = EXPECTED_PACKET_COUNT" "\<forall>data \<in> set pp. length data = payload_num_bytes"
    and "0 < sz" "0 < n"
  shows "create_packet_file first_open second_ok (Some pp) fd writes
        = (if first_open = Open_Error \<or> first_open = Open_Enoent \<and> \<not> second_ok then Inr (Some (-1)) else Inl Shift_Width)
      \<and> write_loop sz 0 [sz] = Inr (Written sz) \<and> write_loop sz 0 [-1] = Inr (Written (-1))
      \<and> (0 < w \<and> w < sz \<longrightarrow> write_loop sz 0 (w # v # ws) = Inl Out_Of_Bounds)
      \<and> (pp_main fd buf_ok ready_ok free_ok pid = Inl Uninit_Read \<longleftrightarrow> fd = -1 \<or> \<not> buf_ok \<or> \<not> ready_ok)
      \<and> ((consumer_step n)\<^sup>*\<^sup>* pp_init s \<longrightarrow> s = pp_init)"
proof -
  have "pp \<noteq> []" using assms(1) by (auto simp: EXPECTED_PACKET_COUNT_def)
  moreover from this have "length (hd pp) = payload_num_bytes" using assms(2) by simp
  ultimately have "create_packet_file first_open second_ok (Some pp) fd writes
      = (if first_open = Open_Error \<or> first_open = Open_Enoent \<and> \<not> second_ok then Inr (Some (-1)) else Inl Shift_Width)"
    by (simp add: create_packet_file_def fill_records_undefined)
  moreover have "pp_main fd buf_ok ready_ok free_ok pid = Inl Uninit_Read \<longleftrightarrow> fd = -1 \<or> \<not> buf_ok \<or> \<not> ready_ok"
    by (simp add: pp_main_def cleanup_def)
  ultimately show ?thesis
    using write_loop_results(1,2) [OF assms(3)] write_loop_results(3) [OF assms(3), of w v ws]
      consumer_alone [OF assms(4), of s] by blast
qed

theorem packet_setup_failures_witness:
  "create_packet_file Open_Ok True (Some (replicate EXPECTED_PACKET_COUNT (replicate 6 0))) 3 [] = Inl Shift_Width
   \<and> write_loop 100 0 [5, 95] = Inl Out_Of_Bounds \<and> pp_main (-1) True True True 7 = Inl Uninit_Read"
  using packet_setup_failures [where pp = "replicate EXPECTED_PACKET_COUNT (replicate 6 0)" and sz = 100 and n = 1
      and first_open = Open_Ok and second_ok = True and fd = 3 and writes = "[]" and w = 5 and v = 95 and ws = "[]"]
    packet_setup_failures [where pp = "replicate EXPECTED_PACKET_COUNT (replicate 6 0)" and sz = 100 and n = 1
      and fd = "-1" and buf_ok = True and ready_ok = True and free_ok = True and pid = 7]
  by (simp add: MAX_PAYLOAD_DATA_SIZE_def del: write_loop.simps)

text \<open>
  The part of \<open>main\<close> after \<open>create_packet_file\<close>, which the program itself never reaches
  (\<open>packet_setup_failures\<close>). If the child found a file with the dummy records, as a
  corrected \<open>create_packet_file\<close> would write it, then from every state of the two loops
  the run could be completed, after which the parent would print equal checksums and
  return 0.
\<close>

theorem rest_of_main_prints_equal:
  assumes "fd \<noteq> -1" "0 \<le> pid" "wait \<noteq> 0"
    and "child_start True True (dummy_traffic EXPECTED_PACKET_COUNT) = Some traffic"
  shows "\<exists>s0. pp_main fd True True True pid = Inr (Main_Runs s0)
    \<and> (\<forall>s. (pp_step traffic EXPECTED_PACKET_COUNT)\<^sup>*\<^sup>* s0 s \<longrightarrow>
        (\<exists>t c. (pp_step traffic EXPECTED_PACKET_COUNT)\<^sup>*\<^sup>* s t \<and> pp_done traffic EXPECTED_PACKET_COUNT t
           \<and> parent_end wait (checksum t) = (Some (c, c), Inr 0)))"
proof -
  let ?n = EXPECTED_PACKET_COUNT
  have traffic: "traffic = dummy_traffic ?n" using assms(4) by (simp add: child_start_def)
  have main: "pp_main fd True True True pid = Inr (Main_Runs pp_init)" using assms(1,2) by (simp add: pp_main_def)
  have fin: "\<exists>t c. (pp_step traffic ?n)\<^sup>*\<^sup>* s t \<and> pp_done traffic ?n t
      \<and> parent_end wait (checksum t) = (Some (c, c), Inr 0)" if "(pp_step traffic ?n)\<^sup>*\<^sup>* pp_init s" for s
  proof -
    from that have "pp_reach traffic ?n s" by (induction rule: rtranclp_induct) (auto intro: pp_reach.intros)
    from pp_dummy_completes [OF this [unfolded traffic]] obtain t where
      t: "(pp_step traffic ?n)\<^sup>*\<^sup>* s t" "pp_done traffic ?n t" "checksum t = calc_expected_checksum"
      unfolding traffic by blast
    have "parent_end wait (checksum t) = (Some (checksum t, checksum t), Inr 0)"
      using assms(3) t(3) by (simp add: parent_end_def cleanup_def)
    with t(1,2) show ?thesis by blast
  qed
  from main fin show ?thesis by blast
qed

text \<open>The shared buffer is large enough for its packets in spite of the missing parentheses.\<close>

lemma packet_buf_fits: "unat BUFFER_SIZE * sizeof_packet \<le> packet_buf_size"
  by (simp add: packet_buf_size_def sizeof_packet_def BUFFER_SIZE_def MAX_PAYLOAD_DATA_SIZE_def PAYLOAD_HEADER_SIZE_def)

text \<open>The timestamp is exact while the nanoseconds fit 64 bits, that is for over 500 years.\<close>

lemma current_nanoseconds_exact:
  assumes "0 \<le> tv_sec" "0 \<le> tv_nsec" "tv_sec * 1000000000 + tv_nsec < 2 ^ 64"
  shows "uint (current_nanoseconds tv_sec tv_nsec) = tv_sec * 1000000000 + tv_nsec"
proof -
  have "current_nanoseconds tv_sec tv_nsec = word_of_int (tv_sec * 1000000000 + tv_nsec)"
    by (simp add: current_nanoseconds_def)
  then have "uint (current_nanoseconds tv_sec tv_nsec) = (tv_sec * 1000000000 + tv_nsec) mod 2 ^ 64"
    by (simp only: uint_word_of_int) simp
  then show ?thesis using assms by simp
qed

end
