(* ===== verification/Logstore_Test.thy ===== *)
theory Logstore_Test
  imports Log_Store
begin

text \<open>
  The tests of \<open>logstore_test.c\<close>, run on the model of \<open>logstore.c\<close>, and the debugging
  output \<open>print_logstore_buffer\<close>. Every \<open>logstore_put\<close> and \<open>logstore_get\<close> holds the store's
  lock for its whole body, so the threads of the second test make their calls in some
  interleaving of their call sequences.
\<close>

section \<open>The tests\<close>

abbreviation ls_exec :: "LogStore \<Rightarrow> (int, int) kv_call list \<Rightarrow> LogStore cres" where
  "ls_exec \<equiv> kv_exec logstore_put logstore_get (logstore_clean True)"

text \<open>The loop that compares the first entries of the buffer with the expected values.\<close>

fun check_vals :: "LogStore \<Rightarrow> (int \<Rightarrow> int) \<Rightarrow> int list \<Rightarrow> bool cres" where
  "check_vals store expected [] = Inr True"
| "check_vals store expected (j # js) =
     cbind (logstore_get_buffer_index store j) (\<lambda>e.
     cbind (check_vals store expected js) (\<lambda>ok. Inr (value e = expected j \<and> ok)))"

definition simple_calls :: "int \<Rightarrow> (int, int) kv_call list" where
  "simple_calls krange = concat (map (\<lambda>i. map (\<lambda>j. Put j (i * j)) [0..krange - 1]) [0, 1])"

text \<open>The result is the expectation of the test; its last statement is a second clean.\<close>

definition simple_put_clean_test :: "bool cres" where
  "simple_put_clean_test =
     cbind (logstore_create True (2 * 10) 10) (\<lambda>store.
     cbind (ls_exec store (simple_calls 10)) (\<lambda>store.
     cbind (logstore_clean True store) (\<lambda>store.
     cbind (check_vals store (\<lambda>j. j) [0..9]) (\<lambda>ok.
     cbind (logstore_clean True store) (\<lambda>_. Inr ok)))))"

definition put_thread :: "nat \<Rightarrow> nat \<Rightarrow> (int, int) kv_call list" where
  "put_thread krange reps = map (\<lambda>i. Put (int (i mod krange)) (int i)) [0..<reps]"

definition get_thread :: "nat \<Rightarrow> nat \<Rightarrow> (int, int) kv_call list" where
  "get_thread krange reps = map (\<lambda>i. Get (int (i mod krange))) [0..<reps]"

definition multi_runs :: "nat \<Rightarrow> nat \<Rightarrow> (int, int) kv_call list set" where
  "multi_runs krange reps = (\<Union>gs \<in> shuffles (get_thread krange reps) (get_thread krange reps).
     \<Union>ps \<in> shuffles (put_thread krange reps) (put_thread krange reps). shuffles ps gs)"

definition multi_put_get_clean_test :: "(int, int) kv_call list \<Rightarrow> bool cres" where
  "multi_put_get_clean_test cs =
     cbind (logstore_create True 5000 10) (\<lambda>store.
     cbind (ls_exec store cs) (\<lambda>store.
     cbind (logstore_clean True store) (\<lambda>store.
     check_vals store (\<lambda>j. 2000 - 10 + j) [0..9])))"

text \<open>What \<open>print_logstore_buffer\<close> prints, from index \<open>i\<close> with \<open>n\<close> entries left.\<close>

fun print_loop :: "LogStore \<Rightarrow> int \<Rightarrow> nat \<Rightarrow> (int \<times> int) list cres" where
  "print_loop store i 0 = Inr []"
| "print_loop store i (Suc n) =
     cbind (logstore_get_buffer_index store i) (\<lambda>e.
     cbind (print_loop store (i + 1) n) (\<lambda>out. Inr ((key e, value e) # out)))"

definition print_logstore_buffer :: "LogStore \<Rightarrow> (int \<times> int) list cres" where
  "print_logstore_buffer store = print_loop store 0 (nat (capacity store))"

section \<open>Last writes in interleavings\<close>

fun puts_to :: "'k \<Rightarrow> ('k, 'v) kv_call \<Rightarrow> bool" where
  "puts_to k (Put j v) \<longleftrightarrow> j = k"
| "puts_to k c \<longleftrightarrow> False"

lemma map_exec_last:
  assumes "filter (puts_to k) cs \<noteq> []" "last (filter (puts_to k) cs) = Put k v"
  shows "map_exec m cs k = Some v"
  using assms
proof (induction cs arbitrary: m rule: rev_induct)
  case (snoc c cs)
  show ?case
  proof (cases "puts_to k c")
    case True
    with snoc.prems have "c = Put k v" by simp
    then show ?thesis by (simp add: map_exec_append)
  next
    case False
    with snoc have "map_exec m cs k = Some v" by simp
    with False show ?thesis by (cases c) (auto simp: map_exec_append)
  qed
qed simp

lemma last_shuffles:
  "zs \<in> shuffles xs ys \<Longrightarrow> (xs \<noteq> [] \<Longrightarrow> last xs = x) \<Longrightarrow> (ys \<noteq> [] \<Longrightarrow> last ys = x) \<Longrightarrow> zs \<noteq> [] \<Longrightarrow> last zs = x"
proof (induction zs arbitrary: xs ys)
  case (Cons z zs)
  show ?case
  proof (cases "zs = []")
    case True
    with Cons.prems show ?thesis by (cases xs; cases ys) (auto simp: Cons_in_shuffles_iff)
  next
    case False
    from Cons.prems(1) consider
        "xs \<noteq> []" "hd xs = z" "zs \<in> shuffles (tl xs) ys" | "ys \<noteq> []" "hd ys = z" "zs \<in> shuffles xs (tl ys)"
      by (auto simp: Cons_in_shuffles_iff)
    then have "last zs = x"
    proof cases
      case 1
      from Cons.IH [OF 1(3)] Cons.prems(2,3) False 1(1) show ?thesis by (cases xs) (auto split: if_splits)
    next
      case 2
      from Cons.IH [OF 2(3)] Cons.prems(2,3) False 2(1) show ?thesis by (cases ys) (auto split: if_splits)
    qed
    with False show ?thesis by simp
  qed
qed simp

lemma last_filter_upt:
  assumes "p m" "m < b" "\<And>i. m < i \<Longrightarrow> i < b \<Longrightarrow> \<not> p i"
  shows "filter p [0..<b] = filter p [0..<m] @ [m]"
proof -
  have "[0..<b] = [0..<m] @ m # [Suc m..<b]"
    using assms(2) by (metis less_imp_le_nat upt_add_eq_append upt_conv_Cons le_add_diff_inverse zero_le)
  moreover have "filter p [Suc m..<b] = []" using assms(3) by (auto simp: filter_empty_conv)
  ultimately show ?thesis using assms(1) by simp
qed

lemma put_thread_last:
  assumes "j < r" "r dvd n" "0 < n"
  shows "filter (puts_to (int j)) (put_thread r n) \<noteq> []"
    and "last (filter (puts_to (int j)) (put_thread r n)) = Put (int j) (int (n - r + j))"
proof -
  obtain q where q: "n = r * Suc q" using assms(2,3) by (metis dvdE gr0_implies_Suc mult_0_right not_gr_zero)
  then have m: "n - r + j = r * q + j" by simp
  have "filter (\<lambda>i. i mod r = j) [0..<n] = filter (\<lambda>i. i mod r = j) [0..<r * q + j] @ [r * q + j]"
  proof (rule last_filter_upt)
    fix i assume i: "r * q + j < i" "i < n"
    show "i mod r \<noteq> j"
    proof
      assume "i mod r = j"
      moreover have "i div r = q" using i q assms(1) by (intro div_nat_eqI) (simp_all add: mult.commute)
      ultimately have "i = r * q + j" using mult_div_mod_eq [of r i] by simp
      with i show False by simp
    qed
  qed (use assms q in auto)
  then have "filter (puts_to (int j)) (put_thread r n)
      = map (\<lambda>i. Put (int (i mod r)) (int i)) (filter (\<lambda>i. i mod r = j) [0..<r * q + j] @ [r * q + j])"
    by (simp add: put_thread_def filter_map comp_def)
  then show "filter (puts_to (int j)) (put_thread r n) \<noteq> []"
    "last (filter (puts_to (int j)) (put_thread r n)) = Put (int j) (int (n - r + j))"
    using assms(1) unfolding m by simp_all
qed

section \<open>The tests pass\<close>

lemma multi_run_last:
  assumes "cs \<in> multi_runs r n" "j < r" "r dvd n" "0 < n"
  shows "map_exec m cs (int j) = Some (int (n - r + j))"
proof -
  let ?P = "puts_to (int j)"
  from assms(1) obtain gs ps where gs: "gs \<in> shuffles (get_thread r n) (get_thread r n)"
    and ps: "ps \<in> shuffles (put_thread r n) (put_thread r n)" and cs: "cs \<in> shuffles ps gs"
    by (auto simp: multi_runs_def)
  have "set gs = set (get_thread r n)" using set_shuffles [OF gs] by simp
  then have nogets: "filter ?P gs = []" by (auto simp: filter_empty_conv get_thread_def)
  have "filter ?P cs \<in> shuffles (filter ?P ps) (filter ?P gs)"
    using cs by (auto simp: filter_shuffles [symmetric])
  then have eq: "filter ?P cs = filter ?P ps" by (simp add: nogets)
  have fp: "filter ?P ps \<in> shuffles (filter ?P (put_thread r n)) (filter ?P (put_thread r n))"
    using ps by (auto simp: filter_shuffles [symmetric])
  have "set (filter ?P ps) = set (filter ?P (put_thread r n))" using set_shuffles [OF ps] by simp
  then have ne: "filter ?P ps \<noteq> []" using put_thread_last(1) [OF assms(2-4)] by (metis set_empty)
  from last_shuffles [OF fp _ _ ne] put_thread_last(2) [OF assms(2-4)]
  have "last (filter ?P ps) = Put (int j) (int (n - r + j))" by blast
  with ne show ?thesis unfolding eq [symmetric] by (rule map_exec_last)
qed

lemma puts_filter: "puts cs = length (filter (\<lambda>c. \<exists>k. puts_to k c) cs)"
proof (induction cs)
  case (Cons c cs)
  then show ?case by (cases c) auto
qed simp

lemma multi_run_puts:
  assumes "cs \<in> multi_runs r n" "0 < r"
  shows "puts cs = 2 * n" "\<forall>c \<in> set cs. kv_key_ok (\<lambda>k. 0 \<le> k \<and> k < int r) c" "Clean \<notin> set cs"
proof -
  let ?P = "\<lambda>c :: (int, int) kv_call. \<exists>k. puts_to k c"
  from assms obtain gs ps where gs: "gs \<in> shuffles (get_thread r n) (get_thread r n)"
    and ps: "ps \<in> shuffles (put_thread r n) (put_thread r n)" and cs: "cs \<in> shuffles ps gs"
    by (auto simp: multi_runs_def)
  have sets: "set ps = set (put_thread r n)" "set gs = set (get_thread r n)" "set cs = set ps \<union> set gs"
    using set_shuffles [OF ps] set_shuffles [OF gs] set_shuffles [OF cs] by simp_all
  have "filter ?P gs = []" using sets(2) by (auto simp: filter_empty_conv get_thread_def)
  moreover have "filter ?P cs \<in> shuffles (filter ?P ps) (filter ?P gs)"
    using cs by (auto simp: filter_shuffles [symmetric])
  ultimately have "filter ?P cs = filter ?P ps" by simp
  moreover have "filter ?P ps = ps" using sets(1) by (auto simp: filter_id_conv put_thread_def)
  ultimately show "puts cs = 2 * n"
    using length_shuffles [OF ps] unfolding puts_filter by (simp add: put_thread_def)
  show "\<forall>c \<in> set cs. kv_key_ok (\<lambda>k. 0 \<le> k \<and> k < int r) c" "Clean \<notin> set cs"
    using sets assms(2) by (auto simp: put_thread_def get_thread_def)
qed

lemma check_vals_ok:
  "\<forall>j \<in> set js. logstore_get_buffer_index store j = Inr \<lparr>key = j, value = f j\<rparr> \<Longrightarrow>
   check_vals store f js = Inr True"
  by (induction js) simp_all

text \<open>After a clean of a store in which every key has an entry, entry \<open>j\<close> is that of key \<open>j\<close>.\<close>

lemma clean_check:
  assumes "ls_inv store" "\<not> below_threshold store" "key_range store = int r"
    and "\<And>j. j < r \<Longrightarrow> ls_map store (int j) = Some (f (int j))"
  shows "\<exists>s. logstore_clean True store = Inr s \<and> ls_inv s \<and> check_vals s f [0..int r - 1] = Inr True"
proof -
  from clean_compacts [OF assms(1,2)] obtain s where s: "logstore_clean True store = Inr s" "ls_inv s"
    and log: "take (nat (head s)) (buffer s)
      = map (\<lambda>k. map_option (\<lambda>v. \<lparr>key = int k, value = v\<rparr>) (ls_map store (int k)))
          (filter (\<lambda>k. ls_map store (int k) \<noteq> None) [0..<nat (key_range store)])" by blast
  have all: "filter (\<lambda>k. ls_map store (int k) \<noteq> None) [0..<r] = [0..<r]"
    using assms(4) by (simp add: filter_id_conv)
  then have log: "take (nat (head s)) (buffer s) = map (\<lambda>k. Some \<lparr>key = int k, value = f (int k)\<rparr>) [0..<r]"
    using log assms(3,4) by simp
  have "logstore_get_buffer_index s j = Inr \<lparr>key = j, value = f j\<rparr>" if "0 \<le> j" "j < int r" for j
  proof -
    have len: "nat j < length (take (nat (head s)) (buffer s))" using that unfolding log by simp
    then have "buffer s ! nat j = take (nat (head s)) (buffer s) ! nat j" by simp
    also have "\<dots> = Some \<lparr>key = j, value = f j\<rparr>" using that unfolding log by (simp add: nat_less_iff)
    finally have "buffer s ! nat j = Some \<lparr>key = j, value = f j\<rparr>" .
    with len that(1) show ?thesis by (simp add: logstore_get_buffer_index_def nat_less_iff)
  qed
  then have "check_vals s f [0..int r - 1] = Inr True" by (intro check_vals_ok) auto
  with s show ?thesis by blast
qed

lemma ls_exec_keeps:
  "ls_exec store cs = Inr s \<Longrightarrow> capacity s = capacity store \<and> key_range s = key_range store"
proof (induction cs arbitrary: store)
  case (Cons c cs)
  have "capacity t = capacity store \<and> key_range t = key_range store" if "logstore_put store k v = Inr t" for k v t
    using that by (auto simp: logstore_put_def)
  moreover have "capacity t = capacity store \<and> key_range t = key_range store" if "logstore_clean True store = Inr t" for t
    using that by (auto simp: logstore_clean_def clean_switch_def split: if_splits)
  ultimately show ?case using Cons by (cases c) fastforce+
qed simp

text \<open>A fresh store after calls without a clean: what it holds, and how full it is.\<close>

lemma fresh_exec:
  assumes "0 \<le> cap" "cap \<le> INT_MAX" "logstore_create True cap (int r) = Inr store"
    and "int (puts cs) \<le> cap" "\<forall>c \<in> set cs. kv_key_ok (\<lambda>k. 0 \<le> k \<and> k < int r) c" "Clean \<notin> set cs"
  shows "\<exists>s. ls_exec store cs = Inr s \<and> ls_inv s \<and> ls_map s = map_exec Map.empty cs
    \<and> head s = int (puts cs) \<and> capacity s = cap \<and> key_range s = int r"
proof -
  have st: "ls_inv store" "ls_map store = Map.empty" "ls_room store = nat cap" "key_range store = int r"
    "capacity store = cap"
    using logstore_create_inv [OF assms(1,2), of "int r"] assms(3) by (auto simp: logstore_create_def)
  have "valid_key store = (\<lambda>k. 0 \<le> k \<and> k < int r)" using st(4) by (simp add: valid_key_def fun_eq_iff)
  moreover have "puts cs \<le> nat cap" using assms(4) by simp
  ultimately obtain s where
    s: "ls_exec store cs = Inr s" "ls_inv s" "ls_map s = map_exec Map.empty cs" "ls_room s = nat cap - puts cs"
    using log_kv.kv_exec_refines [of store cs] st(1-3) assms(5,6) by auto
  have "capacity s = cap" "key_range s = int r" using ls_exec_keeps [OF s(1)] st(4,5) by simp_all
  moreover from this(1) have "head s = int (puts cs)"
    using s(2,4) assms(1,4) by (simp add: ls_inv_def ls_room_def) linarith
  ultimately show ?thesis using s by blast
qed

lemma simple_calls_ok:
  "puts (simple_calls 10) = 20" "\<forall>c \<in> set (simple_calls 10). kv_key_ok (\<lambda>k. 0 \<le> k \<and> k < int 10) c"
  "Clean \<notin> set (simple_calls 10)" "j < 10 \<Longrightarrow> map_exec m (simple_calls 10) (int j) = Some (int j)"
proof -
  show "puts (simple_calls 10) = 20" by code_simp
  show "\<forall>c \<in> set (simple_calls 10). kv_key_ok (\<lambda>k. 0 \<le> k \<and> k < int 10) c" "Clean \<notin> set (simple_calls 10)"
    by (auto simp: simple_calls_def)
  show "map_exec m (simple_calls 10) (int j) = Some (int j)" if "j < 10"
  proof -
    from that have "j = 0 \<or> j = 1 \<or> j = 2 \<or> j = 3 \<or> j = 4 \<or> j = 5 \<or> j = 6 \<or> j = 7 \<or> j = 8 \<or> j = 9" by arith
    then show ?thesis
      by (intro map_exec_last; elim disjE) (simp_all add: simple_calls_def upto.simps)
  qed
qed

text \<open>
  C24. The repository's own tests of the log store hold in the model: the expectation of
  \<open>simple_put_clean_test\<close> is met, and that of \<open>multi_put_get_clean_test\<close> in every
  interleaving of the calls of its two writing and two reading threads (the 4000 writes
  fill the store to exactly 80 per cent, so the clean is made).
\<close>

theorem logstore_tests_pass:
  "simple_put_clean_test = Inr True
   \<and> (cs \<in> multi_runs 10 2000 \<longrightarrow> multi_put_get_clean_test cs = Inr True)"
proof (intro conjI impI)
  obtain store where c: "logstore_create True 20 (int 10) = Inr store"
    by (simp add: logstore_create_def)
  have "\<exists>s. ls_exec store (simple_calls 10) = Inr s \<and> ls_inv s \<and> ls_map s = map_exec Map.empty (simple_calls 10)
    \<and> head s = int (puts (simple_calls 10)) \<and> capacity s = 20 \<and> key_range s = int 10"
    by (rule fresh_exec [OF _ _ c]) (use simple_calls_ok(1-3) in \<open>simp_all add: INT_MAX_def\<close>)
  then obtain s where s: "ls_exec store (simple_calls 10) = Inr s" "ls_inv s" "ls_map s = map_exec Map.empty (simple_calls 10)"
    "head s = 20" "capacity s = 20" "key_range s = int 10" by (auto simp: simple_calls_ok(1))
  have "\<not> below_threshold s" using s by (simp add: below_threshold_def)
  from clean_check [OF s(2) this s(6), of "\<lambda>j. j"] s(3) simple_calls_ok(4) obtain t where
    t: "logstore_clean True s = Inr t" "ls_inv t" "check_vals t (\<lambda>j. j) [0..int 10 - 1] = Inr True" by auto
  from logstore_clean_ok [OF t(2)] obtain u where "logstore_clean True t = Inr u" by blast
  with c s(1) t show "simple_put_clean_test = Inr True" by (simp add: simple_put_clean_test_def)
next
  assume cs: "cs \<in> multi_runs 10 2000"
  note calls = multi_run_puts [OF cs]
  obtain store where c: "logstore_create True 5000 (int 10) = Inr store"
    by (simp add: logstore_create_def)
  have "\<exists>s. ls_exec store cs = Inr s \<and> ls_inv s \<and> ls_map s = map_exec Map.empty cs
    \<and> head s = int (puts cs) \<and> capacity s = 5000 \<and> key_range s = int 10"
    by (rule fresh_exec [OF _ _ c]) (use calls in \<open>simp_all add: INT_MAX_def\<close>)
  then obtain s where s: "ls_exec store cs = Inr s" "ls_inv s" "ls_map s = map_exec Map.empty cs"
    "head s = 4000" "capacity s = 5000" "key_range s = int 10" by (auto simp: calls(1))
  have "\<not> below_threshold s" using s by (simp add: below_threshold_def)
  moreover have "ls_map s (int j) = Some (2000 - 10 + int j)" if "j < 10" for j
    using multi_run_last [OF cs that] s(3) by simp
  ultimately obtain t where "logstore_clean True s = Inr t" "check_vals t (\<lambda>j. 2000 - 10 + j) [0..int 10 - 1] = Inr True"
    using clean_check [OF s(2) _ s(6), of "\<lambda>j. 2000 - 10 + j"] by blast
  with c s(1) show "multi_put_get_clean_test cs = Inr True" by (simp add: multi_put_get_clean_test_def)
qed

lemma append_in_shuffles: "xs @ ys \<in> shuffles xs ys"
  by (induction xs) (auto simp: Cons_in_shuffles_iff)

theorem logstore_tests_pass_witness:
  "multi_put_get_clean_test ((put_thread 10 2000 @ put_thread 10 2000) @ (get_thread 10 2000 @ get_thread 10 2000)) = Inr True"
proof -
  have "(put_thread 10 2000 @ put_thread 10 2000) @ (get_thread 10 2000 @ get_thread 10 2000) \<in> multi_runs 10 2000"
    unfolding multi_runs_def using append_in_shuffles by blast
  with logstore_tests_pass show ?thesis by blast
qed

section \<open>Printing the buffer\<close>

text \<open>The copy loop of a clean writes no entry at or after the head it returns.\<close>

lemma clean_loop_rest:
  assumes "clean_loop store i n nb nm nh = Inr (nb', nm', nh')" "0 \<le> nh"
    and "\<And>j. nat nh \<le> j \<Longrightarrow> j < length nb \<Longrightarrow> nb ! j = None"
  shows "nh \<le> nh' \<and> length nb' = length nb \<and> (\<forall>j. nat nh' \<le> j \<and> j < length nb \<longrightarrow> nb' ! j = None)"
  using assms
proof (induction n arbitrary: i nb nm nh)
  case (Suc n)
  show ?case
  proof (cases "clean_loop store (i + 1) n nb nm nh = Inr (nb', nm', nh')")
    case True
    with Suc.IH [OF True] Suc.prems show ?thesis by blast
  next
    case False
    with Suc.prems(1) obtain e nm2 where step: "nat nh < length nb"
      "clean_loop store (i + 1) n (nb[nat nh := e]) nm2 (nh + 1) = Inr (nb', nm', nh')"
      using Suc.prems(2) by (auto simp: iset_def arr_set_def c_int_def split: if_splits)
    have "nb[nat nh := e] ! j = None" if "nat (nh + 1) \<le> j" "j < length (nb[nat nh := e])" for j
      using that Suc.prems(2) Suc.prems(3) [of j] by auto
    with Suc.IH [OF step(2)] Suc.prems(2) show ?thesis by auto
  qed
qed simp

lemma print_loop_uninit:
  assumes "0 \<le> i" "i \<le> int k" "int k < i + int n" "k < length (buffer store)" "buffer store ! k = None"
    and "\<And>j. j < k \<Longrightarrow> buffer store ! j \<noteq> None"
  shows "print_loop store i n = Inl Uninit_Read"
  using assms(1-3)
proof (induction n arbitrary: i)
  case (Suc n)
  have len: "i < int (length (buffer store))" using Suc.prems(2) assms(4) by linarith
  show ?case
  proof (cases "i = int k")
    case True
    then show ?thesis using assms(4,5) by (simp add: logstore_get_buffer_index_def)
  next
    case False
    with Suc.prems have "nat i < k" by linarith
    then obtain e where "buffer store ! nat i = Some e" using assms(6) by blast
    with Suc.IH [of "i + 1"] Suc.prems False len show ?thesis by (simp add: logstore_get_buffer_index_def)
  qed
qed simp

text \<open>
  \<open>print_logstore_buffer\<close> prints the whole capacity. After a clean that leaves free space that
  reads entries which were never written: the new buffer comes from \<open>malloc\<close>.
\<close>

theorem print_after_clean:
  assumes "ls_inv store" "\<not> below_threshold store" "logstore_clean True store = Inr s" "head s < capacity s"
  shows "print_logstore_buffer s = Inl Uninit_Read"
proof -
  obtain new where new: "clean_copy True store = Inr new" "s = clean_switch new store"
    using assms(2,3) by (auto simp: logstore_clean_def)
  obtain nb nm nh where n: "new = (nb, nm, nh)" by (cases new) auto
  have "clean_loop store 0 (nat (key_range store)) (replicate (nat (capacity store)) None)
      (replicate (nat (key_range store)) (- 1)) 0 = Inr (nb, nm, nh)"
    using new(1) n by (simp add: clean_copy_def)
  from clean_loop_rest [OF this] have rest: "length nb = nat (capacity store)"
    "\<And>j. nat nh \<le> j \<Longrightarrow> j < nat (capacity store) \<Longrightarrow> nb ! j = None" by auto
  have s: "buffer s = nb" "head s = nh" "capacity s = capacity store" using new(2) n by (simp_all add: clean_switch_def)
  obtain t where t: "logstore_clean True store = Inr t" "ls_inv t" "take (nat (head t)) (buffer t)
      = map (\<lambda>k. map_option (\<lambda>v. \<lparr>key = int k, value = v\<rparr>) (ls_map store (int k)))
          (filter (\<lambda>k. ls_map store (int k) \<noteq> None) [0..<nat (key_range store)])"
    using clean_compacts [OF assms(1,2)] by blast
  have "t = s" using t(1) assms(3) by simp
  then have inv: "ls_inv s" using t(2) by simp
  have "None \<notin> set (map (\<lambda>k. map_option (\<lambda>v. \<lparr>key = int k, value = v\<rparr>) (ls_map store (int k)))
      (filter (\<lambda>k. ls_map store (int k) \<noteq> None) [0..<nat (key_range store)]))" by auto
  then have log: "None \<notin> set (take (nat (head s)) (buffer s))" using t(3) \<open>t = s\<close> by (simp only:) simp
  have "buffer s ! j \<noteq> None" if "j < nat (head s)" for j
  proof -
    have "j < length (take (nat (head s)) (buffer s))" using that inv by (auto simp: ls_inv_def)
    from nth_mem [OF this] have "buffer s ! j \<in> set (take (nat (head s)) (buffer s))" using that by simp
    with log show ?thesis by metis
  qed
  moreover have "buffer s ! nat (head s) = None"
    using rest(2) [of "nat (head s)"] assms(4) inv s by (simp add: ls_inv_def)
  moreover have "0 \<le> head s" "nat (head s) < length (buffer s)" "int (nat (head s)) < int (nat (capacity s))"
    using inv assms(4) by (auto simp: ls_inv_def)
  ultimately show ?thesis unfolding print_logstore_buffer_def
    by (intro print_loop_uninit [where k = "nat (head s)"]) simp_all
qed

end
