(* ===== verification/Semaphore_Programs.thy ===== *)
theory Semaphore_Programs
  imports Semaphores C_Library
begin

text \<open>
  The programs around the synchronisation code of \<open>Semaphores\<close>: \<open>main\<close> of \<open>barrier.c\<close> and
  of \<open>reader-writer.c\<close>, with their command lines, and whole runs of the latter.
\<close>

section \<open>Command lines\<close>

datatype 'a prog_start = Assertion | Run 'a

definition barrier_main :: "string list \<Rightarrow> barrier_sys prog_start cres" where
  "barrier_main args =
     (case args of
        [n] \<Rightarrow> cbind (c_atoi n) (\<lambda>num_threads.
          Inr (if 0 < num_threads then Run (barrier_init (nat num_threads)) else Assertion))
      | _ \<Rightarrow> Inr Assertion)"

text \<open>Readers, writers and loops; an array of no threads is an undefined declaration.\<close>

definition rw_main :: "string list \<Rightarrow> (nat \<times> nat \<times> nat) prog_start cres" where
  "rw_main args =
     (case args of
        [r, w, l] \<Rightarrow>
          cbind (c_atoi r) (\<lambda>readers. cbind (c_atoi w) (\<lambda>writers. cbind (c_atoi l) (\<lambda>loops.
            if readers \<le> 0 \<or> writers \<le> 0 then Inl Vla_Size
            else Inr (Run (nat readers, nat writers, nat loops)))))
      | _ \<Rightarrow> Inr Assertion)"

lemma barrier_main_threads: "barrier_main args = Inr (Run s) \<Longrightarrow> \<exists>n > 0. s = barrier_init n"
  by (auto simp: barrier_main_def split: list.splits if_splits intro: exI [of _ "nat _"])

lemma rw_main_dec:
  assumes "0 < r" "0 < w" "int r \<le> INT_MAX" "int w \<le> INT_MAX" "int l \<le> INT_MAX"
  shows "rw_main [dec r, dec w, dec l] = Inr (Run (r, w, l))"
  using assms by (simp add: rw_main_def atoi_dec)

section \<open>Runs of reader-writer.c\<close>

text \<open>
  The rounds of the readers' and writers' loops that have not begun, with the state of
  the lock and of the rounds in progress. Which thread begins a round is left open, so
  every run of the program is among these runs.
\<close>

record rw_prog =
  rw_sys :: rwlock_sys
  reads_left :: nat
  writes_left :: nat

text \<open>A step of a round in progress; the start of a round makes more work.\<close>

definition rwlock_call :: "rwlock_sys \<Rightarrow> rwlock_sys \<Rightarrow> bool" where
  "rwlock_call s t \<longleftrightarrow> rwlock_step s t \<and> rwlock_left t < rwlock_left s"

inductive rw_prog_step :: "rw_prog \<Rightarrow> rw_prog \<Rightarrow> bool" where
  begin_read:
    "reads_left s = Suc k \<Longrightarrow>
     rw_prog_step s (s\<lparr>reads_left := k, rw_sys := (rw_sys s)\<lparr>r_lock := r_lock (rw_sys s) + 1\<rparr>\<rparr>)"
| begin_write:
    "writes_left s = Suc k \<Longrightarrow>
     rw_prog_step s (s\<lparr>writes_left := k, rw_sys := (rw_sys s)\<lparr>w_wait := w_wait (rw_sys s) + 1\<rparr>\<rparr>)"
| go_on: "rwlock_call (rw_sys s) t \<Longrightarrow> rw_prog_step s (s\<lparr>rw_sys := t\<rparr>)"

definition rw_prog_init :: "nat \<times> nat \<times> nat \<Rightarrow> rw_prog" where
  "rw_prog_init p = (case p of (readers, writers, loops) \<Rightarrow>
     \<lparr>rw_sys = rwlock_init, reads_left = readers * loops, writes_left = writers * loops\<rparr>)"

definition rw_finished :: "rw_prog \<Rightarrow> bool" where
  "rw_finished s \<longleftrightarrow> reads_left s = 0 \<and> writes_left s = 0 \<and> rwlock_left (rw_sys s) = 0"

definition rw_writes :: "rwlock_sys \<Rightarrow> int" where
  "rw_writes s = rw_value s + int (writing s + w_wait s)"

lemma rwlock_call_writes:
  assumes "rwlock_call s t"
  shows "rw_writes t = rw_writes s"
proof -
  have "rwlock_step s t" "rwlock_left t < rwlock_left s" using assms by (simp_all add: rwlock_call_def)
  then show ?thesis
    by (cases rule: rwlock_step.cases) (auto simp: rw_writes_def rwlock_left_def
        elim!: rwlock_acquire_readlock.cases rwlock_release_readlock.cases
          rwlock_acquire_writelock.cases rwlock_release_writelock.cases)
qed

definition rw_prog_inv :: "nat \<Rightarrow> rw_prog \<Rightarrow> bool" where
  "rw_prog_inv n s \<longleftrightarrow> rwlock_inv (rw_sys s) \<and> rw_writes (rw_sys s) + int (writes_left s) = int n"

definition rw_prog_left :: "rw_prog \<Rightarrow> nat" where
  "rw_prog_left s = 10 * reads_left s + 4 * writes_left s + rwlock_left (rw_sys s)"

lemma rw_prog_step_inv:
  assumes "rw_prog_step s t" "rw_prog_inv n s"
  shows "rw_prog_inv n t \<and> rw_prog_left t < rw_prog_left s"
  using assms(1)
proof cases
  case (begin_read k)
  then show ?thesis using assms(2) rwlock_step_inv [OF reader_starts, of "rw_sys s"]
    by (simp add: rw_prog_inv_def rw_prog_left_def rwlock_left_def rw_writes_def)
next
  case (begin_write k)
  then show ?thesis using assms(2) rwlock_step_inv [OF writer_starts, of "rw_sys s"]
    by (simp add: rw_prog_inv_def rw_prog_left_def rwlock_left_def rw_writes_def)
next
  case (go_on u)
  then have "rwlock_step (rw_sys s) u" "rwlock_left u < rwlock_left (rw_sys s)" by (simp_all add: rwlock_call_def)
  with go_on assms(2) rwlock_call_writes [of "rw_sys s" u] rwlock_step_inv [of "rw_sys s" u] show ?thesis
    by (simp add: rw_prog_inv_def rw_prog_left_def)
qed

lemma rw_prog_not_stuck:
  assumes "rw_prog_inv n s" "\<not> rw_finished s"
  shows "\<exists>t. rw_prog_step s t"
proof (cases "rwlock_left (rw_sys s) = 0")
  case True
  then consider k where "reads_left s = Suc k" | k where "writes_left s = Suc k"
    using assms(2) by (metis not0_implies_Suc rw_finished_def)
  then show ?thesis by cases (blast intro: begin_read begin_write)+
next
  case False
  with rwlock_can_step [of "rw_sys s"] assms(1) obtain t where "rwlock_call (rw_sys s) t"
    by (auto simp: rw_prog_inv_def rwlock_call_def)
  then show ?thesis by (blast intro: go_on)
qed

text \<open>
  C12. \<open>reader-writer R W L\<close> with at least one reader and one writer, and \<open>W * L\<close> in the range of
  \<open>int\<close>, which \<open>value\<close> then never leaves. However the threads
  are interleaved, the program ends after at most \<open>10 * R * L + 4 * W * L\<close> steps, all
  rounds done, and the value it prints is \<open>W * L\<close>: no increment is lost.
\<close>

theorem reader_writer_program:
  assumes "rw_main args = Inr (Run (r, w, l))" "(rw_prog_step ^^ k) (rw_prog_init (r, w, l)) s"
    and "int (w * l) \<le> INT_MAX"
  shows "k \<le> 10 * (r * l) + 4 * (w * l) \<and> (rw_finished s \<or> (\<exists>t. rw_prog_step s t))
    \<and> (rw_finished s \<longrightarrow> rw_value (rw_sys s) = int (w * l)) \<and> rw_value (rw_sys s) \<le> INT_MAX \<and> 0 < r \<and> 0 < w"
proof -
  have init: "rw_prog_inv (w * l) (rw_prog_init (r, w, l))"
    by (simp add: rw_prog_inv_def rw_prog_init_def rw_writes_def rwlock_inv_def rwlock_init_def)
  have run: "k + rw_prog_left s \<le> rw_prog_left (rw_prog_init (r, w, l)) \<and> rw_prog_inv (w * l) s"
    by (rule steps_bounded_inv [where R = rw_prog_step and I = "rw_prog_inv (w * l)" and f = rw_prog_left,
          OF assms(2) init rw_prog_step_inv])
  have left: "rw_prog_left (rw_prog_init (r, w, l)) = 10 * (r * l) + 4 * (w * l)"
    by (simp add: rw_prog_left_def rw_prog_init_def rwlock_left_def rwlock_init_def)
  have printed: "rw_value (rw_sys s) = int (w * l)" if "rw_finished s"
    using that run by (simp add: rw_prog_inv_def rw_finished_def rw_writes_def rwlock_left_def)
  have args: "0 < r" "0 < w" using assms(1) by (auto simp: rw_main_def split: list.splits if_splits)
  have "rw_value (rw_sys s) \<le> int (w * l)" using run by (simp add: rw_prog_inv_def rw_writes_def)
  then have small: "rw_value (rw_sys s) \<le> INT_MAX" using assms(3) by linarith
  have "k \<le> 10 * (r * l) + 4 * (w * l)" using run left by linarith
  then show ?thesis using printed args small rw_prog_not_stuck [OF conjunct2 [OF run]] by blast
qed

theorem reader_writer_program_witness:
  "rw_main [dec 5, dec 2, dec 3] = Inr (Run (5, 2, 3))
   \<and> (\<exists>t. rw_prog_step (rw_prog_init (5, 2, 3)) t)"
proof -
  have start: "rw_main [dec 5, dec 2, dec 3] = Inr (Run (5, 2, 3))"
    by (rule rw_main_dec) (simp_all add: INT_MAX_def)
  moreover have "(rw_prog_step ^^ 0) (rw_prog_init (5, 2, 3)) (rw_prog_init (5, 2, 3))" by simp
  from reader_writer_program [OF start this] have "\<exists>t. rw_prog_step (rw_prog_init (5, 2, 3)) t"
    by (simp add: rw_finished_def rw_prog_init_def INT_MAX_def)
  ultimately show ?thesis by blast
qed

end
