(* ===== verification/Heap_Use.thy ===== *)
theory Heap_Use
  imports Logstore_Test Counters
begin

text \<open>
  Ownership of heap blocks in \<open>logstore.c\<close>, \<open>logstore_test.c\<close> and the counters of
  \<open>29_LockedDataStructures\<close>: what is allocated, what is freed, and that nothing is freed twice
  or lost. A block is a number; its contents are those of the component theories, and
  the objects here add the pointers. Allocations are taken to succeed.
\<close>

section \<open>The heap\<close>

record heap =
  blocks :: "nat set"
  fresh :: nat

definition heap_ok :: "heap \<Rightarrow> bool" where
  "heap_ok h \<longleftrightarrow> (\<forall>b \<in> blocks h. b < fresh h)"

definition c_malloc :: "heap \<Rightarrow> nat \<times> heap" where
  "c_malloc h = (fresh h, \<lparr>blocks = insert (fresh h) (blocks h), fresh = Suc (fresh h)\<rparr>)"

definition c_free :: "nat \<Rightarrow> heap \<Rightarrow> heap cres" where
  "c_free b h = (if b \<in> blocks h then Inr (h\<lparr>blocks := blocks h - {b}\<rparr>) else Inl Use_After_Free)"

fun free_all :: "nat list \<Rightarrow> heap \<Rightarrow> heap cres" where
  "free_all [] h = Inr h"
| "free_all (b # bs) h = cbind (c_free b h) (free_all bs)"

lemma free_all_ok:
  "distinct bs \<Longrightarrow> set bs \<subseteq> blocks h \<Longrightarrow> free_all bs h = Inr (h\<lparr>blocks := blocks h - set bs\<rparr>)"
proof (induction bs arbitrary: h)
  case (Cons b bs)
  then have "set bs \<subseteq> blocks (h\<lparr>blocks := blocks h - {b}\<rparr>)" by auto
  with Cons.prems Cons.IH [of "h\<lparr>blocks := blocks h - {b}\<rparr>"] show ?case
    by (simp add: c_free_def Diff_insert2 [symmetric] insert_commute)
qed simp

text \<open>An object owns distinct blocks, which are the live blocks beside those of the rest \<open>B\<close>.\<close>

definition owns :: "nat set \<Rightarrow> nat list \<Rightarrow> heap \<Rightarrow> bool" where
  "owns B bs h \<longleftrightarrow> heap_ok h \<and> distinct bs \<and> set bs \<inter> B = {} \<and> blocks h = B \<union> set bs"

lemma owns_nil: "heap_ok h \<Longrightarrow> owns (blocks h) [] h"
  by (simp add: owns_def)

lemma owns_malloc: "owns B bs h \<Longrightarrow> owns B (bs @ [fst (c_malloc h)]) (snd (c_malloc h))"
  by (auto simp: owns_def heap_ok_def c_malloc_def intro: less_SucI)

lemma owns_perm: "owns B bs h \<Longrightarrow> distinct cs \<Longrightarrow> set cs = set bs \<Longrightarrow> owns B cs h"
  by (simp add: owns_def)

lemma owns_free:
  assumes "owns B (bs @ cs) h"
  shows "\<exists>h'. free_all bs h = Inr h' \<and> owns B cs h'"
proof -
  have "distinct bs" "set bs \<subseteq> blocks h" using assms by (auto simp: owns_def)
  from free_all_ok [OF this] show ?thesis using assms by (auto simp: owns_def heap_ok_def)
qed

section \<open>Objects with a destructor\<close>

text \<open>
  The contract of a constructor and a destructor over the heap, and what a client that
  pairs them gets: the heap it started with.
\<close>

locale heap_object =
  fixes create :: "heap \<Rightarrow> 'p \<times> heap"
    and destroy :: "'p \<Rightarrow> heap \<Rightarrow> heap cres"
    and owned :: "'p \<Rightarrow> nat list"
  assumes create_owns: "owns B [] h \<Longrightarrow> create h = (p, h') \<Longrightarrow> owns B (owned p) h'"
    and destroy_frees: "owns B (owned p) h \<Longrightarrow> \<exists>h'. destroy p h = Inr h' \<and> owns B [] h'"
begin

lemma destroy_restores: "owns B (owned p) h \<Longrightarrow> \<exists>h'. destroy p h = Inr h' \<and> blocks h' = B"
  using destroy_frees [of B p h] by (auto simp: owns_def)

lemma create_destroy:
  assumes "heap_ok h" "create h = (p, h')"
  shows "\<exists>h''. destroy p h' = Inr h'' \<and> blocks h'' = blocks h"
  using destroy_restores [OF create_owns [OF owns_nil [OF assms(1)] assms(2)]] .

end

section \<open>Counters\<close>

definition sc_create :: "heap \<Rightarrow> nat \<times> heap" where
  "sc_create h = c_malloc h"

definition sc_counter_destroy :: "nat \<Rightarrow> heap \<Rightarrow> heap cres" where
  "sc_counter_destroy c h = c_free c h"

record ac_ptrs =
  ac_self :: nat
  ac_local_value :: nat
  ac_llock :: nat

definition ac_create :: "heap \<Rightarrow> ac_ptrs \<times> heap" where
  "ac_create h =
     (let (c, h) = c_malloc h; (local_value, h) = c_malloc h; (llock, h) = c_malloc h
      in (\<lparr>ac_self = c, ac_local_value = local_value, ac_llock = llock\<rparr>, h))"

definition ac_counter_destroy :: "ac_ptrs \<Rightarrow> heap \<Rightarrow> heap cres" where
  "ac_counter_destroy c h =
     cbind (c_free (ac_local_value c) h) (\<lambda>h. cbind (c_free (ac_llock c) h) (\<lambda>h. c_free (ac_self c) h))"

lemma owns_three:
  assumes "owns B [] h" "c_malloc h = (a, h1)" "c_malloc h1 = (b, h2)" "c_malloc h2 = (c, h3)"
  shows "owns B [a, b, c] h3"
  using owns_malloc [OF assms(1)] owns_malloc [of B "[a]" h1] owns_malloc [of B "[a, b]" h2] assms(2-4) by simp

lemma free_three:
  assumes "owns B [a, b, c] h" "distinct [x, y, z]" "{x, y, z} = {a, b, c}"
  shows "\<exists>h'. cbind (c_free x h) (\<lambda>h. cbind (c_free y h) (\<lambda>h. c_free z h)) = Inr h' \<and> owns B [] h'"
proof -
  have "cbind r Inr = r" for r :: "heap cres" by (cases r) simp_all
  moreover have "free_all [] = Inr" "free_all (b # bs) = (\<lambda>h. cbind (c_free b h) (free_all bs))" for b bs
    by (simp_all add: fun_eq_iff)
  ultimately have "free_all [x, y, z] h = cbind (c_free x h) (\<lambda>h. cbind (c_free y h) (\<lambda>h. c_free z h))"
    by (simp del: free_all.simps)
  moreover have "owns B ([x, y, z] @ []) h" using owns_perm [OF assms(1,2)] assms(3) by simp
  ultimately show ?thesis using owns_free [of B "[x, y, z]" "[]" h] by metis
qed

interpretation sc_heap: heap_object sc_create sc_counter_destroy "\<lambda>c. [c]"
proof
  show "owns B [c] h'" if "owns B [] h" "sc_create h = (c, h')" for B h c h'
    using owns_malloc [OF that(1)] that(2) by (simp add: sc_create_def)
  show "\<exists>h'. sc_counter_destroy c h = Inr h' \<and> owns B [] h'" if "owns B [c] h" for B c h
    using owns_free [of B "[c]" "[]" h] that by (cases "c_free c h") (simp_all add: sc_counter_destroy_def)
qed

interpretation ac_heap: heap_object ac_create ac_counter_destroy "\<lambda>c. [ac_self c, ac_local_value c, ac_llock c]"
proof
  show "owns B [ac_self c, ac_local_value c, ac_llock c] h'" if "owns B [] h" "ac_create h = (c, h')" for B h c h'
    using that by (auto simp: ac_create_def split: prod.splits intro: owns_three)
  show "\<exists>h'. ac_counter_destroy c h = Inr h' \<and> owns B [] h'"
    if "owns B [ac_self c, ac_local_value c, ac_llock c] h" for B c h
    unfolding ac_counter_destroy_def by (rule free_three [OF that]) (use that in \<open>auto simp: owns_def\<close>)
qed

section \<open>The log store\<close>

text \<open>A store with the addresses of its three blocks. \<open>logstore_put\<close> and \<open>logstore_get\<close> do not allocate.\<close>

record ls_object =
  ls :: LogStore
  store_ptr :: nat
  buffer_ptr :: nat
  imap_ptr :: nat

definition logstore_create_h :: "int \<Rightarrow> int \<Rightarrow> heap \<Rightarrow> (ls_object \<times> heap) cres" where
  "logstore_create_h cap krange h =
     cbind (logstore_create True cap krange) (\<lambda>s.
       let (st, h) = c_malloc h; (buf, h) = c_malloc h; (im, h) = c_malloc h
       in Inr (\<lparr>ls = s, store_ptr = st, buffer_ptr = buf, imap_ptr = im\<rparr>, h))"

definition logstore_put_h :: "ls_object \<times> heap \<Rightarrow> int \<Rightarrow> int \<Rightarrow> (ls_object \<times> heap) cres" where
  "logstore_put_h x k v = cbind (logstore_put (ls (fst x)) k v) (\<lambda>s. Inr ((fst x)\<lparr>ls := s\<rparr>, snd x))"

definition logstore_get_h :: "ls_object \<times> heap \<Rightarrow> int \<Rightarrow> int cres" where
  "logstore_get_h x k = logstore_get (ls (fst x)) k"

text \<open>
  \<open>logstore_clean\<close> up to the lock, with its local variables (\<open>None\<close> when it returns at once), and
  from the lock on.
\<close>

record clean_locals =
  new_data :: "Entry option list \<times> int list \<times> int"
  new_buffer :: nat
  new_imap :: nat
  old_buffer :: nat
  old_imap :: nat

definition clean_begin :: "ls_object \<times> heap \<Rightarrow> (clean_locals option \<times> ls_object \<times> heap) cres" where
  "clean_begin x =
     (if below_threshold (ls (fst x)) then Inr (None, x)
      else let (buf, h) = c_malloc (snd x); (im, h) = c_malloc h
        in cbind (clean_copy True (ls (fst x))) (\<lambda>new.
          Inr (Some \<lparr>new_data = new, new_buffer = buf, new_imap = im,
                 old_buffer = buffer_ptr (fst x), old_imap = imap_ptr (fst x)\<rparr>, fst x, h)))"

definition clean_finish :: "clean_locals \<Rightarrow> ls_object \<times> heap \<Rightarrow> (ls_object \<times> heap) cres" where
  "clean_finish l x =
     (let ob = (fst x)\<lparr>ls := clean_switch (new_data l) (ls (fst x)), buffer_ptr := new_buffer l, imap_ptr := new_imap l\<rparr>
      in cbind (c_free (old_buffer l) (snd x)) (\<lambda>h. cbind (c_free (old_imap l) h) (\<lambda>h. Inr (ob, h))))"

definition logstore_clean_h :: "ls_object \<times> heap \<Rightarrow> (ls_object \<times> heap) cres" where
  "logstore_clean_h x = cbind (clean_begin x) (\<lambda>(l, x). case l of None \<Rightarrow> Inr x | Some l \<Rightarrow> clean_finish l x)"

definition logstore_destroy :: "ls_object \<Rightarrow> heap \<Rightarrow> heap cres" where
  "logstore_destroy ob h =
     cbind (c_free (buffer_ptr ob) h) (\<lambda>h. cbind (c_free (imap_ptr ob) h) (\<lambda>h. c_free (store_ptr ob) h))"

text \<open>With the blocks beside it fixed, a store on the heap is a key-value store as well.\<close>

definition ls_owned :: "ls_object \<Rightarrow> nat list" where
  "ls_owned ob = [store_ptr ob, buffer_ptr ob, imap_ptr ob]"

definition ls_heap_inv :: "nat set \<Rightarrow> ls_object \<times> heap \<Rightarrow> bool" where
  "ls_heap_inv B x \<longleftrightarrow> ls_inv (ls (fst x)) \<and> owns B (ls_owned (fst x)) (snd x)"

lemma clean_h_ok:
  assumes "ls_heap_inv B x" "logstore_clean True (ls (fst x)) = Inr s"
  shows "\<exists>ob h. logstore_clean_h x = Inr (ob, h) \<and> ls ob = s \<and> owns B (ls_owned ob) h"
proof (cases "below_threshold (ls (fst x))")
  case True
  then show ?thesis
    using assms by (cases x) (auto simp: logstore_clean_h_def clean_begin_def logstore_clean_def ls_heap_inv_def)
next
  case False
  with assms(2) obtain new where new: "clean_copy True (ls (fst x)) = Inr new" "s = clean_switch new (ls (fst x))"
    by (auto simp: logstore_clean_def)
  obtain ob h where x: "x = (ob, h)" by (cases x)
  obtain b h1 where b: "c_malloc h = (b, h1)" by (cases "c_malloc h")
  obtain i h2 where i: "c_malloc h1 = (i, h2)" by (cases "c_malloc h1")
  have "owns B (ls_owned ob @ [b, i]) h2"
    using assms(1) owns_malloc [of B "ls_owned ob" h] owns_malloc [of B "ls_owned ob @ [b]" h1]
    by (simp add: ls_heap_inv_def x b i)
  then have "owns B ([buffer_ptr ob, imap_ptr ob] @ [store_ptr ob, b, i]) h2"
    by (rule owns_perm) (use \<open>owns B (ls_owned ob @ [b, i]) h2\<close> in \<open>auto simp: owns_def ls_owned_def\<close>)
  from owns_free [OF this] obtain h3 where
    h3: "free_all [buffer_ptr ob, imap_ptr ob] h2 = Inr h3" "owns B [store_ptr ob, b, i] h3" by blast
  from h3(1) have "cbind (c_free (buffer_ptr ob) h2) (c_free (imap_ptr ob)) = Inr h3"
    by (cases "c_free (buffer_ptr ob) h2") auto
  then have "logstore_clean_h x = Inr (ob\<lparr>ls := s, buffer_ptr := b, imap_ptr := i\<rparr>, h3)"
    using False new by (auto simp: logstore_clean_h_def clean_begin_def clean_finish_def x b i)
  with h3(2) show ?thesis by (simp add: ls_owned_def)
qed

interpretation heap_kv: kv_store logstore_put_h logstore_get_h logstore_clean_h
  "\<lambda>x. ls_map (ls (fst x))" get_reply "ls_heap_inv B" "\<lambda>x. ls_room (ls (fst x))" "\<lambda>x. valid_key (ls (fst x))" for B
proof
  fix x :: "ls_object \<times> heap" and k v :: int
  assume inv: "ls_heap_inv B x"
  show "logstore_get_h x k = Inr (get_reply (ls_map (ls (fst x)) k))" if "valid_key (ls (fst x)) k"
    using inv that log_kv.get_ok [of "ls (fst x)" k] by (simp add: ls_heap_inv_def logstore_get_h_def)
  show "\<exists>x'. logstore_clean_h x = Inr x' \<and> ls_heap_inv B x' \<and> ls_map (ls (fst x')) = ls_map (ls (fst x))
      \<and> ls_room (ls (fst x)) \<le> ls_room (ls (fst x')) \<and> valid_key (ls (fst x')) = valid_key (ls (fst x))"
  proof -
    obtain s where s: "logstore_clean True (ls (fst x)) = Inr s" "ls_inv s" "ls_map s = ls_map (ls (fst x))"
      "ls_room (ls (fst x)) \<le> ls_room s" "valid_key s = valid_key (ls (fst x))"
      using logstore_clean_ok [of "ls (fst x)"] inv by (auto simp: ls_heap_inv_def)
    from clean_h_ok [OF inv s(1)] obtain ob h where
      "logstore_clean_h x = Inr (ob, h)" "ls ob = s" "owns B (ls_owned ob) h" by blast
    with s show ?thesis by (auto simp: ls_heap_inv_def)
  qed
  show "\<exists>x'. logstore_put_h x k v = Inr x' \<and> ls_heap_inv B x' \<and> ls_map (ls (fst x')) = (ls_map (ls (fst x)))(k \<mapsto> v)
      \<and> ls_room (ls (fst x')) = ls_room (ls (fst x)) - 1 \<and> valid_key (ls (fst x')) = valid_key (ls (fst x))"
    if valid: "valid_key (ls (fst x)) k" and room: "0 < ls_room (ls (fst x))"
  proof -
    obtain s where "logstore_put (ls (fst x)) k v = Inr s" "ls_inv s" "ls_map s = (ls_map (ls (fst x)))(k \<mapsto> v)"
      "ls_room s = ls_room (ls (fst x)) - 1" "valid_key s = valid_key (ls (fst x))"
      using log_kv.put_ok [of "ls (fst x)" k v] inv valid room by (auto simp: ls_heap_inv_def)
    then show ?thesis using inv by (simp add: logstore_put_h_def ls_heap_inv_def ls_owned_def)
  qed
qed

lemma logstore_destroy_frees:
  assumes "owns B (ls_owned ob) h"
  shows "\<exists>h'. logstore_destroy ob h = Inr h' \<and> owns B [] h'"
  unfolding logstore_destroy_def
  by (rule free_three [OF assms [unfolded ls_owned_def]]) (use assms in \<open>auto simp: owns_def ls_owned_def\<close>)

lemma logstore_create_h_inv:
  assumes "0 \<le> cap" "cap \<le> INT_MAX" "0 \<le> krange" "heap_ok h"
  shows "\<exists>x. logstore_create_h cap krange h = Inr x \<and> ls_heap_inv (blocks h) x
    \<and> ls_map (ls (fst x)) = Map.empty \<and> ls_room (ls (fst x)) = nat cap
    \<and> valid_key (ls (fst x)) = (\<lambda>k. 0 \<le> k \<and> k < krange)"
proof -
  obtain s where s: "logstore_create True cap krange = Inr s" "ls_inv s" "ls_map s = Map.empty"
    "ls_room s = nat cap" "key_range s = krange" using logstore_create_inv [OF assms(1-3)] by blast
  obtain a h1 where a: "c_malloc h = (a, h1)" by (cases "c_malloc h")
  obtain b h2 where b: "c_malloc h1 = (b, h2)" by (cases "c_malloc h1")
  obtain c h3 where c: "c_malloc h2 = (c, h3)" by (cases "c_malloc h2")
  have "valid_key s = (\<lambda>k. 0 \<le> k \<and> k < krange)" using s(5) by (simp add: valid_key_def fun_eq_iff)
  moreover have "owns (blocks h) [a, b, c] h3" by (rule owns_three [OF owns_nil [OF assms(4)] a b c])
  ultimately show ?thesis using s by (simp add: logstore_create_h_def a b c ls_heap_inv_def ls_owned_def)
qed

lemma logstore_calls_h:
  assumes "0 \<le> cap" "cap \<le> INT_MAX" "0 \<le> krange" "heap_ok h"
    and "int (puts cs) \<le> cap" "\<forall>c \<in> set cs. kv_key_ok (\<lambda>k. 0 \<le> k \<and> k < krange) c"
  shows "\<exists>x. cbind (logstore_create_h cap krange h)
        (\<lambda>x. kv_exec logstore_put_h logstore_get_h logstore_clean_h x cs) = Inr x
    \<and> ls_heap_inv (blocks h) x \<and> ls_map (ls (fst x)) = map_exec Map.empty cs"
proof -
  obtain y where y: "logstore_create_h cap krange h = Inr y" "ls_heap_inv (blocks h) y"
    "ls_map (ls (fst y)) = Map.empty" "ls_room (ls (fst y)) = nat cap"
    "valid_key (ls (fst y)) = (\<lambda>k. 0 \<le> k \<and> k < krange)" using logstore_create_h_inv [OF assms(1-4)] by blast
  have "puts cs \<le> nat cap" using assms(5) by simp
  with heap_kv.kv_exec_refines [OF y(2), of cs] y assms(6) show ?thesis by auto
qed

lemma ls_owned_blocks:
  assumes "owns B (ls_owned ob) h"
  shows "card (blocks h - B) = 3 \<and> B \<subseteq> blocks h"
proof -
  have "blocks h - B = set (ls_owned ob)" "card (set (ls_owned ob)) = length (ls_owned ob)" "B \<subseteq> blocks h"
    using assms distinct_card by (auto simp: owns_def)
  then show ?thesis by (simp add: ls_owned_def)
qed

section \<open>Properties\<close>

text \<open>
  C14. Memory safety of the log store. Whatever sequence of puts, gets and cleans a single client makes
  between \<open>logstore_create\<close> and \<open>logstore_destroy\<close> (keys of the range, no more puts in all than
  the capacity), no block is freed twice, the store owns exactly three live blocks all the time, and
  after \<open>logstore_destroy\<close> the live blocks are those from before: each clean frees what it replaces.
\<close>

theorem logstore_frees_everything:
  assumes "0 \<le> cap" "cap \<le> INT_MAX" "0 \<le> krange" "heap_ok h"
    and "int (puts cs) \<le> cap" "\<forall>c \<in> set cs. kv_key_ok (\<lambda>k. 0 \<le> k \<and> k < krange) c"
  shows "\<exists>ob h1 h2. cbind (logstore_create_h cap krange h)
        (\<lambda>x. kv_exec logstore_put_h logstore_get_h logstore_clean_h x cs) = Inr (ob, h1)
    \<and> card (blocks h1 - blocks h) = 3 \<and> blocks h \<subseteq> blocks h1
    \<and> logstore_destroy ob h1 = Inr h2 \<and> blocks h2 = blocks h"
proof -
  obtain ob h1 where x: "cbind (logstore_create_h cap krange h)
      (\<lambda>x. kv_exec logstore_put_h logstore_get_h logstore_clean_h x cs) = Inr (ob, h1)"
    "ls_heap_inv (blocks h) (ob, h1)" using logstore_calls_h [OF assms] by auto
  then have own: "owns (blocks h) (ls_owned ob) h1" by (simp add: ls_heap_inv_def)
  note own_blocks = ls_owned_blocks [OF this]
  obtain h2 where "logstore_destroy ob h1 = Inr h2" "blocks h2 = blocks h"
    using logstore_destroy_frees [OF own] by (auto simp: owns_def)
  with x(1) own_blocks show ?thesis by blast
qed

theorem logstore_frees_everything_witness:
  "\<exists>ob h1 h2. cbind (logstore_create_h 5 2 \<lparr>blocks = {7}, fresh = 8\<rparr>)
        (\<lambda>x. kv_exec logstore_put_h logstore_get_h logstore_clean_h x small_calls) = Inr (ob, h1)
    \<and> card (blocks h1 - {7}) = 3 \<and> logstore_destroy ob h1 = Inr h2 \<and> blocks h2 = {7}"
proof -
  let ?h = "\<lparr>blocks = {7}, fresh = 8\<rparr> :: heap"
  have "heap_ok ?h" "int (puts small_calls) \<le> 5" "\<forall>c \<in> set small_calls. kv_key_ok (\<lambda>k. 0 \<le> k \<and> k < 2) c"
    by (simp_all add: heap_ok_def small_calls_def)
  from logstore_frees_everything [OF _ _ _ this] show ?thesis by (simp add: INT_MAX_def) blast
qed

text \<open>
  That holds for one caller at a time. \<open>logstore_clean\<close> reads the pointers it will free before it
  takes the lock: when two threads clean at the same time, whichever finishes second frees the
  old buffer again.
\<close>

theorem concurrent_cleans_free_twice:
  assumes "ls_heap_inv B x" "\<not> below_threshold (ls (fst x))"
  shows "\<exists>l1 x1 l2 x2 x3. clean_begin x = Inr (Some l1, x1) \<and> clean_begin x1 = Inr (Some l2, x2)
    \<and> clean_finish l1 x2 = Inr x3 \<and> clean_finish l2 x3 = Inl Use_After_Free"
proof -
  obtain new where new: "clean_copy True (ls (fst x)) = Inr new"
    using assms clean_copy_copied [of "ls (fst x)"] by (auto simp: ls_heap_inv_def)
  have start: "\<exists>l h. clean_begin (fst x, h0) = Inr (Some l, fst x, h) \<and> old_buffer l = buffer_ptr (fst x)
      \<and> old_imap l = imap_ptr (fst x) \<and> blocks h0 \<subseteq> blocks h" for h0
    using assms(2) new by (auto simp: clean_begin_def c_malloc_def)
  from start [of "snd x"] obtain l1 h1 where 1: "clean_begin x = Inr (Some l1, fst x, h1)"
    "old_buffer l1 = buffer_ptr (fst x)" "old_imap l1 = imap_ptr (fst x)" "blocks (snd x) \<subseteq> blocks h1" by auto
  from start [of h1] obtain l2 h2 where 2: "clean_begin (fst x, h1) = Inr (Some l2, fst x, h2)"
    "old_buffer l2 = buffer_ptr (fst x)" "blocks h1 \<subseteq> blocks h2" by auto
  have own: "buffer_ptr (fst x) \<in> blocks h2" "imap_ptr (fst x) \<in> blocks h2" "imap_ptr (fst x) \<noteq> buffer_ptr (fst x)"
    using assms(1) 1(4) 2(3) by (auto simp: ls_heap_inv_def owns_def ls_owned_def)
  have "\<exists>x3. clean_finish l1 (fst x, h2) = Inr x3 \<and> buffer_ptr (fst x) \<notin> blocks (snd x3)"
    using own 1(2,3) by (auto simp: clean_finish_def c_free_def)
  then obtain x3 where 3: "clean_finish l1 (fst x, h2) = Inr x3" "buffer_ptr (fst x) \<notin> blocks (snd x3)" by blast
  then have "clean_finish l2 x3 = Inl Use_After_Free" using 2(2) by (simp add: clean_finish_def c_free_def)
  with 1(1) 2(1) 3(1) show ?thesis by blast
qed

text \<open>
  \<open>simple_put_clean_test\<close> ends with a clean instead of \<open>logstore_destroy\<close>: the three blocks of its
  store are never freed.
\<close>

theorem simple_test_leaks:
  assumes "heap_ok h"
  shows "\<exists>ob h1. cbind (logstore_create_h (2 * 10) 10 h)
        (\<lambda>x. kv_exec logstore_put_h logstore_get_h logstore_clean_h x (simple_calls 10 @ [Clean, Clean])) = Inr (ob, h1)
    \<and> blocks h \<subseteq> blocks h1 \<and> card (blocks h1 - blocks h) = 3"
proof -
  have "int (puts (simple_calls 10 @ [Clean, Clean])) \<le> 2 * 10"
    "\<forall>c \<in> set (simple_calls 10 @ [Clean, Clean]). kv_key_ok (\<lambda>k. 0 \<le> k \<and> k < 10) c"
    by (auto simp: simple_calls_def upto_rec1)
  from logstore_calls_h [of "2 * 10" 10, OF _ _ _ assms this] obtain ob h1 where
    x: "cbind (logstore_create_h (2 * 10) 10 h) (\<lambda>x. kv_exec logstore_put_h logstore_get_h logstore_clean_h x
          (simple_calls 10 @ [Clean, Clean])) = Inr (ob, h1)" "ls_heap_inv (blocks h) (ob, h1)"
    by (auto simp: INT_MAX_def)
  then have own: "owns (blocks h) (ls_owned ob) h1" by (simp add: ls_heap_inv_def)
  from ls_owned_blocks [OF this] x(1) show ?thesis by blast
qed

text \<open>Both counters free exactly what \<open>counter_init\<close> allocated.\<close>

theorem counters_free_everything:
  assumes "heap_ok h"
  shows "sc_create h = (c, h1) \<Longrightarrow> \<exists>h2. sc_counter_destroy c h1 = Inr h2 \<and> blocks h2 = blocks h"
    and "ac_create h = (d, h1) \<Longrightarrow> \<exists>h2. ac_counter_destroy d h1 = Inr h2 \<and> blocks h2 = blocks h"
  using sc_heap.create_destroy [OF assms] ac_heap.create_destroy [OF assms] by blast+

end
