(* ===== verification/Files.thy ===== *)
theory Files
  imports C_Library
begin

text \<open>
  The command-line programs on files: \<open>practiceQs/patcher_040126/patcher.c\<close>, and
  \<open>mytail.c\<close>, \<open>myls.c\<close> and \<open>stat.c\<close> of \<open>39_FilesAndDirectories\<close>. A program is a function
  from its arguments (without \<open>argv[0]\<close>) and the files it sees to its exit status and
  output. Reads and writes of a regular file transfer what they are asked for; failing
  system calls are parameters.
\<close>

type_synonym files = "string \<Rightarrow> string option"

section \<open>patcher.c\<close>

text \<open>\<open>pwrite\<close> of one byte; a gap after the end of the file reads as zeros.\<close>

definition pwrite_byte :: "string \<Rightarrow> nat \<Rightarrow> char \<Rightarrow> string" where
  "pwrite_byte bs off c =
     (if off < length bs then bs[off := c] else bs @ replicate (off - length bs) (CHR 0x00) @ [c])"

text \<open>
  \<open>fs path = None\<close> when \<open>open\<close> fails. The first byte of \<open>argv[3]\<close> is written: its
  terminating zero if it is empty. \<open>errno\<close> other than \<open>ERANGE\<close> is set only when there are
  no digits, which the next test rejects as well.
\<close>

definition patcher_main :: "bool \<Rightarrow> bool \<Rightarrow> files \<Rightarrow> string list \<Rightarrow> int \<times> files" where
  "patcher_main fstat_ok pwrite_ok fs args =
     (case args of
        [path, number, char] \<Rightarrow>
          (case fs path of
             None \<Rightarrow> (1, fs)
           | Some bs \<Rightarrow>
               if \<not> fstat_ok then (1, fs)
               else let (offset, endptr, erange) = c_strtol number in
                 if erange then (1, fs)
                 else if endptr = 0 \<or> endptr \<noteq> length number then (1, fs)
                 else if offset < 0 then (1, fs)
                 else if \<not> pwrite_ok then (1, fs)
                 else (0, fs(path \<mapsto> pwrite_byte bs (nat offset)
                        (if char = [] then CHR 0x00 else hd char))))
      | _ \<Rightarrow> (1, fs))"

lemma pwrite_byte_props:
  "length (pwrite_byte bs off c) = max (length bs) (Suc off)" "pwrite_byte bs off c ! off = c"
  "i \<noteq> off \<Longrightarrow> i < length bs \<Longrightarrow> pwrite_byte bs off c ! i = bs ! i"
  by (simp_all add: pwrite_byte_def nth_append)

text \<open>
  C30. \<open>patcher FILE OFFSET CHAR\<close> with the offset in decimal. It changes exactly the byte
  at the offset when the file has one there, and nothing else of any file. An offset at or
  past the end is not refused: the file grows, with zeros in the gap. Whenever the exit
  status is not 0, no file has changed; and it is 0 only for a plain non-negative number
  that a \<open>long\<close> holds.
\<close>

theorem patcher_correct:
  assumes "int n \<le> LONG_MAX" "fs path = Some bs"
  shows "patcher_main True True fs [path, dec n, c # cs]
        = (0, fs(path \<mapsto> if n < length bs then bs[n := c] else bs @ replicate (n - length bs) (CHR 0x00) @ [c]))
    \<and> (fst (patcher_main fok pok fs args) \<noteq> 0 \<longrightarrow> snd (patcher_main fok pok fs args) = fs)
    \<and> (fst (patcher_main fok pok fs args) = 0 \<longrightarrow>
         (\<exists>p num ch off. args = [p, num, ch] \<and> c_strtol num = (off, length num, False) \<and> 0 \<le> off \<and> num \<noteq> []))"
proof (intro conjI impI)
  show "patcher_main True True fs [path, dec n, c # cs]
      = (0, fs(path \<mapsto> if n < length bs then bs[n := c] else bs @ replicate (n - length bs) (CHR 0x00) @ [c]))"
    using assms dec_ok [of n] by (simp add: patcher_main_def strtol_dec pwrite_byte_def)
next
  show "snd (patcher_main fok pok fs args) = fs" if "fst (patcher_main fok pok fs args) \<noteq> 0"
    using that by (auto simp: patcher_main_def Let_def split: list.splits option.splits prod.splits if_splits)
next
  show "\<exists>p num ch off. args = [p, num, ch] \<and> c_strtol num = (off, length num, False) \<and> 0 \<le> off \<and> num \<noteq> []"
    if "fst (patcher_main fok pok fs args) = 0"
    using that by (auto simp: patcher_main_def Let_def split: list.splits option.splits prod.splits if_splits)
qed

theorem patcher_correct_witness:
  "snd (patcher_main True True (\<lambda>_. Some ''abcd'') [''f'', dec 2, ''Z'']) ''f'' = Some ''abZd''"
  using patcher_correct [of 2 "\<lambda>_. Some ''abcd''" "''f''" "''abcd''" "CHR ''Z''" "[]"]
  by (simp add: LONG_MAX_def)

section \<open>mytail.c\<close>

abbreviation newline :: char where
  "newline \<equiv> CHR 0x0A"

abbreviation TAIL_BUF :: nat where
  "TAIL_BUF \<equiv> 4096"

text \<open>
  The inner loop with the indices below the second argument left; it returns the lines
  found so far and the index at which it stopped.
\<close>

fun tail_scan :: "string \<Rightarrow> int \<Rightarrow> nat \<Rightarrow> int \<Rightarrow> (int \<times> nat option) cres" where
  "tail_scan buffer num_lines 0 lines_found = Inr (lines_found, None)"
| "tail_scan buffer num_lines (Suc i) lines_found =
     cbind (arr_get buffer i) (\<lambda>b.
       let lines_found = (if b = newline then lines_found + 1 else lines_found) in
       if lines_found = num_lines then Inr (lines_found, Some i)
       else tail_scan buffer num_lines i lines_found)"

definition tail_read_size :: "int \<Rightarrow> int" where
  "tail_read_size file_size = (if file_size < int TAIL_BUF then file_size else int TAIL_BUF)"

text \<open>
  The search loop. \<open>fd\<close> is the contents of the open file; without it \<open>read\<close> returns -1 and
  the inner loop has no round. Each round reads the last \<open>read_size\<close> bytes of the file.
  The first argument bounds the rounds; \<open>Inr None\<close> says that they did not suffice.
\<close>

fun tail_search :: "nat \<Rightarrow> int \<Rightarrow> int \<Rightarrow> string option \<Rightarrow> string \<Rightarrow> int \<Rightarrow> int \<Rightarrow> int \<Rightarrow> int option cres" where
  "tail_search rounds num_lines file_size fd buffer lines_found curr_pos tail_start_pos =
     (if \<not> (lines_found < num_lines \<and> 0 < curr_pos) then Inr (Some tail_start_pos)
      else case rounds of
        0 \<Rightarrow> Inr None
      | Suc rounds \<Rightarrow>
          let read_size = tail_read_size file_size;
              curr_pos = curr_pos - read_size
          in case fd of
            None \<Rightarrow> tail_search rounds num_lines file_size fd buffer lines_found curr_pos tail_start_pos
          | Some bs \<Rightarrow>
              let data = drop (length bs - nat read_size) bs;
                  buffer = data @ drop (length data) buffer
              in cbind (tail_scan buffer num_lines (Suc (length data)) lines_found) (\<lambda>(lines_found, hit).
                   tail_search rounds num_lines file_size fd buffer lines_found curr_pos
                     (case hit of None \<Rightarrow> tail_start_pos | Some i \<Rightarrow> curr_pos + int i + 1)))"

declare tail_search.simps [simp del]

text \<open>The loop that copies the file from \<open>pos\<close> to the standard output.\<close>

function tail_print :: "string \<Rightarrow> nat \<Rightarrow> string" where
  "tail_print bs pos =
     (let chunk = take TAIL_BUF (drop pos bs)
      in if chunk = [] then [] else chunk @ tail_print bs (pos + length chunk))"
  by pat_completeness auto
termination
  by (relation "measure (\<lambda>(bs, pos). length bs - pos)") (auto simp: Let_def)

declare tail_print.simps [simp del]

text \<open>
  Exit status and output. \<open>readable\<close> says whether \<open>open\<close> succeeds on an existing file;
  \<open>argv[1] + 1\<close> points behind the string when it is empty.
\<close>

definition mytail_main :: "files \<Rightarrow> bool \<Rightarrow> string list \<Rightarrow> (int \<times> string) option cres" where
  "mytail_main fs readable args =
     (case args of
        number # path # _ \<Rightarrow>
          if number = [] then Inl Out_Of_Bounds
          else cbind (c_atoi (tl number)) (\<lambda>n. cbind (c_int (n + 1)) (\<lambda>num_lines.
            let file_size = (case fs path of None \<Rightarrow> 0 | Some bs \<Rightarrow> wrap32 (int (length bs)));
                fd = (if readable then fs path else None)
            in cbind (tail_search (nat file_size) num_lines file_size fd (replicate TAIL_BUF (CHR 0x00)) 0 file_size 0)
                 (\<lambda>r. Inr (case r of
                      None \<Rightarrow> None
                    | Some pos \<Rightarrow> Some (0, case fd of None \<Rightarrow> [] | Some bs \<Rightarrow> tail_print bs (nat pos))))))
      | _ \<Rightarrow> Inr (Some (1, [])))"

lemma tail_print_drop: "tail_print bs pos = drop pos bs"
proof (induction bs pos rule: tail_print.induct)
  case (1 bs pos)
  have "drop (pos + length (take TAIL_BUF (drop pos bs))) bs = drop TAIL_BUF (drop pos bs)"
    by (cases "TAIL_BUF \<le> length bs - pos") (simp_all add: add.commute)
  then have "take TAIL_BUF (drop pos bs) @ drop (pos + length (take TAIL_BUF (drop pos bs))) bs = drop pos bs"
    by (simp only: append_take_drop_id)
  with 1 show ?case by (subst tail_print.simps) (auto simp: Let_def)
qed

text \<open>The rounds given by \<open>mytail_main\<close> suffice.\<close>

lemma tail_search_ends:
  assumes "nat curr_pos \<le> rounds" "0 < file_size"
  shows "tail_search rounds num_lines file_size fd buffer lines_found curr_pos start \<noteq> Inr None"
  using assms
proof (induction rounds arbitrary: buffer lines_found curr_pos start)
  case 0
  then show ?case by (subst tail_search.simps) simp
next
  case (Suc rounds)
  define r where "r = tail_read_size file_size"
  have "0 < r" using Suc.prems(2) by (simp add: r_def tail_read_size_def)
  then have "nat (curr_pos - r) \<le> rounds" if "0 < curr_pos" using that Suc.prems(1) by linarith
  note IH = Suc.IH [OF this Suc.prems(2)]
  have "cbind m (\<lambda>(found, hit). tail_search rounds num_lines file_size fd b found (curr_pos - r) (g hit)) \<noteq> Inr None"
    if "0 < curr_pos" for m b and g :: "nat option \<Rightarrow> int"
    using IH [OF that] by (cases m) (auto split: prod.splits)
  with IH show ?case
    by (subst tail_search.simps)
      (auto simp: Let_def simp del: tail_scan.simps cbind_eq_Inr simp flip: r_def split: option.splits)
qed

text \<open>A file of lines, each ended by a newline.\<close>

definition unlines :: "string list \<Rightarrow> string" where
  "unlines ls = concat (map (\<lambda>l. l @ [newline]) ls)"

lemma unlines_append [simp]: "unlines (as @ bs) = unlines as @ unlines bs" "unlines [l] = l @ [newline]" "unlines [] = []"
  by (simp_all add: unlines_def)

lemma tail_scan_skip:
  assumes "newline \<notin> set r" "lines_found \<noteq> num_lines"
  shows "tail_scan (p @ r @ q) num_lines (length p + length r) lines_found
       = tail_scan (p @ r @ q) num_lines (length p) lines_found"
  using assms(1)
proof (induction r arbitrary: q rule: rev_induct)
  case (snoc c r)
  from snoc.IH [of "c # q"] snoc.prems assms(2) show ?case by (auto simp: nth_append)
qed simp

lemma tail_scan_lines:
  assumes "\<forall>l \<in> set ls. newline \<notin> set l"
  shows "tail_scan (unlines ls @ q) (found + 1 + int m) (length (unlines ls)) found
    = Inr (if m < length ls then (found + 1 + int m, Some (length (unlines (take (length ls - m) ls)) - 1))
           else (found + int (length ls), None))"
  using assms
proof (induction ls arbitrary: found m q rule: rev_induct)
  case (snoc l ls)
  have at: "(unlines ls @ l @ newline # q) ! (length (unlines ls) + length l) = newline"
    by (simp add: nth_append)
  show ?case
  proof (cases m)
    case 0
    then show ?thesis using at by (simp add: Let_def)
  next
    case (Suc k)
    have "tail_scan (unlines ls @ l @ newline # q) (found + 1 + int m) (Suc (length (unlines ls) + length l)) found
        = tail_scan (unlines ls @ l @ newline # q) (found + 1 + int m) (length (unlines ls) + length l) (found + 1)"
      using at Suc by (simp add: Let_def)
    also have "\<dots> = tail_scan (unlines ls @ l @ newline # q) (found + 1 + int m) (length (unlines ls)) (found + 1)"
      using snoc.prems Suc by (intro tail_scan_skip) auto
    also have "\<dots> = Inr (if k < length ls
        then (found + 1 + int m, Some (length (unlines (take (length ls - k) ls)) - 1))
        else (found + 1 + int (length ls), None))"
      using snoc.IH [where m = k and found = "found + 1" and q = "l @ newline # q"] snoc.prems Suc by (simp add: algebra_simps)
    finally show ?thesis using Suc by (simp add: algebra_simps)
  qed
qed simp

text \<open>A file smaller than the buffer is read in one round, from its beginning.\<close>

lemma tail_search_small:
  assumes "0 < length bs" "length bs < TAIL_BUF" "0 < num_lines"
    and scan: "tail_scan (bs @ replicate (TAIL_BUF - length bs) (CHR 0x00)) num_lines (length bs) 0 = Inr (found, hit)"
  shows "tail_search (length bs) num_lines (int (length bs)) (Some bs) (replicate TAIL_BUF (CHR 0x00)) 0 (int (length bs)) 0
    = Inr (Some (case hit of None \<Rightarrow> 0 | Some i \<Rightarrow> int i + 1))"
proof -
  obtain k where k: "length bs = Suc k" using assms(1) by (cases bs) auto
  let ?b = "bs @ replicate (TAIL_BUF - length bs) (CHR 0x00)"
  have "tail_scan ?b num_lines (Suc (length bs)) 0 = tail_scan ?b num_lines (length bs) 0"
    using assms(2,3) by (simp add: nth_append)
  then have "tail_scan ?b num_lines (Suc (length bs)) 0 = Inr (found, hit)" using scan by simp
  moreover have "tail_search r n (int (length bs)) fd b f 0 st = Inr (Some st)" for r n fd b f st
    by (subst tail_search.simps) simp
  ultimately show ?thesis using assms k
    by (subst tail_search.simps) (simp add: Let_def tail_read_size_def del: tail_scan.simps split: option.split)
qed

lemma tail_search_large:
  assumes "TAIL_BUF \<le> length bs" "0 < num_lines" "0 < file_size" "int TAIL_BUF \<le> file_size"
  shows "tail_search (Suc r) num_lines file_size (Some bs) (replicate TAIL_BUF (CHR 0x00)) 0 file_size 0
    = Inl Out_Of_Bounds"
  using assms by (subst tail_search.simps) (simp add: Let_def tail_read_size_def)

text \<open>Where the last \<open>n\<close> lines start.\<close>

lemma tail_search_lines:
  assumes "\<forall>l \<in> set ls. newline \<notin> set l" "bs = unlines ls" "length bs < TAIL_BUF"
  shows "tail_search (length bs) (int n + 1) (int (length bs)) (Some bs) (replicate TAIL_BUF (CHR 0x00)) 0 (int (length bs)) 0
    = Inr (Some (int (length (unlines (take (length ls - n) ls)))))"
proof (cases "length bs = 0")
  case True
  then have "ls = []" using assms(2) by (cases ls) (simp_all add: unlines_def)
  then show ?thesis using assms(2) by (subst tail_search.simps) simp
next
  case False
  let ?hit = "if n < length ls then Some (length (unlines (take (length ls - n) ls)) - 1) else None"
  have "1 \<le> length (unlines (take (length ls - n) ls))" if "n < length ls"
    using that by (cases "take (length ls - n) ls") (auto simp: unlines_def)
  then have pos: "(case ?hit of None \<Rightarrow> 0 | Some i \<Rightarrow> int i + 1) = int (length (unlines (take (length ls - n) ls)))"
    if "n < length ls" using that by (simp add: of_nat_diff)
  have "tail_search (length bs) (int n + 1) (int (length bs)) (Some bs) (replicate TAIL_BUF (CHR 0x00)) 0 (int (length bs)) 0
      = Inr (Some (case ?hit of None \<Rightarrow> 0 | Some i \<Rightarrow> int i + 1))"
    using False assms(2,3)
      tail_scan_lines [OF assms(1), where m = n and q = "replicate (TAIL_BUF - length bs) (CHR 0x00)" and found = 0]
    by (intro tail_search_small [where found = "if n < length ls then int n + 1 else int (length ls)"])
      (auto simp: add.commute)
  then show ?thesis using pos by (cases "n < length ls") simp_all
qed

lemma mytail_run:
  assumes "int n < INT_MAX" "fs path = Some bs" "int (length bs) \<le> INT_MAX"
  shows "mytail_main fs True [CHR ''-'' # dec n, path] =
    cbind (tail_search (length bs) (int n + 1) (int (length bs)) (Some bs) (replicate TAIL_BUF (CHR 0x00)) 0 (int (length bs)) 0)
      (\<lambda>r. Inr (case r of None \<Rightarrow> None | Some pos \<Rightarrow> Some (0, drop (nat pos) bs)))"
proof -
  have "c_int (int n + 1) = Inr (int n + 1)" "c_atoi (dec n) = Inr (int n)"
    using assms(1) atoi_dec [of n] by (simp_all add: int_range_def INT_MIN_def)
  moreover have "wrap32 (int (length bs)) = int (length bs)"
    using assms(3) by (intro wrap32_id) (simp add: int_range_def INT_MIN_def)
  ultimately show ?thesis using assms(2) by (simp add: mytail_main_def tail_print_drop Let_def cong: option.case_cong)
qed

lemma mytail_returns: "mytail_main fs readable args \<noteq> Inr None"
proof
  assume "mytail_main fs readable args = Inr None"
  moreover have "tail_search 0 num 0 fd b 0 0 0 = Inr (Some 0)" for num fd b by (subst tail_search.simps) simp
  ultimately obtain num sz fd where "tail_search (nat sz) num sz fd (replicate TAIL_BUF (CHR 0x00)) 0 sz 0 = Inr None"
    by (auto simp: mytail_main_def Let_def split: list.splits if_splits option.splits)
  moreover from this have "0 < sz" by (subst (asm) tail_search.simps) (auto split: if_splits)
  ultimately show False using tail_search_ends [of sz "nat sz"] by simp
qed

text \<open>
  C29. \<open>mytail -N FILE\<close>. It always returns. On a file of fewer than 4096 bytes whose
  lines all end in a newline it prints exactly the last \<open>N\<close> lines, the whole file if there
  are not that many. On a file of 4096 bytes or more it reads \<open>buffer[4096]\<close>, one past
  the end.
\<close>

theorem mytail_last_lines:
  assumes "\<forall>l \<in> set ls. newline \<notin> set l" "int n < INT_MAX" "fs path = Some bs"
  shows "mytail_main fs' readable args \<noteq> Inr None
    \<and> (bs = unlines ls \<and> length bs < TAIL_BUF \<longrightarrow> mytail_main fs True [CHR ''-'' # dec n, path]
         = Inr (Some (0, unlines (drop (length ls - n) ls))))
    \<and> (TAIL_BUF \<le> length bs \<and> int (length bs) \<le> INT_MAX \<longrightarrow>
         mytail_main fs True [CHR ''-'' # dec n, path] = Inl Out_Of_Bounds)"
proof (intro conjI impI)
  show "mytail_main fs' readable args \<noteq> Inr None" by (rule mytail_returns)
next
  assume a: "bs = unlines ls \<and> length bs < TAIL_BUF"
  then have small: "int (length bs) \<le> INT_MAX" unfolding INT_MAX_def by linarith
  have "drop (length (unlines (take (length ls - n) ls))) bs = unlines (drop (length ls - n) ls)"
    using a unlines_append(1) [of "take (length ls - n) ls" "drop (length ls - n) ls"] by simp
  then show "mytail_main fs True [CHR ''-'' # dec n, path] = Inr (Some (0, unlines (drop (length ls - n) ls)))"
    by (simp add: mytail_run [of n fs path bs, OF assms(2,3) small]
        tail_search_lines [OF assms(1) a [THEN conjunct1] a [THEN conjunct2]])
next
  assume b: "TAIL_BUF \<le> length bs \<and> int (length bs) \<le> INT_MAX"
  then obtain k where "length bs = Suc k" by (cases bs) auto
  with b tail_search_large [of bs "int n + 1" "int (length bs)" k]
  show "mytail_main fs True [CHR ''-'' # dec n, path] = Inl Out_Of_Bounds"
    by (simp add: mytail_run [of n fs path bs, OF assms(2,3)])
qed

theorem mytail_last_lines_witness:
  "mytail_main (\<lambda>_. Some (unlines [''ab'', ''c'', ''de''])) True [CHR ''-'' # dec 2, ''f'']
   = Inr (Some (0, unlines [''c'', ''de'']))"
  using mytail_last_lines [of "[''ab'', ''c'', ''de'']" 2 "\<lambda>_. Some (unlines [''ab'', ''c'', ''de''])" "''f''"
      "unlines [''ab'', ''c'', ''de'']"]
  by (simp add: INT_MAX_def unlines_def)

section \<open>myls.c and stat.c\<close>

text \<open>The fields of \<open>struct stat\<close> that the two programs print.\<close>

record stat_buf =
  st_uid :: u32
  st_gid :: u32
  st_mode :: u32
  st_ino :: u64
  st_size :: int
  st_blksize :: int
  st_blocks :: int

definition stat_zero :: stat_buf where
  "stat_zero = \<lparr>st_uid = 0, st_gid = 0, st_mode = 0, st_ino = 0, st_size = 0, st_blksize = 0, st_blocks = 0\<rparr>"

datatype ls_item = Long u32 u32 u32 string | Short string

text \<open>A failing \<open>stat\<close> leaves \<open>sb\<close> as it was; \<open>verbose\<close> is \<open>None\<close> while it is uninitialised.\<close>

fun myls_loop :: "(string \<Rightarrow> stat_buf option) \<Rightarrow> bool option \<Rightarrow> stat_buf \<Rightarrow> string list \<Rightarrow> ls_item list cres" where
  "myls_loop stat verbose sb [] = Inr []"
| "myls_loop stat verbose sb (d_name # entries) =
     (case verbose of
        None \<Rightarrow> Inl Uninit_Read
      | Some True \<Rightarrow>
          let sb = (case stat d_name of None \<Rightarrow> sb | Some st \<Rightarrow> st) in
          cbind (myls_loop stat verbose sb entries)
            (\<lambda>out. Inr (Long (st_uid sb) (st_gid sb) (st_mode sb) d_name # out))
      | Some False \<Rightarrow>
          cbind (myls_loop stat verbose sb entries) (\<lambda>out. Inr (Short d_name # out)))"

text \<open>\<open>dirs\<close> gives the entries of a directory in the order of \<open>readdir\<close>, \<open>None\<close> if \<open>opendir\<close> fails.\<close>

definition myls_main :: "(string \<Rightarrow> string list option) \<Rightarrow> (string \<Rightarrow> stat_buf option) \<Rightarrow> string list
    \<Rightarrow> ls_item list cres" where
  "myls_main dirs stat args =
     (let (opts, rest) = getopts ''l'' args;
          verbose = (if CHR ''l'' \<in> set (map fst opts) then Some True else None);
          filename = (case rest of [] \<Rightarrow> ''.'' | f # _ \<Rightarrow> f)
      in case dirs filename of
           None \<Rightarrow> Inl Null_Deref
         | Some entries \<Rightarrow> myls_loop stat verbose stat_zero entries)"

text \<open>Exit status, and what is printed.\<close>

definition stat_main :: "(string \<Rightarrow> stat_buf option) \<Rightarrow> string list \<Rightarrow> int \<times> (u64 \<times> int \<times> int \<times> int) option" where
  "stat_main stat args =
     (case args of
        [filename] \<Rightarrow>
          let sb = (case stat filename of None \<Rightarrow> stat_zero | Some st \<Rightarrow> st)
          in (0, Some (st_ino sb, st_size sb, st_blksize sb, st_blocks sb))
      | _ \<Rightarrow> (1, None))"

lemma myls_loop_long:
  assumes "\<forall>e \<in> set entries. stat e \<noteq> None"
  shows "myls_loop stat (Some True) sb entries
    = Inr (map (\<lambda>e. let st = the (stat e) in Long (st_uid st) (st_gid st) (st_mode st) e) entries)"
  using assms
proof (induction entries arbitrary: sb)
  case (Cons e entries)
  then obtain st where "stat e = Some st" by auto
  with Cons show ?case by simp
qed simp

text \<open>
  What \<open>myls\<close> prints. With \<open>-l\<close> every entry of the directory, in order, with the owner,
  group and mode of the file of that name in the current directory (the entry's name is
  not joined to the directory's). Without \<open>-l\<close> the first entry already makes the program
  read \<open>verbose\<close>, which nothing has set; and a directory that cannot be opened is a null
  pointer given to \<open>readdir\<close>.
\<close>

theorem myls_output:
  assumes "dirs d = Some entries" "d \<noteq> []" "hd d \<noteq> CHR ''-''"
  shows "((\<forall>e \<in> set entries. stat e \<noteq> None) \<longrightarrow> myls_main dirs stat [''-l'', d]
        = Inr (map (\<lambda>e. let st = the (stat e) in Long (st_uid st) (st_gid st) (st_mode st) e) entries))
    \<and> (entries \<noteq> [] \<longrightarrow> myls_main dirs stat [d] = Inl Uninit_Read)
    \<and> (dirs ''.'' = None \<longrightarrow> myls_main dirs stat [] = Inl Null_Deref)"
proof -
  have "d \<noteq> ''--''" using assms(3) by auto
  then have opts: "getopts ''l'' [''-l'', d] = ([(CHR ''l'', [])], [d])" "getopts ''l'' [d] = ([], [d])"
    using assms(3) by simp_all
  have "myls_main dirs stat [''-l'', d] = myls_loop stat (Some True) stat_zero entries"
    by (simp add: myls_main_def opts assms(1) del: getopts.simps)
  moreover have "myls_main dirs stat [d] = Inl Uninit_Read" if "entries \<noteq> []"
    using that by (cases entries) (simp_all add: myls_main_def opts assms(1) del: getopts.simps)
  moreover have "myls_main dirs stat [] = Inl Null_Deref" if "dirs ''.'' = None"
    using that by (simp add: myls_main_def)
  ultimately show ?thesis by (simp add: myls_loop_long)
qed

theorem myls_output_witness:
  "myls_main (\<lambda>_. Some [''.'', ''a'']) (\<lambda>_. Some (stat_zero\<lparr>st_mode := 420\<rparr>)) [''-l'', ''d'']
     = Inr [Long 0 0 420 ''.'', Long 0 0 420 ''a'']
   \<and> myls_main (\<lambda>_. Some [''.'', ''a'']) (\<lambda>_. None) [''d''] = Inl Uninit_Read"
  using myls_output [of "\<lambda>_. Some [''.'', ''a'']" "''d''" "[''.'', ''a'']" "\<lambda>_. Some (stat_zero\<lparr>st_mode := 420\<rparr>)"]
    myls_output [of "\<lambda>_. Some [''.'', ''a'']" "''d''" "[''.'', ''a'']" "\<lambda>_. None"]
  by (simp add: stat_zero_def)

end
