(* ===== verification/Processes.thy ===== *)
theory Processes
  imports Prelude
begin

text \<open>
  Programs made of processes and events: \<open>practiceQs/blackboard_040226/blackboard.c\<close>
  (a shared page), \<open>5_processAPI/fork_test.c\<close> (a pipe between two children) and
  \<open>33_EventBasedConcurrency/event_loop.c\<close> (a loop over \<open>poll\<close>).
\<close>

section \<open>blackboard.c\<close>

definition num_seconds :: nat where
  "num_seconds = 5"

text \<open>
  The increment is a read and a write of the shared \<open>int\<close>; \<open>p_tmp\<close> is the value read. A
  round's \<open>sleep\<close> is the freedom of the interleaving. \<open>reported\<close> is the exit code that the
  parent prints.
\<close>

record bb =
  board :: int
  p_i :: nat
  p_tmp :: "int option"
  c_i :: nat
  printed :: "int list"
  c_exited :: bool
  reported :: "int option"

inductive bb_step :: "bb \<Rightarrow> bb \<Rightarrow> bool" where
  c_print:
    "c_i s < num_seconds \<Longrightarrow> bb_step s (s\<lparr>printed := printed s @ [board s], c_i := Suc (c_i s)\<rparr>)"
| c_exit:
    "c_i s = num_seconds \<Longrightarrow> \<not> c_exited s \<Longrightarrow> bb_step s (s\<lparr>c_exited := True\<rparr>)"
| p_load:
    "p_i s < num_seconds \<Longrightarrow> p_tmp s = None \<Longrightarrow> bb_step s (s\<lparr>p_tmp := Some (board s)\<rparr>)"
| p_store:
    "p_tmp s = Some v \<Longrightarrow> bb_step s (s\<lparr>board := v + 1, p_tmp := None, p_i := Suc (p_i s)\<rparr>)"
| p_wait:
    "p_i s = num_seconds \<Longrightarrow> p_tmp s = None \<Longrightarrow> c_exited s \<Longrightarrow> reported s = None \<Longrightarrow>
     bb_step s (s\<lparr>reported := Some 0\<rparr>)"

definition bb_init :: bb where
  "bb_init = \<lparr>board = 0, p_i = 0, p_tmp = None, c_i = 0, printed = [], c_exited = False, reported = None\<rparr>"

text \<open>
  \<open>main\<close>: the exit status when \<open>fork\<close> fails, otherwise the state of the two processes. The
  result of \<open>mmap\<close> is not tested: if it failed, both processes access no object. The runs
  below start from \<open>bb_init\<close>, after calls that succeed.
\<close>

definition bb_main :: "bool \<Rightarrow> int \<Rightarrow> (int + bb) cres" where
  "bb_main mmap_ok pid =
     (if pid < 0 then Inr (Inl 1) else if \<not> mmap_ok then Inl Out_Of_Bounds else Inr (Inr bb_init))"

definition bb_inv :: "bb \<Rightarrow> bool" where
  "bb_inv s \<longleftrightarrow> board s = int (p_i s) \<and> p_i s \<le> num_seconds
     \<and> (\<forall>v. p_tmp s = Some v \<longrightarrow> v = board s \<and> p_i s < num_seconds)
     \<and> length (printed s) = c_i s \<and> c_i s \<le> num_seconds
     \<and> sorted (printed s) \<and> (\<forall>x \<in> set (printed s). 0 \<le> x \<and> x \<le> board s)
     \<and> (c_exited s \<longrightarrow> c_i s = num_seconds) \<and> (reported s \<noteq> None \<longrightarrow> c_exited s \<and> p_i s = num_seconds)"

definition bb_left :: "bb \<Rightarrow> nat" where
  "bb_left s = 2 * (num_seconds - p_i s) - (if p_tmp s = None then 0 else 1) + (num_seconds - c_i s)
     + (if c_exited s then 0 else 1) + (if reported s = None then 1 else 0)"

lemma bb_inv_init: "bb_inv bb_init"
  by (simp add: bb_inv_def bb_init_def)

lemma bb_step_inv: "bb_step s t \<Longrightarrow> bb_inv s \<Longrightarrow> bb_inv t \<and> bb_left t < bb_left s"
proof (induction rule: bb_step.cases)
  case (c_print s)
  then show ?case by (auto simp: bb_inv_def bb_left_def sorted_append)
next
  case (p_store s v)
  then show ?case by (fastforce simp: bb_inv_def bb_left_def)
qed (auto simp: bb_inv_def bb_left_def)

lemma bb_not_stuck:
  assumes "bb_inv s" "reported s = None"
  shows "\<exists>t. bb_step s t"
proof (cases "p_tmp s")
  case (Some v)
  then show ?thesis by (blast intro: p_store)
next
  case None
  consider "p_i s < num_seconds" | "c_i s < num_seconds" | "p_i s = num_seconds" "c_i s = num_seconds"
    using assms(1) by (fastforce simp: bb_inv_def)
  then show ?thesis
  proof cases
    case 3
    then show ?thesis using None assms(2) c_exit [of s] p_wait [of s] by (cases "c_exited s") blast+
  qed (use None in \<open>blast intro: p_load c_print\<close>)+
qed

text \<open>
  C38. However parent and child of the blackboard program are interleaved, it ends after at
  most 17 steps, with the parent reporting the child's exit code 0; the shared value is
  then 5, the child has printed five values between 0 and 5, and they never decrease.
\<close>

theorem blackboard_runs:
  assumes "(bb_step ^^ n) bb_init s"
  shows "n \<le> 17 \<and> sorted (printed s) \<and> set (printed s) \<subseteq> {0..int num_seconds}
    \<and> (reported s = None \<longrightarrow> (\<exists>t. bb_step s t))
    \<and> (reported s \<noteq> None \<longrightarrow> board s = int num_seconds \<and> length (printed s) = num_seconds)"
proof -
  have "n + bb_left s \<le> bb_left bb_init \<and> bb_inv s"
    by (rule steps_bounded_inv [where R = bb_step and I = bb_inv and f = bb_left, OF assms bb_inv_init bb_step_inv])
  moreover have "bb_left bb_init = 17" by (simp add: bb_left_def bb_init_def num_seconds_def)
  ultimately show ?thesis using bb_not_stuck [of s] by (fastforce simp: bb_inv_def)
qed

theorem blackboard_runs_witness:
  "(bb_step ^^ 2) bb_init (bb_init\<lparr>printed := [0, 0], c_i := 2\<rparr>) \<and> sorted (printed (bb_init\<lparr>printed := [0, 0], c_i := 2\<rparr>))"
proof -
  have "bb_step bb_init (bb_init\<lparr>printed := [0], c_i := 1\<rparr>)"
    using c_print [of bb_init] by (simp add: bb_init_def num_seconds_def)
  moreover have "bb_step (bb_init\<lparr>printed := [0], c_i := 1\<rparr>) (bb_init\<lparr>printed := [0, 0], c_i := 2\<rparr>)"
    using c_print [of "bb_init\<lparr>printed := [0], c_i := 1\<rparr>"]
    by (simp add: bb_init_def num_seconds_def numeral_2_eq_2)
  ultimately have "(bb_step ^^ 2) bb_init (bb_init\<lparr>printed := [0, 0], c_i := 2\<rparr>)"
    by (auto simp: numeral_2_eq_2)
  with blackboard_runs [OF this] show ?thesis by simp
qed

section \<open>Printing a buffer as a string\<close>

text \<open>
  What \<open>printf\<close> reads for \<open>%s\<close>: the bytes up to the first zero. \<open>None\<close> is a byte that was
  never written.
\<close>

fun print_cstring :: "char option list \<Rightarrow> string cres" where
  "print_cstring [] = Inl Out_Of_Bounds"
| "print_cstring (None # bs) = Inl Uninit_Read"
| "print_cstring (Some c # bs) = (if c = CHR 0x00 then Inr [] else cbind (print_cstring bs) (\<lambda>s. Inr (c # s)))"

lemma print_cstring_append:
  "CHR 0x00 \<notin> set s \<Longrightarrow> print_cstring (map Some s @ bs) = cbind (print_cstring bs) (\<lambda>t. Inr (s @ t))"
proof (induction s)
  case Nil
  then show ?case by (cases "print_cstring bs") simp_all
next
  case (Cons c s)
  then show ?case by (cases "print_cstring bs") auto
qed

section \<open>fork\_test.c\<close>

abbreviation msg1 :: string where
  "msg1 \<equiv> ''hellooo''"

datatype child1_pc = C1_Dup | C1_Write | C1_Close | C1_Exited
datatype child2_pc = C2_Dup | C2_Read | C2_Print | C2_Exited
datatype parent_pc = P_Wait1 | P_Wait2 | P_Done

text \<open>
  \<open>f_ends\<close> lists the processes that hold the write end of the pipe: \<open>read\<close> waits while the
  pipe is empty and some process could still write. \<open>None\<close> in \<open>f_out\<close>: nothing printed yet.
\<close>

record ft =
  f_pipe :: string
  f_ends :: "nat set"
  f_c1 :: child1_pc
  f_c2 :: child2_pc
  f_buff :: "char option list"
  f_par :: parent_pc
  f_out :: "string cres option"

text \<open>The parent is process 0; \<open>dup1_ok\<close> and \<open>dup2_ok\<close> say whether the calls of \<open>dup2\<close> succeed.\<close>

inductive ft_step :: "bool \<Rightarrow> bool \<Rightarrow> ft \<Rightarrow> ft \<Rightarrow> bool" for dup1_ok dup2_ok where
  ft_dup1: "f_c1 s = C1_Dup \<Longrightarrow> dup1_ok \<Longrightarrow> ft_step dup1_ok dup2_ok s (s\<lparr>f_c1 := C1_Write\<rparr>)"
| ft_dup1_fail:
    "f_c1 s = C1_Dup \<Longrightarrow> \<not> dup1_ok \<Longrightarrow> ft_step dup1_ok dup2_ok s (s\<lparr>f_c1 := C1_Exited, f_ends := f_ends s - {1}\<rparr>)"
| ft_write: "f_c1 s = C1_Write \<Longrightarrow> ft_step dup1_ok dup2_ok s (s\<lparr>f_pipe := f_pipe s @ msg1, f_c1 := C1_Close\<rparr>)"
| ft_close: "f_c1 s = C1_Close \<Longrightarrow> ft_step dup1_ok dup2_ok s (s\<lparr>f_c1 := C1_Exited, f_ends := f_ends s - {1}\<rparr>)"
| ft_dup2: "f_c2 s = C2_Dup \<Longrightarrow> dup2_ok \<Longrightarrow> ft_step dup1_ok dup2_ok s (s\<lparr>f_c2 := C2_Read\<rparr>)"
| ft_dup2_fail:
    "f_c2 s = C2_Dup \<Longrightarrow> \<not> dup2_ok \<Longrightarrow> ft_step dup1_ok dup2_ok s (s\<lparr>f_c2 := C2_Exited, f_ends := f_ends s - {2}\<rparr>)"
| ft_read:
    "f_c2 s = C2_Read \<Longrightarrow> f_pipe s \<noteq> [] \<or> f_ends s = {} \<Longrightarrow>
     ft_step dup1_ok dup2_ok s (s\<lparr>f_buff := map Some (take (length msg1) (f_pipe s))
         @ drop (length (take (length msg1) (f_pipe s))) (replicate (length msg1) (Some (CHR 0x00))),
       f_pipe := drop (length msg1) (f_pipe s), f_c2 := C2_Print\<rparr>)"
| ft_print:
    "f_c2 s = C2_Print \<Longrightarrow>
     ft_step dup1_ok dup2_ok s (s\<lparr>f_out := Some (print_cstring (f_buff s)), f_c2 := C2_Exited, f_ends := f_ends s - {2}\<rparr>)"
| ft_wait1: "f_par s = P_Wait1 \<Longrightarrow> f_c1 s = C1_Exited \<Longrightarrow> ft_step dup1_ok dup2_ok s (s\<lparr>f_par := P_Wait2\<rparr>)"
| ft_wait2: "f_par s = P_Wait2 \<Longrightarrow> f_c2 s = C2_Exited \<Longrightarrow> ft_step dup1_ok dup2_ok s (s\<lparr>f_par := P_Done\<rparr>)"

definition ft_init :: ft where
  "ft_init = \<lparr>f_pipe = [], f_ends = {0, 1, 2}, f_c1 = C1_Dup, f_c2 = C2_Dup, f_buff = [], f_par = P_Wait1, f_out = None\<rparr>"

text \<open>\<open>main\<close>, by the results of \<open>pipe\<close> and of the two forks; a failure exits with 1.\<close>

definition ft_main :: "int \<Rightarrow> int \<Rightarrow> int \<Rightarrow> int + ft" where
  "ft_main pipe_rc rc1 rc2 = (if pipe_rc < 0 \<or> rc1 < 0 \<or> rc2 < 0 then Inl 1 else Inr ft_init)"

definition ft_inv :: "bool \<Rightarrow> bool \<Rightarrow> ft \<Rightarrow> bool" where
  "ft_inv dup1_ok dup2_ok s \<longleftrightarrow>
     0 \<in> f_ends s
     \<and> f_pipe s = (if f_c1 s \<in> {C1_Close, C1_Exited} \<and> dup1_ok \<and> (f_c2 s \<in> {C2_Dup, C2_Read} \<or> \<not> dup2_ok)
         then msg1 else [])
     \<and> (f_c1 s \<in> {C1_Write, C1_Close} \<longrightarrow> dup1_ok)
     \<and> (f_c2 s \<in> {C2_Read, C2_Print} \<longrightarrow> dup2_ok)
     \<and> (f_c2 s = C2_Print \<longrightarrow> f_buff s = map Some msg1 \<and> dup1_ok)
     \<and> (f_c2 s \<noteq> C2_Exited \<longrightarrow> f_out s = None)
     \<and> (f_c2 s = C2_Exited \<and> dup2_ok \<longrightarrow> f_out s = Some (Inl Out_Of_Bounds) \<and> dup1_ok \<and> f_c1 s \<in> {C1_Close, C1_Exited})
     \<and> (f_c2 s = C2_Print \<longrightarrow> f_c1 s \<in> {C1_Close, C1_Exited})
     \<and> (f_par s \<noteq> P_Wait1 \<longrightarrow> f_c1 s = C1_Exited) \<and> (f_par s = P_Done \<longrightarrow> f_c2 s = C2_Exited)"

lemma ft_inv_step:
  assumes "ft_step d1 d2 s t" "ft_inv d1 d2 s"
  shows "ft_inv d1 d2 t"
  using assms(1)
  by (cases; cases "f_c2 s"; use assms(2) in \<open>simp add: ft_inv_def split: if_splits\<close>)

lemma ft_inv_reach: "(ft_step d1 d2)\<^sup>*\<^sup>* ft_init s \<Longrightarrow> ft_inv d1 d2 s"
  by (induction rule: rtranclp_induct) (simp add: ft_inv_def ft_init_def, rule ft_inv_step)

text \<open>Steps left when both calls of \<open>dup2\<close> succeed.\<close>

fun ft_left1 :: "child1_pc \<Rightarrow> nat" where
  "ft_left1 C1_Dup = 3" | "ft_left1 C1_Write = 2" | "ft_left1 C1_Close = 1" | "ft_left1 C1_Exited = 0"

fun ft_left2 :: "child2_pc \<Rightarrow> nat" where
  "ft_left2 C2_Dup = 3" | "ft_left2 C2_Read = 2" | "ft_left2 C2_Print = 1" | "ft_left2 C2_Exited = 0"

fun ft_left3 :: "parent_pc \<Rightarrow> nat" where
  "ft_left3 P_Wait1 = 2" | "ft_left3 P_Wait2 = 1" | "ft_left3 P_Done = 0"

definition ft_left :: "ft \<Rightarrow> nat" where
  "ft_left s = ft_left1 (f_c1 s) + ft_left2 (f_c2 s) + ft_left3 (f_par s)"

lemma ft_step_decreases: "ft_step d1 d2 s t \<Longrightarrow> ft_left t < ft_left s"
  by (induction rule: ft_step.cases) (simp_all add: ft_left_def)

lemma ft_progress:
  assumes "ft_inv True True s" "f_par s \<noteq> P_Done"
  shows "\<exists>t. ft_step True True s t"
proof -
  let ?R = "ft_step True True s"
  have 1: "\<exists>t. ?R t" if "f_c1 s \<noteq> C1_Exited"
    using that ft_dup1 [of s True True] ft_write [of s True True] ft_close [of s True True]
    by (cases "f_c1 s") blast+
  have 2: "\<exists>t. ?R t" if "f_c1 s = C1_Exited" "f_c2 s \<noteq> C2_Exited"
    using that assms(1) ft_dup2 [of s True True] ft_read [of s True True] ft_print [of s True True]
    by (cases "f_c2 s") (auto simp: ft_inv_def)
  have "\<exists>t. ?R t" if "f_c1 s = C1_Exited" "f_c2 s = C2_Exited"
    using that assms(2) ft_wait1 [of s True True] ft_wait2 [of s True True] by (cases "f_par s") blast+
  with 1 2 show ?thesis by blast
qed

text \<open>
  The pipe program. When both redirections work the run can be completed, but what it
  prints is undefined: the buffer has room for the seven bytes of the message and not
  for a terminating zero. When the first child fails to redirect its output, the second
  one waits in \<open>read\<close> for good, because it holds the write end of the pipe itself, and
  the parent never ends.
\<close>

theorem fork_test_results:
  "((ft_step True True)\<^sup>*\<^sup>* ft_init s \<longrightarrow>
      (\<exists>t. (ft_step True True)\<^sup>*\<^sup>* s t \<and> f_par t = P_Done \<and> f_out t = Some (Inl Out_Of_Bounds)))
   \<and> ((ft_step False True)\<^sup>*\<^sup>* ft_init s \<longrightarrow> f_par s \<noteq> P_Done \<and> f_out s = None)"
proof (intro conjI impI)
  assume "(ft_step True True)\<^sup>*\<^sup>* ft_init s"
  from ft_inv_reach [OF this]
  have "\<exists>t. (ft_step True True)\<^sup>*\<^sup>* s t \<and> ft_inv True True t \<and> f_par t = P_Done"
    using ft_progress ft_step_decreases ft_inv_step
    by (intro reach_goal [where f = ft_left and I = "ft_inv True True"]) blast+
  then show "\<exists>t. (ft_step True True)\<^sup>*\<^sup>* s t \<and> f_par t = P_Done \<and> f_out t = Some (Inl Out_Of_Bounds)"
    by (auto simp: ft_inv_def)
next
  assume "(ft_step False True)\<^sup>*\<^sup>* ft_init s"
  from ft_inv_reach [OF this] show "f_par s \<noteq> P_Done" "f_out s = None" by (auto simp: ft_inv_def)
qed

theorem fork_test_results_witness:
  "\<exists>t. (ft_step True True)\<^sup>*\<^sup>* ft_init t \<and> f_par t = P_Done \<and> f_out t = Some (Inl Out_Of_Bounds)"
  using fork_test_results [of ft_init] by blast

section \<open>event\_loop.c\<close>

text \<open>
  One round after \<open>poll\<close>: its result, which descriptors have \<open>POLLIN\<close>, and what \<open>read\<close>
  returns on the standard input and on the file (\<open>None\<close> for -1). The buffers are fresh
  in each round.
\<close>

record ev_round =
  ev_ret :: int
  ev_stdin :: bool
  ev_timer :: bool
  ev_input :: "string option"
  ev_file :: "string option"

definition EV_BUF :: nat where
  "EV_BUF = 1024"

definition read_buf :: "string option \<Rightarrow> nat \<Rightarrow> char option list" where
  "read_buf data n = (case data of None \<Rightarrow> replicate EV_BUF None
     | Some bs \<Rightarrow> map Some (take n bs) @ replicate (EV_BUF - length (take n bs)) None)"

definition read_len :: "string option \<Rightarrow> nat \<Rightarrow> int" where
  "read_len data n = (case data of None \<Rightarrow> -1 | Some bs \<Rightarrow> int (length (take n bs)))"

definition ev_keyboard :: "ev_round \<Rightarrow> string cres" where
  "ev_keyboard r =
     (if \<not> ev_stdin r then Inr []
      else let buf = read_buf (ev_input r) (EV_BUF - 1); n = read_len (ev_input r) (EV_BUF - 1) in
        if 0 < n then cbind (iset buf n (Some (CHR 0x00))) (\<lambda>buf.
          cbind (print_cstring buf) (\<lambda>s. Inr (''Keyboard: '' @ s)))
        else Inr [])"

definition ev_update :: "ev_round \<Rightarrow> string cres" where
  "ev_update r =
     (if \<not> ev_timer r then Inr []
      else let buf = read_buf (ev_file r) EV_BUF; n = read_len (ev_file r) EV_BUF in
        if 0 < n then cbind (print_cstring buf) (\<lambda>s. Inr (''File Updated: '' @ s)) else Inr [])"

text \<open>The output of the loop over the given rounds; it ends when \<open>poll\<close> fails.\<close>

fun ev_loop :: "ev_round list \<Rightarrow> string cres" where
  "ev_loop [] = Inr []"
| "ev_loop (r # rs) =
     (if ev_ret r < 0 then Inr []
      else cbind (ev_keyboard r) (\<lambda>a. cbind (ev_update r) (\<lambda>b. cbind (ev_loop rs) (\<lambda>c. Inr (a @ b @ c)))))"

lemma buf_terminate:
  assumes "length d < N"
  shows "iset (map Some d @ replicate (N - length d) None) (int (length d)) (Some z)
    = Inr (map Some d @ Some z # replicate (N - length d - 1) None)"
proof -
  obtain k where "N - length d = Suc k" using assms by (cases "N - length d") auto
  then show ?thesis by (simp add: iset_def arr_set_def list_update_append)
qed

text \<open>
  C39. A round of the event loop echoes what was typed: up to 1023 bytes, all of them if
  there is no zero byte among them; at the end of the input it prints nothing and goes
  on. What it reads from the file it prints without a terminating zero: unless the data
  contain one, that reads bytes that were never written, or past the end of the buffer
  when it is full.
\<close>

theorem event_loop_round:
  assumes "CHR 0x00 \<notin> set bs" "bs \<noteq> []"
  shows "(ev_stdin r \<and> ev_input r = Some bs \<longrightarrow> ev_keyboard r = Inr (''Keyboard: '' @ take (EV_BUF - 1) bs))
    \<and> (ev_input r \<in> {None, Some []} \<longrightarrow> ev_keyboard r = Inr [])
    \<and> (ev_timer r \<and> ev_file r = Some bs \<longrightarrow>
         ev_update r = Inl (if length bs < EV_BUF then Uninit_Read else Out_Of_Bounds))
    \<and> (ev_timer r \<and> ev_file r = Some (bs @ CHR 0x00 # cs) \<and> length bs < EV_BUF \<longrightarrow>
         ev_update r = Inr (''File Updated: '' @ bs))"
proof (intro conjI impI)
  assume a: "ev_stdin r \<and> ev_input r = Some bs"
  let ?d = "take (EV_BUF - 1) bs"
  have len: "length ?d < EV_BUF" "?d \<noteq> []" using assms(2) by (auto simp: EV_BUF_def)
  have nz: "CHR 0x00 \<notin> set ?d" using assms(1) by (meson in_set_takeD)
  have "iset (read_buf (Some bs) (EV_BUF - 1)) (int (length ?d)) (Some (CHR 0x00))
      = Inr (map Some ?d @ Some (CHR 0x00) # replicate (EV_BUF - length ?d - 1) None)"
    using buf_terminate [OF len(1)] by (simp add: read_buf_def)
  then show "ev_keyboard r = Inr (''Keyboard: '' @ ?d)"
    using a len(2) print_cstring_append [OF nz] by (simp add: ev_keyboard_def read_len_def Let_def)
next
  assume "ev_input r \<in> {None, Some []}"
  then show "ev_keyboard r = Inr []" by (auto simp: ev_keyboard_def read_len_def Let_def)
next
  assume a: "ev_timer r \<and> ev_file r = Some bs"
  have nz: "CHR 0x00 \<notin> set (take EV_BUF bs)" using assms(1) by (meson in_set_takeD)
  have "print_cstring (replicate (EV_BUF - length bs) None) = Inl (if length bs < EV_BUF then Uninit_Read else Out_Of_Bounds)"
    by (cases "EV_BUF - length bs") auto
  moreover have "EV_BUF - length (take EV_BUF bs) = EV_BUF - length bs" by simp
  ultimately have "print_cstring (read_buf (Some bs) EV_BUF) = Inl (if length bs < EV_BUF then Uninit_Read else Out_Of_Bounds)"
    unfolding read_buf_def option.case print_cstring_append [OF nz] by simp
  moreover have "0 < read_len (Some bs) EV_BUF" using assms(2) by (simp add: read_len_def EV_BUF_def)
  ultimately show "ev_update r = Inl (if length bs < EV_BUF then Uninit_Read else Out_Of_Bounds)"
    using a by (simp add: ev_update_def Let_def)
next
  assume a: "ev_timer r \<and> ev_file r = Some (bs @ CHR 0x00 # cs) \<and> length bs < EV_BUF"
  then have "take EV_BUF (bs @ CHR 0x00 # cs) = bs @ CHR 0x00 # take (EV_BUF - length bs - 1) cs"
    by (cases "EV_BUF - length bs") simp_all
  then show "ev_update r = Inr (''File Updated: '' @ bs)"
    using a assms by (simp add: ev_update_def read_len_def read_buf_def Let_def print_cstring_append [OF assms(1)])
qed

theorem event_loop_round_witness:
  "ev_loop [\<lparr>ev_ret = 1, ev_stdin = True, ev_timer = False, ev_input = Some ''hi'', ev_file = None\<rparr>,
     \<lparr>ev_ret = -1, ev_stdin = False, ev_timer = False, ev_input = None, ev_file = None\<rparr>] = Inr ''Keyboard: hi''
   \<and> ev_loop [\<lparr>ev_ret = 1, ev_stdin = False, ev_timer = True, ev_input = None, ev_file = Some ''hi''\<rparr>] = Inl Uninit_Read"
  using event_loop_round [of "''hi''" "\<lparr>ev_ret = 1, ev_stdin = True, ev_timer = False, ev_input = Some ''hi'', ev_file = None\<rparr>"]
    event_loop_round [of "''hi''" "\<lparr>ev_ret = 1, ev_stdin = False, ev_timer = True, ev_input = None, ev_file = Some ''hi''\<rparr>"]
  by (simp add: ev_update_def [of "\<lparr>ev_ret = 1, ev_stdin = True, ev_timer = False, ev_input = Some ''hi'', ev_file = None\<rparr>"] EV_BUF_def)

end
