(* ===== verification/Measurements.thy ===== *)
theory Measurements
  imports C_Library
begin

text \<open>
  The two measuring programs: \<open>19_TLBs/tlb.c\<close> and \<open>21_SwappingMechanisms/mem.c\<close>. The
  clock is a parameter, the printed floating-point figures are left out. The contents of
  an allocated array are arbitrary.
\<close>

section \<open>Differences of times\<close>

definition NS_PER_SECOND :: int where
  "NS_PER_SECOND = 1000000000"

record timespec =
  tv_sec :: int
  tv_nsec :: int

definition sub_timespec :: "timespec \<Rightarrow> timespec \<Rightarrow> timespec cres" where
  "sub_timespec t1 t2 =
     cbind (c_int64 (tv_nsec t2 - tv_nsec t1)) (\<lambda>nsec.
     cbind (c_int64 (tv_sec t2 - tv_sec t1)) (\<lambda>sec.
     Inr (if 0 < sec \<and> nsec < 0 then \<lparr>tv_sec = sec - 1, tv_nsec = nsec + NS_PER_SECOND\<rparr>
          else if sec < 0 \<and> 0 < nsec then \<lparr>tv_sec = sec + 1, tv_nsec = nsec - NS_PER_SECOND\<rparr>
          else \<lparr>tv_sec = sec, tv_nsec = nsec\<rparr>)))"

definition nanoseconds :: "timespec \<Rightarrow> int" where
  "nanoseconds t = tv_sec t * NS_PER_SECOND + tv_nsec t"

definition normal_time :: "timespec \<Rightarrow> bool" where
  "normal_time t \<longleftrightarrow> 0 \<le> tv_nsec t \<and> tv_nsec t < NS_PER_SECOND \<and> \<bar>tv_sec t\<bar> < 2 ^ 62"

text \<open>
  C35. For two times as the clock gives them (nanoseconds below a second), \<open>sub_timespec\<close>
  is defined and its result is exactly the difference: the nanoseconds are less than a
  second in absolute value and never have the opposite sign of the seconds.
\<close>

theorem sub_timespec_exact:
  assumes "normal_time t1" "normal_time t2"
  shows "\<exists>td. sub_timespec t1 t2 = Inr td \<and> nanoseconds td = nanoseconds t2 - nanoseconds t1
    \<and> \<bar>tv_nsec td\<bar> < NS_PER_SECOND \<and> 0 \<le> tv_sec td * tv_nsec td"
proof -
  define s where "s = tv_sec t2 - tv_sec t1"
  define n where "n = tv_nsec t2 - tv_nsec t1"
  have n: "\<bar>n\<bar> < NS_PER_SECOND" using assms by (auto simp: n_def normal_time_def)
  have ok: "c_int64 n = Inr n" "c_int64 s = Inr s"
    using assms by (auto simp: c_int64_def n_def s_def normal_time_def NS_PER_SECOND_def)
  let ?td = "if 0 < s \<and> n < 0 then \<lparr>tv_sec = s - 1, tv_nsec = n + NS_PER_SECOND\<rparr>
    else if s < 0 \<and> 0 < n then \<lparr>tv_sec = s + 1, tv_nsec = n - NS_PER_SECOND\<rparr> else \<lparr>tv_sec = s, tv_nsec = n\<rparr>"
  have "sub_timespec t1 t2 = Inr ?td" using ok by (simp add: sub_timespec_def s_def n_def)
  moreover have "nanoseconds ?td = s * NS_PER_SECOND + n" by (simp add: nanoseconds_def algebra_simps)
  moreover have "\<dots> = nanoseconds t2 - nanoseconds t1" by (simp add: nanoseconds_def s_def n_def algebra_simps)
  moreover have "\<bar>tv_nsec ?td\<bar> < NS_PER_SECOND" using n by (simp add: NS_PER_SECOND_def)
  moreover have "0 \<le> tv_sec ?td * tv_nsec ?td"
  proof -
    consider "0 < s \<and> n < 0" | "s < 0 \<and> 0 < n" | "0 \<le> s \<and> 0 \<le> n" | "s \<le> 0 \<and> n \<le> 0" by linarith
    then show ?thesis
      using n by cases (auto simp: mult_nonpos_nonpos)
  qed
  ultimately show ?thesis by metis
qed

theorem sub_timespec_exact_witness:
  "\<exists>td. sub_timespec \<lparr>tv_sec = 1, tv_nsec = 900000000\<rparr> \<lparr>tv_sec = 3, tv_nsec = 100000000\<rparr> = Inr td
     \<and> nanoseconds td = 1200000000"
  using sub_timespec_exact [of "\<lparr>tv_sec = 1, tv_nsec = 900000000\<rparr>" "\<lparr>tv_sec = 3, tv_nsec = 100000000\<rparr>"]
  by (auto simp: normal_time_def NS_PER_SECOND_def nanoseconds_def)

section \<open>tlb.c\<close>

text \<open>
  The loop over the array. With a step of 0 it would not end, so it is a partial function:
  \<open>None\<close> means that it does not return.
\<close>

partial_function (option) tlb_inner :: "int list \<Rightarrow> int \<Rightarrow> int \<Rightarrow> int \<Rightarrow> int \<Rightarrow> int cres option" where
  "tlb_inner a num_pages jump j dummy_sum =
     (if j < num_pages then
        (case cbind (iget a j) (\<lambda>v. cbind (c_int (dummy_sum + v)) (\<lambda>s. cbind (c_int (j + jump)) (\<lambda>j. Inr (s, j)))) of
           Inl e \<Rightarrow> Some (Inl e)
         | Inr sj \<Rightarrow> tlb_inner a num_pages jump (snd sj) (fst sj))
      else Some (Inr dummy_sum))"

fun tlb_trials :: "nat \<Rightarrow> int list \<Rightarrow> int \<Rightarrow> int \<Rightarrow> int \<Rightarrow> int cres option" where
  "tlb_trials 0 a num_pages jump dummy_sum = Some (Inr dummy_sum)"
| "tlb_trials (Suc n) a num_pages jump dummy_sum =
     (case tlb_inner a num_pages jump 0 dummy_sum of
        None \<Rightarrow> None
      | Some (Inl e) \<Rightarrow> Some (Inl e)
      | Some (Inr s) \<Rightarrow> tlb_trials n a num_pages jump s)"

text \<open>
  \<open>main\<close> up to the end of the loops. \<open>alloc n\<close> is the array of the \<open>int\<close>s that fit into an
  allocation of \<open>n\<close> bytes, \<open>None\<close> if it fails; their values, which nothing initialises, are
  arbitrary numbers, so the sum may or may not overflow. The test \<open>argc < 1\<close> lets missing arguments
  pass, and \<open>atoi\<close> then gets a null pointer.
\<close>

definition tlb_main :: "(nat \<Rightarrow> int list option) \<Rightarrow> int \<Rightarrow> string list \<Rightarrow> int cres option" where
  "tlb_main alloc page_size args =
     (case args of
        pages # trials # _ \<Rightarrow>
          (case cbind (c_atoi pages) (\<lambda>p. cbind (c_atoi trials) (\<lambda>t.
                  cbind (c_int (p * (page_size div 4))) (\<lambda>sz. Inr (p, t, sz)))) of
             Inl e \<Rightarrow> Some (Inl e)
           | Inr (p, t, sz) \<Rightarrow>
               (case alloc (nat (sz mod 2 ^ 64)) of
                  None \<Rightarrow> if 0 < t \<and> 0 < p then Some (Inl Null_Deref) else Some (Inr 0)
                | Some a \<Rightarrow> tlb_trials (nat t) a p (page_size div 4) 0))
      | _ \<Rightarrow> Some (Inl Null_Deref))"

lemma tlb_inner_returns:
  assumes "0 < jump" "0 \<le> j"
  shows "\<exists>r. tlb_inner a num_pages jump j s = Some r \<and> (num_pages \<le> int (length a) \<longrightarrow> r \<noteq> Inl Out_Of_Bounds)"
  using assms(2)
proof (induction "nat (num_pages - j)" arbitrary: j s rule: less_induct)
  case less
  show ?case
  proof (cases "j < num_pages")
    case True
    have IH: "\<exists>r. tlb_inner a num_pages jump (j + jump) s = Some r
        \<and> (num_pages \<le> int (length a) \<longrightarrow> r \<noteq> Inl Out_Of_Bounds)" for s
      using less.prems True assms(1) by (intro less.hyps) auto
    show ?thesis
    proof (cases "j < int (length a)")
      case inside: True
      then show ?thesis using IH True less.prems
        by (subst tlb_inner.simps) (auto simp: c_int_def)
    next
      case False
      then show ?thesis using True by (subst tlb_inner.simps) auto
    qed
  qed (subst tlb_inner.simps, simp)
qed

lemma tlb_inner_touches:
  assumes "0 < jump" "0 \<le> j" "jump dvd j"
    and "\<forall>i. 0 \<le> i \<and> i < num_pages \<and> jump dvd i \<longrightarrow> iget a i = iget b i"
  shows "tlb_inner a num_pages jump j s = tlb_inner b num_pages jump j s"
  using assms(2,3)
proof (induction "nat (num_pages - j)" arbitrary: j s rule: less_induct)
  case less
  show ?case
  proof (cases "j < num_pages")
    case True
    have IH: "tlb_inner a num_pages jump (j + jump) s = tlb_inner b num_pages jump (j + jump) s" for s
      using less.prems True assms(1) by (intro less.hyps) auto
    have "iget a j = iget b j" using True less.prems assms(4) by simp
    then show ?thesis using IH True
      by (subst (1 2) tlb_inner.simps) (cases "iget b j"; auto simp: c_int_def)
  qed (subst (1 2) tlb_inner.simps, simp)
qed

lemma tlb_trials_returns:
  assumes "0 < jump" "num_pages \<le> int (length a)"
  shows "\<exists>r. tlb_trials n a num_pages jump s = Some r \<and> r \<noteq> Inl Out_Of_Bounds"
proof (induction n arbitrary: s)
  case (Suc n)
  obtain r where "tlb_inner a num_pages jump 0 s = Some r" "r \<noteq> Inl Out_Of_Bounds"
    using tlb_inner_returns [OF assms(1), of 0 a num_pages s] assms(2) by auto
  with Suc show ?case by (cases r) auto
qed simp

lemma tlb_trials_empty: "num_pages \<le> 0 \<Longrightarrow> tlb_trials n a num_pages jump s = Some (Inr s)"
  by (induction n arbitrary: s) (simp_all add: tlb_inner.simps)

lemma tlb_trials_touches:
  assumes "0 < jump" "\<forall>i. 0 \<le> i \<and> i < num_pages \<and> jump dvd i \<longrightarrow> iget a i = iget b i"
  shows "tlb_trials n a num_pages jump s = tlb_trials n b num_pages jump s"
  using tlb_inner_touches [OF assms(1) _ _ assms(2), of 0]
  by (induction n arbitrary: s) (auto split: option.splits sum.splits)

text \<open>
  C40. \<open>tlb.c\<close> always returns from its loops and never reads outside its array, for every
  command line and page size of at least 16 bytes, although it allocates
  \<open>num_pages * jump\<close> bytes and not \<open>int\<close>s: the loop runs over \<open>num_pages\<close> elements, not
  pages, so it reads only every \<open>jump\<close>-th of the first \<open>num_pages\<close> elements. The other
  elements have no effect on what it computes.
\<close>

theorem tlb_loops:
  assumes "16 \<le> page_size" "\<forall>n a. alloc n = Some a \<longrightarrow> length a = n div 4"
  shows "(\<exists>r. tlb_main alloc page_size args = Some r \<and> r \<noteq> Inl Out_Of_Bounds)
    \<and> ((\<forall>i. 0 \<le> i \<and> i < num_pages \<and> page_size div 4 dvd i \<longrightarrow> iget a i = iget b i) \<longrightarrow>
         tlb_trials n a num_pages (page_size div 4) s = tlb_trials n b num_pages (page_size div 4) s)"
proof (intro conjI impI)
  have jump: "4 \<le> page_size div 4" using assms(1) by linarith
  have loops: "\<exists>r. tlb_trials (nat t) a p (page_size div 4) 0 = Some r \<and> r \<noteq> Inl Out_Of_Bounds"
    if "alloc (nat (p * (page_size div 4) mod 2 ^ 64)) = Some a" "int_range (p * (page_size div 4))" for p t a
  proof (cases "0 < p")
    case True
    define z where "z = p * (page_size div 4)"
    have z: "4 * p \<le> z" "0 \<le> z" using True jump by (simp_all add: z_def)
    have "z mod 2 ^ 64 = z" using z that(2) by (simp add: int_range_def INT_MAX_def flip: z_def)
    then have "length a = nat z div 4" using assms(2) that(1) by (simp flip: z_def)
    then have "int (length a) = z div 4" using z(2) by (simp add: zdiv_int)
    then have "p \<le> int (length a)" using z(1) by linarith
    with jump show ?thesis by (intro tlb_trials_returns) simp_all
  qed (simp add: tlb_trials_empty)
  have atoi: "c_atoi x \<noteq> Inl Out_Of_Bounds" "c_int i \<noteq> Inl Out_Of_Bounds" for x i
    by (simp_all add: c_atoi_def c_int_def)
  show "\<exists>r. tlb_main alloc page_size args = Some r \<and> r \<noteq> Inl Out_Of_Bounds"
  proof (cases "\<exists>x y zs. args = x # y # zs")
    case True
    then obtain x y zs where args: "args = x # y # zs" by blast
    show ?thesis
    proof (cases "c_atoi x")
      case (Inr p)
      show ?thesis
      proof (cases "c_atoi y")
        case (Inr t)
        with \<open>c_atoi x = Inr p\<close> args show ?thesis using loops [of p _ t]
          by (auto simp: tlb_main_def c_int_def split: option.splits)
      qed (use args \<open>c_atoi x = Inr p\<close> atoi(1) [of y] in \<open>auto simp: tlb_main_def\<close>)
    qed (use args atoi(1) [of x] in \<open>auto simp: tlb_main_def\<close>)
  qed (auto simp: tlb_main_def split: list.splits)
next
  assume "\<forall>i. 0 \<le> i \<and> i < num_pages \<and> page_size div 4 dvd i \<longrightarrow> iget a i = iget b i"
  then show "tlb_trials n a num_pages (page_size div 4) s = tlb_trials n b num_pages (page_size div 4) s"
    using assms(1) by (intro tlb_trials_touches) auto
qed

theorem tlb_loops_witness:
  "(\<exists>r. tlb_main (\<lambda>n. Some (replicate (n div 4) 7)) 4096 [''100'', ''3''] = Some r \<and> r \<noteq> Inl Out_Of_Bounds)
   \<and> tlb_trials 3 [1, 2] 2 1024 0 = tlb_trials 3 [1, 9] 2 1024 0"
proof -
  have "iget [1::int, 2] i = iget [1, 9] i" if "0 \<le> i" "i < 2" "(1024::int) dvd i" for i
  proof -
    have "i = 0" using that zdvd_imp_le [of 1024 i] by (cases "0 < i") auto
    then show ?thesis by simp
  qed
  then show ?thesis
    using tlb_loops [of 4096 "\<lambda>n. Some (replicate (n div 4) 7)" "[''100'', ''3'']" 2 "[1, 2]" "[1, 9]" 3 0] by auto
qed

section \<open>mem.c\<close>

text \<open>One round of the endless loop, without the timing.\<close>

record mem_state =
  m_x :: "int list"
  m_i :: int
  m_loop_count :: int

definition mem_round :: "int \<Rightarrow> mem_state \<Rightarrow> mem_state cres" where
  "mem_round num_ints s =
     cbind (iget (m_x s) (m_i s)) (\<lambda>v. cbind (c_int (v + 1)) (\<lambda>v.
     cbind (iset (m_x s) (m_i s) v) (\<lambda>x. cbind (c_int64 (m_i s + 1)) (\<lambda>i.
       if i = num_ints then cbind (c_int (m_loop_count s + 1)) (\<lambda>c. Inr \<lparr>m_x = x, m_i = 0, m_loop_count = c\<rparr>)
       else Inr (s\<lparr>m_x := x, m_i := i\<rparr>)))))"

fun mem_rounds :: "nat \<Rightarrow> int \<Rightarrow> mem_state \<Rightarrow> mem_state cres" where
  "mem_rounds 0 num_ints s = Inr s"
| "mem_rounds (Suc n) num_ints s = cbind (mem_rounds n num_ints s) (mem_round num_ints)"

text \<open>\<open>main\<close> up to the loop: an exit status, or the number of \<open>int\<close>s and the first state.\<close>

definition mem_start :: "(nat \<Rightarrow> int list option) \<Rightarrow> string list \<Rightarrow> (int + int \<times> mem_state) cres" where
  "mem_start alloc args =
     (case args of
        [mb] \<Rightarrow> cbind (c_atoi mb) (\<lambda>size.
          let size_in_bytes = size * 1024 * 1024 in
          case alloc (nat (size_in_bytes mod 2 ^ 64)) of
            None \<Rightarrow> Inr (Inl 1)
          | Some x \<Rightarrow> Inr (Inr ((size_in_bytes mod 2 ^ 64) div 4, \<lparr>m_x = x, m_i = 0, m_loop_count = 0\<rparr>)))
      | _ \<Rightarrow> Inr (Inl 1))"

text \<open>What \<open>r\<close> rounds make of the array \<open>x\<close>: every pass over it adds 1 to each element.\<close>

definition mem_at :: "int list \<Rightarrow> nat \<Rightarrow> mem_state" where
  "mem_at x r =
     (let n = length x in
      \<lparr>m_x = map (\<lambda>i. x ! i + int (r div n) + (if i < r mod n then 1 else 0)) [0..<n],
       m_i = int (r mod n), m_loop_count = int (r div n)\<rparr>)"

lemma Suc_div_mod:
  assumes "0 < n"
  shows "Suc r mod n = (if Suc (r mod n) = n then 0 else Suc (r mod n))"
    and "Suc r div n = (if Suc (r mod n) = n then Suc (r div n) else r div n)"
  using assms by (simp_all add: mod_Suc div_Suc)

lemma mem_at_update:
  assumes "x \<noteq> []"
  shows "(m_x (mem_at x r))[r mod length x := x ! (r mod length x) + int (r div length x) + 1] = m_x (mem_at x (Suc r))"
proof (intro nth_equalityI)
  fix i assume "i < length ((m_x (mem_at x r))[r mod length x := x ! (r mod length x) + int (r div length x) + 1])"
  then have i: "i < length x" by (simp add: mem_at_def Let_def)
  moreover have "r mod length x < length x" using assms by simp
  ultimately show "(m_x (mem_at x r))[r mod length x := x ! (r mod length x) + int (r div length x) + 1] ! i
      = m_x (mem_at x (Suc r)) ! i"
    using assms by (auto simp: mem_at_def Let_def nth_list_update Suc_div_mod [of "length x" r])
qed (simp add: mem_at_def Let_def)

lemma mem_round_at:
  assumes "x \<noteq> []" "int (length x) < 2 ^ 63"
  shows "mem_round (int (length x)) (mem_at x r) =
    cbind (c_int (x ! (r mod length x) + int (r div length x) + 1)) (\<lambda>_.
      if Suc (r mod length x) = length x
      then cbind (c_int (int (r div length x) + 1)) (\<lambda>_. Inr (mem_at x (Suc r))) else Inr (mem_at x (Suc r)))"
proof -
  let ?j = "r mod length x" and ?k = "r div length x"
  have "?j < length x" using assms(1) by simp
  then have j: "?j < length x" "int ?j + 1 < 2 ^ 63" using assms(2) by linarith+
  have rd: "iget (m_x (mem_at x r)) (int ?j) = Inr (x ! ?j + int ?k)"
    "iset (m_x (mem_at x r)) (int ?j) v = Inr ((m_x (mem_at x r))[?j := v])"
    "m_i (mem_at x r) = int ?j" "m_loop_count (mem_at x r) = int ?k"
    "mem_at x r\<lparr>m_x := y, m_i := l\<rparr> = \<lparr>m_x = y, m_i = l, m_loop_count = int ?k\<rparr>" for v y l
    using j(1) by (simp_all add: mem_at_def Let_def)
  have c64: "c_int64 (int ?j + 1) = Inr (int ?j + 1)" using j by (simp add: c_int64_def)
  have "int ?j + 1 = int (length x) \<longleftrightarrow> Suc ?j = length x" by linarith
  note eqs = Suc_div_mod [of "length x" r] this
  have new: "mem_at x (Suc r) = \<lparr>m_x = (m_x (mem_at x r))[?j := x ! ?j + int ?k + 1],
      m_i = (if Suc ?j = length x then 0 else int ?j + 1),
      m_loop_count = (if Suc ?j = length x then int ?k + 1 else int ?k)\<rparr>"
    unfolding mem_at_update [OF assms(1)] using assms(1) eqs by (auto simp: mem_at_def Let_def)
  show ?thesis
    by (cases "int_range (x ! ?j + int ?k + 1)"; cases "int_range (int ?k + 1)")
      (auto simp: mem_round_def rd c64 eqs(3) new c_int_def)
qed

lemma mem_at_0: "mem_at x 0 = \<lparr>m_x = x, m_i = 0, m_loop_count = 0\<rparr>"
  by (simp add: mem_at_def Let_def map_nth)

lemma mem_rounds_cases:
  assumes "x \<noteq> []" "int (length x) < 2 ^ 63"
  shows "mem_rounds r (int (length x)) (mem_at x 0) = Inl Signed_Overflow
    \<or> mem_rounds r (int (length x)) (mem_at x 0) = Inr (mem_at x r) \<and> int (r div length x) \<le> INT_MAX"
proof (induction r)
  case (Suc r)
  have "0 < length x" using assms(1) by simp
  from Suc show ?case
    by (elim disjE) (auto simp: mem_round_at [OF assms] c_int_def int_range_def
        Suc_div_mod(2) [OF \<open>0 < length x\<close>])
qed (simp add: INT_MAX_def)

lemma mem_rounds_ok:
  assumes "x \<noteq> []" "int (length x) < 2 ^ 63" "\<forall>v \<in> set x. INT_MIN \<le> v \<and> v + int (r div length x) < INT_MAX"
    and "int (r div length x) \<le> INT_MAX"
  shows "mem_rounds r (int (length x)) (mem_at x 0) = Inr (mem_at x r)"
  using assms(3,4)
proof (induction r)
  case (Suc r)
  have n: "0 < length x" using assms(1) by simp
  have le: "r div length x \<le> Suc r div length x" by (intro div_le_mono) simp
  have small: "INT_MIN \<le> v \<and> v + int (r div length x) < INT_MAX" if "v \<in> set x" for v
    using bspec [OF Suc.prems(1) that] le by linarith
  moreover have "int (r div length x) \<le> INT_MAX" using Suc.prems(2) le by linarith
  ultimately have "mem_rounds r (int (length x)) (mem_at x 0) = Inr (mem_at x r)"
    by (intro Suc.IH) blast+
  moreover have "x ! (r mod length x) \<in> set x" using n by simp
  from small [OF this] have "int_range (x ! (r mod length x) + int (r div length x) + 1)"
    by (simp add: int_range_def)
  moreover have "int_range (int (r div length x) + 1)" if "Suc (r mod length x) = length x"
    using Suc.prems(2) that n by (simp add: Suc_div_mod(2) int_range_def INT_MIN_def)
  ultimately show ?case by (simp add: mem_round_at [OF assms(1,2)])
qed simp

text \<open>
  The loop of \<open>mem.c\<close> over an array \<open>x\<close> of arbitrary contents never leaves the array; after
  \<open>r\<close> rounds every element has been incremented once per pass, as long as the sums and the
  pass counter fit an \<open>int\<close>. The loop is meant to run forever, but is undefined after at
  most \<open>2 ^ 31\<close> passes; with a size of 0 MB already the first round is outside the array.
\<close>

theorem mem_loop_counts:
  assumes "x \<noteq> []" "int (length x) < 2 ^ 63"
  shows "((\<forall>v \<in> set x. INT_MIN \<le> v \<and> v + int (r div length x) < INT_MAX) \<and> int (r div length x) \<le> INT_MAX \<longrightarrow>
        mem_rounds r (int (length x)) \<lparr>m_x = x, m_i = 0, m_loop_count = 0\<rparr> = Inr (mem_at x r))
    \<and> mem_rounds r (int (length x)) \<lparr>m_x = x, m_i = 0, m_loop_count = 0\<rparr> \<noteq> Inl Out_Of_Bounds
    \<and> mem_rounds (length x * 2 ^ 31) (int (length x)) \<lparr>m_x = x, m_i = 0, m_loop_count = 0\<rparr> = Inl Signed_Overflow
    \<and> mem_rounds 1 0 \<lparr>m_x = [], m_i = 0, m_loop_count = 0\<rparr> = Inl Out_Of_Bounds"
proof -
  have "\<not> int (length x * 2 ^ 31 div length x) \<le> INT_MAX" using assms(1) by (simp add: INT_MAX_def)
  then have "mem_rounds (length x * 2 ^ 31) (int (length x)) (mem_at x 0) = Inl Signed_Overflow"
    using mem_rounds_cases [OF assms, of "length x * 2 ^ 31"] by blast
  moreover have "mem_rounds r (int (length x)) (mem_at x 0) \<noteq> Inl Out_Of_Bounds"
    using mem_rounds_cases [OF assms, of r] by auto
  moreover have "mem_rounds 1 0 \<lparr>m_x = [], m_i = 0, m_loop_count = 0\<rparr> = Inl Out_Of_Bounds"
    by (simp add: mem_round_def)
  ultimately show ?thesis using mem_rounds_ok [OF assms, of r] unfolding mem_at_0 by blast
qed

theorem mem_loop_counts_witness:
  "mem_rounds 5 (int (length [10, 20])) \<lparr>m_x = [10, 20], m_i = 0, m_loop_count = 0\<rparr> = Inr (mem_at [10, 20] 5)"
proof -
  have "5 div length [10, 20 :: int] = 2" by (simp flip: numeral_2_eq_2)
  then show ?thesis using mem_loop_counts [of "[10, 20]" 5, THEN conjunct1] by (auto simp: INT_MIN_def INT_MAX_def)
qed

end
