(* ===== verification/Spec2Isabelle.thy ===== *)
theory Spec2Isabelle
  imports
    Ring_Buffers Spsc Packet_Processor Log_Store Sparse_Set Locking
    Blocking_Queue Resource_Pool Worker_Pools Mem_Basics Submasks
    Semaphores Counters Interrupts Parsers Buffer_Pool Monitors
    Vector_Programs Try_Wait Packet_Setup Logstore_Test Semaphore_Programs
    Heap_Use Files Processes Measurements
begin

text \<open>
  A verification library for a collection of C programs: the exercises of an operating
  systems course (the numbered directories of \<open>src\<close>, from \<open>5_processAPI\<close> to
  \<open>39_FilesAndDirectories\<close>) and practice problems on embedded, driver and systems code
  (\<open>src/practiceQs\<close>). The programs share little code, but they use the same few mechanisms,
  ring buffers, locks, condition variables, semaphores and registers, and the library
  proves what is common once, as interfaces that the programs implement.

  \<^bold>\<open>Conventions.\<close> A structure is a record, an enumeration a datatype, \<open>uintN_t\<close> an
  \<open>N\<close>-bit word, \<open>int\<close> an integer with an explicit range check. A step that C leaves undefined
  (out of bounds, signed overflow, too wide a shift, uninitialised read, misaligned
  access, an array of no elements) is the value \<open>Inl\<close> of the type \<open>ub\<close>, so a theorem that
  a call gives \<open>Inr\<close> includes its safety. A function that ends without a \<open>return\<close> keeps its
  effects, as only the use of its value is undefined: the value alone is
  \<open>Inl Missing_Return\<close> (\<open>submit_job\<close>, \<open>comp_wait_round\<close>). Code that runs concurrently is a step relation with one step per access to shared
  data, or per critical section where every access is under one lock; memory is sequentially
  consistent. Source files that do not compile are read as what they evidently mean, and
  the places are listed as findings beside the development.

  \<^bold>\<open>Interfaces.\<close> \<open>Prelude\<close> holds types and generic lemmas, \<open>Circular\<close> slices of a
  ring, \<open>Bounded_Fifo\<close> the locale of a bounded queue, \<open>Kv_Store\<close> and \<open>Bounded_Set\<close> those of a
  store and a set; \<open>Lock_Machine\<close> runs straight-line scripts over mutexes and proves in
  locales that scripts which lock in the order of a rank, or under one global lock, never
  deadlock or race, and that commuting actions have one result. \<open>Counters\<close> has the locale of
  a counter that publishes in batches. \<open>C_Library\<close> has the parts of the C library that the
  programs call on their command lines, \<open>strtol\<close>, \<open>atoi\<close> and \<open>getopt\<close>, with the decimal
  numeral of a number as their inverse. Every locale is interpreted on the programs' own
  definitions.

  \<^bold>\<open>Components.\<close>
  \<^item> \<open>Ring_Buffers\<close>: \<open>power_of_two_ring_buffer.c\<close>, \<open>isr_to_task_event_queue.c\<close>. Any sequence
    of calls answers like a bounded queue, across wrap-around of the 32-bit counters.
  \<^item> \<open>Spsc\<close>: \<open>spsc.c\<close>. Parent and child over a shared ring: values are read in order, no
    slot is written while it is read, and every run can finish with the printed sum.
  \<^item> \<open>Packet_Processor\<close>, \<open>Packet_Setup\<close>: \<open>packet_proc.c\<close>. Two rings of buffer indices between
    two processes: exclusive buffers, completion, the checksum and its expected value; the
    ring test that fails on odd laps and the fill loop that runs too far. The second theory
    has \<open>create_packet_file\<close>, which never delivers a file, and the rest of \<open>main\<close> around the
    loops with its error paths. The results on the loops hold for any file of records that
    fit their buffers.
  \<^item> \<open>Log_Store\<close>, \<open>Logstore_Test\<close>: \<open>logstore.c\<close>, \<open>logstore_test.c\<close>. Refinement of a map,
    compaction, the puts that overflow the log and the put that is lost in a concurrent
    clean; the repository's tests hold in every interleaving.
  \<^item> \<open>Heap_Use\<close>: the blocks that the log store, its test and the counters allocate and free.
    No double free and no leak for one caller at a time, over a locale of objects with a
    destructor; two concurrent cleans free a block twice.
  \<^item> \<open>Sparse_Set\<close>: \<open>sparse_set_for_huge_domain_ids.c\<close>. Refinement of a set, agreement with
    the requirements up to two deviations, iteration, the counters that \<open>ss_clear\<close> leaves, and the blocks that \<open>ss_destroy\<close> frees.
  \<^item> \<open>Locking\<close>, \<open>Vector_Programs\<close>, \<open>Try_Wait\<close>: the vector programs of \<open>32_ConcurrencyBugs\<close>,
    \<open>27_ThreadAPI/main-race.c\<close> and \<open>deadlock_free_multi_lock_transfer.c\<close>. \<open>Locking\<close> has the
    three variants with locks: deadlock freedom, absence of races, results, and the deadlock
    of \<open>vector-deadlock.c -d\<close>. \<open>Vector_Programs\<close> adds the command line: termination and the
    typing of the shared data for every argument vector. \<open>Try_Wait\<close> has the variants with
    \<open>trylock\<close> and with atomic additions, as step relations.
  \<^item> \<open>Blocking_Queue\<close>, \<open>Resource_Pool\<close>, \<open>Worker_Pools\<close>: \<open>thread_safe_bounded_queue.c\<close>,
    \<open>semaphore_resource_pool.c\<close>, \<open>worker_queue_shutdown.c\<close>, \<open>thread_pool_shutdown.c\<close>. Order,
    exclusive ownership, no lost wake-up for any number of callers, and the paths that keep
    a mutex or never stop.
  \<^item> \<open>Semaphores\<close>, \<open>Semaphore_Programs\<close>: \<open>barrier.c\<close>, \<open>reader-writer.c\<close>, \<open>rendezvous.c\<close>,
    \<open>fork-join.c\<close>. Safety and completion for any number of threads; all interleavings of the
    two small programs; \<open>reader-writer.c\<close> from its command line to the value it prints.
  \<^item> \<open>Counters\<close>: \<open>counter.h\<close>, its two implementations and \<open>main.c\<close>. Exact values for every
    schedule, and the uninitialised array of the approximate counter.
  \<^item> \<open>Monitors\<close>: \<open>thread_safe_stat_table.c\<close>, \<open>thread_safe_pub_sub_dispatcher.c\<close>,
    \<open>reset_race_state_guard.c\<close>, \<open>completion_vs_timeout_race.c\<close>, \<open>implement_rdwrlock.c\<close>.
  \<^item> \<open>Registers\<close>, \<open>Interrupts\<close>: the register, validation, interrupt and polling exercises.
    Encode and decode, exact acceptance conditions, and which events a handler clears.
  \<^item> \<open>Parsers\<close>, \<open>Mem_Basics\<close>, \<open>Submasks\<close>, \<open>Buffer_Pool\<close>: the integer parser, where it
    meets its requirements and where not, and the length labs; \<open>memcpy\<close>, \<open>memmove\<close> and
    \<open>memset\<close> with the alignment they need; the submask generator; the block allocator.
  \<^item> \<open>Files\<close>: \<open>patcher.c\<close>, \<open>mytail.c\<close>, \<open>myls.c\<close>, \<open>stat.c\<close> as functions of the arguments and of
    the files: which byte changes, which lines are printed, which inputs are undefined.
  \<^item> \<open>Processes\<close>: \<open>blackboard.c\<close>, \<open>fork_test.c\<close>, \<open>event_loop.c\<close>. Processes over shared memory and
    a pipe; the rounds of a \<open>poll\<close> loop.
  \<^item> \<open>Measurements\<close>: \<open>tlb.c\<close>, \<open>mem.c\<close>. The loops that are measured and the subtraction of
    times.

  \<^bold>\<open>Bounds.\<close> Loops are structural recursions or functions with a termination
  measure. The loop of \<open>buffer_pool_init\<close> need not end when addresses wrap and has fuel;
  the pool's size plus two is shown to be enough. The search loop of \<open>mytail.c\<close> has the file
  size as fuel (lemma \<open>tail_search_ends\<close>), and the inner loop of \<open>tlb.c\<close>, which does not end for
  a step of 0, is a partial function that is shown to return for page sizes from 16 bytes.
  \<open>parse_i32_results\<close> and \<open>parse_i32_required\<close> cover strings of up to 19 characters, beyond which the 64-bit
  multiplier overflows. Liveness statements say that from every reachable state the program
  can be completed; where every step decreases a measure the number of steps is bounded as
  well (\<open>steps_bounded_inv\<close>), and a run that cannot go on has finished.

  \<^bold>\<open>Parameters.\<close> The success of \<open>malloc\<close> and of system calls, the contents of files,
  directories and fresh memory, what \<open>read\<close>, \<open>write\<close> and \<open>poll\<close> deliver, the values read from
  volatile registers, the masks of \<open>pcie_link_status_parser.c\<close> and \<open>safe_ioctl_validator.c\<close>
  that no source defines, and the clocks are arguments.

  \<^bold>\<open>Not modelled.\<close> Floating-point times and averages (\<open>tlb.c\<close>, \<open>mem.c\<close>, the option \<open>-t\<close>, the
  elapsed time of \<open>29_LockedDataStructures/main.c\<close>) and thread affinity, which only affect
  what is measured; the macros of \<open>common_threads.h\<close>, which assert that a thread operation
  succeeded, as the models take these operations to succeed; messages on the error output
  and, outside \<open>Semaphores\<close>, \<open>Processes\<close> and \<open>Files\<close>, the text of printed lines; the
  function \<open>vector_print\<close>, which nothing calls; the set-up of the timer and the file of
  \<open>event_loop.c\<close>; functions without a body in the source (\<open>tp_shutdown\<close>,
  \<open>comp_complete\<close>, \<open>comp_cancel\<close>); and the reordering of stores by weaker memory models, as
  there is no operational model of the C memory order among the library theories.
\<close>

end
